(* ===== verification/Prelude.thy ===== *)
theory Prelude
  imports Main "HOL-Library.Word"
begin

text \<open>
  Shared vocabulary of the development: the C integer types as words of their width, the
  page size and \<^verbatim>\<open>ALIGN_UP\<close> of \<^verbatim>\<open>include/symphony/mm.h\<close>, the sequencing operator of
  fallible computations, the two counting loops of the sources
  (\<^verbatim>\<open>for (i = lo; i < hi; i++)\<close>, with and without an early exit) with one Hoare-style rule
  each, and the word lemmas the components share.
\<close>

unbundle bit_operations_syntax

type_synonym u8 = "8 word"
type_synonym u16 = "16 word"
type_synonym u32 = "32 word"
type_synonym u64 = "64 word"
type_synonym cint = "32 word"

named_theorems unat_simps \<open>facts that move word arithmetic to nat\<close>

section \<open>Words\<close>

lemma unat_less_64 [simp]: "unat (x :: u64) < 18446744073709551616"
  using unsigned_less [of x] by simp

lemma less_unat_64: "k < unat (n :: u64) \<Longrightarrow> k < 2 ^ 64"
  using unat_less_64 [of n] by (simp del: unat_less_64)

lemma unat_Suc_less:
  fixes i n :: "'w::len word"
  assumes "i < n"
  shows "unat (i + 1) = Suc (unat i)"
proof -
  have "unat n < 2 ^ LENGTH('w)" by (rule unsigned_less)
  with assms have "unat i + 1 < 2 ^ LENGTH('w)"
    unfolding word_less_nat_alt by linarith
  then show ?thesis
    by (simp add: unat_word_ariths unat_1)
qed

lemma inc_le_nat:
  fixes i k n :: "'w::len word"
  assumes "i < n" and "i + 1 \<le> k"
  shows "i \<le> k"
  using assms by (simp add: word_le_nat_alt unat_Suc_less)

lemma unat_add_no_wrap:
  fixes x y :: u64
  assumes "unat x + unat y < 2 ^ 64"
  shows "unat (x + y) = unat x + unat y"
  using assms unat_add_lem [of x y] by simp

lemma unat_of_nat_64: "n < 2 ^ 64 \<Longrightarrow> unat (of_nat n :: u64) = n"
  by (simp add: unat_of_nat)

lemma unat_sub_le:
  fixes x y :: u64
  assumes "y \<le> x"
  shows "unat (x - y) = unat x - unat y"
  using assms by (simp add: unat_sub)

lemma unat_shift_12: "unat (drop_bit 12 (x :: u64)) = unat x div 4096"
  by (simp only: unat_drop_bit_eq) (simp add: drop_bit_eq_div)

section \<open>Sequencing of fallible computations\<close>

fun bindE :: "'e + 'a \<Rightarrow> ('a \<Rightarrow> 'e + 'b) \<Rightarrow> 'e + 'b" where
  "bindE (Inl e) f = Inl e"
| "bindE (Inr a) f = f a"

lemma bindE_Inr_iff: "bindE m f = Inr b \<longleftrightarrow> (\<exists>a. m = Inr a \<and> f a = Inr b)"
  by (cases m) auto

lemma bindE_Inr [simp]: "bindE m Inr = m"
  by (cases m) auto

lemma bindE_assoc: "bindE (bindE m f) g = bindE m (\<lambda>a. bindE (f a) g)"
  by (cases m) auto

section \<open>Counting loops\<close>

text \<open>
  \<^verbatim>\<open>for (i = lo; i < hi; i++) body\<close>: the body maps the loop state to a new state, or leaves
  the loop (an error, a \<^verbatim>\<open>return\<close>) with \<^term>\<open>Inl\<close>. The counter is a word: it cannot wrap,
  since the guard says that it is below \<^verbatim>\<open>hi\<close> when it is incremented.
\<close>

function forE :: "'w::len word \<Rightarrow> 'w word \<Rightarrow> ('w word \<Rightarrow> 's \<Rightarrow> 'e + 's) \<Rightarrow> 's \<Rightarrow> 'e + 's" where
  "forE i n body s =
     (if i < n then (case body i s of Inl e \<Rightarrow> Inl e | Inr s' \<Rightarrow> forE (i + 1) n body s')
      else Inr s)"
  by pat_completeness auto
termination
  by (relation "measure (\<lambda>(i, n, _, _). unat n - unat i)")
    (auto simp: unat_Suc_less word_less_nat_alt)

function forW :: "'w::len word \<Rightarrow> 'w word \<Rightarrow> ('w word \<Rightarrow> 's \<Rightarrow> 's) \<Rightarrow> 's \<Rightarrow> 's" where
  "forW i n body s = (if i < n then forW (i + 1) n body (body i s) else s)"
  by pat_completeness auto
termination
  by (relation "measure (\<lambda>(i, n, _, _). unat n - unat i)")
    (auto simp: unat_Suc_less word_less_nat_alt)

declare forE.simps [simp del] forW.simps [simp del]

lemma forE_done [simp]: "\<not> i < n \<Longrightarrow> forE i n body s = Inr s"
  by (simp add: forE.simps)

lemma forW_done [simp]: "\<not> i < n \<Longrightarrow> forW i n body s = s"
  by (simp add: forW.simps)

lemma forE_step: "i < n \<Longrightarrow> forE i n body s = bindE (body i s) (forE (i + 1) n body)"
  by (subst forE.simps) (simp split: sum.splits)

text \<open>
  The rule of the loop with an exit: an invariant indexed by the counter (as a natural
  number), and a property of the exits. It is total: the loop always ends.
\<close>

lemma forE_rule:
  fixes i n :: "'w::len word"
  assumes "i \<le> n" and "P (unat i) s"
    and "\<And>k s. \<lbrakk>i \<le> k; k < n; P (unat k) s\<rbrakk> \<Longrightarrow>
           (case body k s of Inl e \<Rightarrow> Q e | Inr s' \<Rightarrow> P (Suc (unat k)) s')"
  shows "case forE i n body s of Inl e \<Rightarrow> Q e | Inr s' \<Rightarrow> P (unat n) s'"
  using assms
proof (induction i n body s rule: forE.induct)
  case (1 i n body s)
  show ?case
  proof (cases "i < n")
    case False
    with "1.prems" show ?thesis by simp
  next
    case True
    with "1.prems"(2,3) have step: "case body i s of Inl e \<Rightarrow> Q e | Inr s' \<Rightarrow> P (Suc (unat i)) s'"
      by simp
    show ?thesis
    proof (cases "body i s")
      case (Inl e)
      with step True show ?thesis by (simp add: forE_step)
    next
      case (Inr s')
      have "i + 1 \<le> n"
        using True by (simp add: word_le_nat_alt word_less_nat_alt unat_Suc_less)
      moreover have "P (unat (i + 1)) s'"
        using step Inr True by (simp add: unat_Suc_less)
      moreover have "\<And>k s. \<lbrakk>i + 1 \<le> k; k < n; P (unat k) s\<rbrakk> \<Longrightarrow>
           (case body k s of Inl e \<Rightarrow> Q e | Inr s' \<Rightarrow> P (Suc (unat k)) s')"
        using "1.prems"(3) inc_le_nat [OF True] by blast
      ultimately show ?thesis
        using "1.IH" [OF True Inr] True Inr by (simp add: forE_step)
    qed
  qed
qed

text \<open>A loop whose body never leaves it.\<close>

lemma forE_total_rule:
  fixes i n :: "'w::len word"
  assumes "i \<le> n" and "P (unat i) s"
    and "\<And>k s. \<lbrakk>i \<le> k; k < n; P (unat k) s\<rbrakk> \<Longrightarrow> \<exists>s'. body k s = Inr s' \<and> P (Suc (unat k)) s'"
  shows "\<exists>s'. forE i n body s = Inr s' \<and> P (unat n) s'"
proof -
  have "case forE i n body s of Inl e \<Rightarrow> False | Inr s' \<Rightarrow> P (unat n) s'"
    using assms(1,2)
  proof (rule forE_rule)
    fix k s
    assume "i \<le> k" "k < n" "P (unat k) s"
    then obtain s' where "body k s = Inr s'" "P (Suc (unat k)) s'"
      using assms(3) by blast
    then show "case body k s of Inl e \<Rightarrow> False | Inr s' \<Rightarrow> P (Suc (unat k)) s'"
      by simp
  qed
  then show ?thesis by (auto split: sum.splits)
qed

lemma forW_forE: "forE i n (\<lambda>k s. Inr (body k s)) s = (Inr (forW i n body s) :: 'e + 's)"
proof (induction i n body s rule: forW.induct)
  case (1 i n body s)
  show ?case
  proof (cases "i < n")
    case True
    with 1 show ?thesis by (simp add: forE_step forW.simps [of i n])
  qed simp
qed

lemma forW_rule:
  fixes i n :: "'w::len word" and s :: 's
  assumes "i \<le> n" and "P (unat i) s"
    and step: "\<And>k s. \<lbrakk>i \<le> k; k < n; P (unat k) s\<rbrakk> \<Longrightarrow> P (Suc (unat k)) (body k s)"
  shows "P (unat n) (forW i n body s)"
proof -
  have "\<exists>s'. forE i n (\<lambda>k s. Inr (body k s)) s = (Inr s' :: unit + 's) \<and> P (unat n) s'"
    using assms(1,2) by (rule forE_total_rule) (simp add: step)
  then show ?thesis by (simp add: forW_forE)
qed

section \<open>Alignment (mm.h)\<close>

definition PAGE_SIZE :: u64 where "PAGE_SIZE = 4096"

text \<open>
  \<^verbatim>\<open>ALIGN_UP(x, alignment)\<close>: the macro converts to \<^verbatim>\<open>uint64_t\<close>; all its uses have a 64-bit
  \<^verbatim>\<open>x\<close>, so \<^verbatim>\<open>typeof(x)\<close> casts nothing away.
\<close>

definition ALIGN_UP :: "u64 \<Rightarrow> u64 \<Rightarrow> u64" where
  "ALIGN_UP x alignment =
     (if x mod alignment = 0 then x else x + (alignment - (x mod alignment)))"

lemma unat_PAGE_SIZE [simp]: "unat PAGE_SIZE = 4096"
  by (simp add: PAGE_SIZE_def)

text \<open>
  Without wrap-around the result is the least multiple of the alignment that is at least
  \<^verbatim>\<open>x\<close>.
\<close>

lemma ALIGN_UP_nat:
  assumes "0 < unat a" and "unat x + unat a \<le> 2 ^ 64"
  shows "unat (ALIGN_UP x a) = (unat x + unat a - 1) div unat a * unat a"
proof (cases "unat x mod unat a = 0")
  case True
  then have "x mod a = 0" by (simp add: word_unat_eq_iff unat_mod)
  moreover from True obtain q where q: "unat x = unat a * q" by auto
  have "(unat a * q + unat a - 1) div unat a = q"
    by (rule div_nat_eqI) (use assms(1) in auto)
  ultimately show ?thesis by (simp add: ALIGN_UP_def q)
next
  case False
  define q r where "q = unat x div unat a" and "r = unat x mod unat a"
  have x: "unat x = r + unat a * q" by (simp add: q_def r_def)
  have r: "0 < r" "r < unat a" using False assms(1) by (auto simp: r_def)
  have neq: "x mod a \<noteq> 0" using False by (simp add: word_unat_eq_iff unat_mod)
  have um: "unat (x mod a) = r" by (simp add: unat_mod r_def)
  have "x mod a \<le> a" using um r by (simp add: word_le_nat_alt)
  then have ua: "unat (a - x mod a) = unat a - r" using um by (simp add: unat_sub)
  have "unat x + (unat a - r) < 2 ^ 64" using assms(2) r by simp
  then have "unat (x + (a - x mod a)) = unat x + (unat a - r)"
    using ua by (simp add: unat_add_no_wrap)
  then have "unat (ALIGN_UP x a) = unat a * q + unat a"
    using neq x r by (simp add: ALIGN_UP_def)
  moreover have "(unat x + unat a - 1) div unat a = Suc q"
    by (rule div_nat_eqI) (use x r in auto)
  ultimately show ?thesis by (simp add: algebra_simps)
qed

lemma ALIGN_UP_bounds:
  assumes "0 < unat a" and "unat x + unat a \<le> 2 ^ 64"
  shows "unat a dvd unat (ALIGN_UP x a)" and "unat x \<le> unat (ALIGN_UP x a)"
    and "unat (ALIGN_UP x a) < unat x + unat a"
proof -
  define y where "y = unat x + unat a - 1"
  have y: "unat (ALIGN_UP x a) = y div unat a * unat a"
    using ALIGN_UP_nat [OF assms] by (simp add: y_def)
  have "y div unat a * unat a = y - y mod unat a"
    by (simp add: minus_mod_eq_div_mult)
  moreover have "y mod unat a < unat a" using assms(1) by simp
  moreover have "y mod unat a \<le> y" by simp
  ultimately show "unat x \<le> unat (ALIGN_UP x a)" "unat (ALIGN_UP x a) < unat x + unat a"
    unfolding y y_def using assms(1) by linarith+
  show "unat a dvd unat (ALIGN_UP x a)" by (simp add: y)
qed

lemma ALIGN_UP_aligned: "x mod a = 0 \<Longrightarrow> ALIGN_UP x a = x"
  by (simp add: ALIGN_UP_def)

section \<open>Loops with a stride\<close>

text \<open>
  \<^verbatim>\<open>for (i = lo; i < hi; i += step)\<close>. When \<^verbatim>\<open>hi\<close> is within a stride of the end of the
  address space the counter wraps and the C loop need not end: the loop has fuel, and
  \<open>stride_fuel\<close> is enough for every loop whose counter does not wrap (\<open>for_stepE_enough\<close>).
\<close>

primrec for_stepE ::
    "nat \<Rightarrow> 'e \<Rightarrow> u64 \<Rightarrow> u64 \<Rightarrow> u64 \<Rightarrow> (u64 \<Rightarrow> 's \<Rightarrow> 'e + 's) \<Rightarrow> 's \<Rightarrow> 'e + 's" where
  "for_stepE 0 err i hi step body s = (if i < hi then Inl err else Inr s)"
| "for_stepE (Suc fuel) err i hi step body s =
     (if i < hi then bindE (body i s) (for_stepE fuel err (i + step) hi step body) else Inr s)"

definition stride_fuel :: "u64 \<Rightarrow> u64 \<Rightarrow> u64 \<Rightarrow> nat" where
  "stride_fuel lo hi step = Suc ((unat hi - unat lo) div unat step)"

text \<open>
  The rule for a loop over \<open>n\<close> strides: \<open>n\<close> is the least number with \<open>hi \<le> lo + n * step\<close>.
\<close>

lemma for_stepE_case_rule:
  assumes "n \<le> fuel" and "unat lo + n * unat step < 2 ^ 64" and "unat hi \<le> unat lo + n * unat step"
    and "\<And>k. k < n \<Longrightarrow> unat lo + k * unat step < unat hi"
    and "P 0 s"
    and "\<And>k s. k < n \<Longrightarrow> P k s \<Longrightarrow>
      (case body (lo + of_nat k * step) s of Inl e \<Rightarrow> Q e | Inr s' \<Rightarrow> P (Suc k) s')"
  shows "case for_stepE fuel err lo hi step body s of Inl e \<Rightarrow> Q e | Inr s' \<Rightarrow> P n s'"
  using assms
proof (induction n arbitrary: fuel lo s P)
  case 0
  then have "\<not> lo < hi" by (simp add: word_less_nat_alt)
  then show ?case using 0 by (cases fuel) auto
next
  case (Suc n)
  then obtain fuel' where f: "fuel = Suc fuel'" and n: "n \<le> fuel'" by (cases fuel) auto
  have lt: "lo < hi" using Suc.prems(4) [of 0] by (simp add: word_less_nat_alt)
  have first: "case body lo s of Inl e \<Rightarrow> Q e | Inr s' \<Rightarrow> P (Suc 0) s'"
    using Suc.prems(5) Suc.prems(6) [of 0 s] by simp
  show ?case
  proof (cases "body lo s")
    case (Inl e)
    then show ?thesis using f lt first by simp
  next
    case (Inr s1)
    have u: "unat (lo + step) = unat lo + unat step"
      using Suc.prems(2) by (intro unat_add_no_wrap) simp
    have "case for_stepE fuel' err (lo + step) hi step body s1 of Inl e \<Rightarrow> Q e | Inr s' \<Rightarrow> P (Suc n) s'"
    proof (rule Suc.IH [where P = "\<lambda>k. P (Suc k)"])
      fix k s
      assume "k < n" "P (Suc k) s"
      then show "case body (lo + step + of_nat k * step) s of Inl e \<Rightarrow> Q e | Inr s' \<Rightarrow> P (Suc (Suc k)) s'"
        using Suc.prems(6) [of "Suc k" s] by (simp add: algebra_simps)
    next
      fix k assume "k < n"
      then show "unat (lo + step) + k * unat step < unat hi"
        using Suc.prems(4) [of "Suc k"] by (simp add: u)
    qed (use n Suc.prems(2,3) first Inr in \<open>simp_all add: u\<close>)
    then show ?thesis using f lt Inr by simp
  qed
qed

lemma for_stepE_rule:
  assumes "n \<le> fuel" and "unat lo + n * unat step < 2 ^ 64" and "unat hi \<le> unat lo + n * unat step"
    and "\<And>k. k < n \<Longrightarrow> unat lo + k * unat step < unat hi"
    and "P 0 s"
    and "\<And>k s. k < n \<Longrightarrow> P k s \<Longrightarrow> \<exists>s'. body (lo + of_nat k * step) s = Inr s' \<and> P (Suc k) s'"
  shows "\<exists>s'. for_stepE fuel err lo hi step body s = Inr s' \<and> P n s'"
proof -
  have "case for_stepE fuel err lo hi step body s of Inl e \<Rightarrow> False | Inr s' \<Rightarrow> P n s'"
    using assms(1-5)
  proof (rule for_stepE_case_rule)
    fix k s assume "k < n" "P k s"
    from assms(6) [OF this] obtain s' where "body (lo + of_nat k * step) s = Inr s'" "P (Suc k) s'" by blast
    then show "case body (lo + of_nat k * step) s of Inl e \<Rightarrow> False | Inr s' \<Rightarrow> P (Suc k) s'" by simp
  qed
  then show ?thesis by (auto split: sum.splits)
qed

end
