(* ===== verification/Memory.thy ===== *)
theory Memory
  imports Prelude
begin

text \<open>
  Byte-addressed memory and the memory and string functions of \<^verbatim>\<open>symphony/string.c\<close>.
  Memory is a total map from 64-bit addresses to bytes; pointer arithmetic is word
  arithmetic. The functions that write return the new memory (with the C return value, the
  destination); the string functions scan until a terminator, which need not exist, so they
  are \<^verbatim>\<open>partial_function (option)\<close> with \<^term>\<open>None\<close> for a scan that never ends.
\<close>

type_synonym mem = "u64 \<Rightarrow> u8"

section \<open>Address ranges\<close>

text \<open>
  The \<open>n\<close> addresses from \<open>a\<close> on, modulo the address space: an address is in the range iff
  its distance from the start is below \<open>n\<close>.
\<close>

definition in_rng :: "u64 \<Rightarrow> nat \<Rightarrow> u64 \<Rightarrow> bool" where
  "in_rng a n x \<longleftrightarrow> unat (x - a) < n"

definition disj_rng :: "u64 \<Rightarrow> nat \<Rightarrow> u64 \<Rightarrow> nat \<Rightarrow> bool" where
  "disj_rng a n b k \<longleftrightarrow> unat a + n \<le> unat b \<or> unat b + k \<le> unat a"

definition no_wrap :: "u64 \<Rightarrow> nat \<Rightarrow> bool" where
  "no_wrap a n \<longleftrightarrow> unat a + n \<le> 2 ^ 64"

lemma in_rng_nat:
  assumes "no_wrap a n"
  shows "in_rng a n x \<longleftrightarrow> unat a \<le> unat x \<and> unat x < unat a + n"
proof (cases "a \<le> x")
  case True
  then show ?thesis
    by (auto simp: in_rng_def unat_sub_le word_le_nat_alt)
next
  case False
  then have "unat (x - a) = unat x + 2 ^ 64 - unat a"
    by (simp add: unat_sub_if' word_le_nat_alt)
  moreover have "unat x < unat a" using False by (simp add: word_le_nat_alt)
  ultimately show ?thesis
    using assms by (auto simp: in_rng_def no_wrap_def)
qed

lemma in_rng_disj:
  assumes "disj_rng a n b k" and "no_wrap a n" and "no_wrap b k" and "in_rng a n x"
  shows "\<not> in_rng b k x"
  using assms(1,4) by (auto simp: in_rng_nat [OF assms(2)] in_rng_nat [OF assms(3)] disj_rng_def)

lemma in_rng_offset:
  "k < n \<Longrightarrow> k < 2 ^ 64 \<Longrightarrow> in_rng a n (a + of_nat k)"
  by (simp add: in_rng_def unat_of_nat_64)

lemma in_rng_mono: "in_rng a n x \<Longrightarrow> n \<le> k \<Longrightarrow> in_rng a k x"
  by (simp add: in_rng_def)

lemma in_rng_word_offset [simp]: "in_rng a n (a + k) \<longleftrightarrow> unat k < n"
  by (simp add: in_rng_def)

lemma disj_rng_sym: "disj_rng a n b k \<longleftrightarrow> disj_rng b k a n"
  by (auto simp: disj_rng_def)

section \<open>string.c: memory functions\<close>

definition memset :: "u64 \<Rightarrow> cint \<Rightarrow> u64 \<Rightarrow> mem \<Rightarrow> u64 \<times> mem" where
  "memset s c n m = (s, forW 0 n (\<lambda>i m. m(s + i := ucast c)) m)"

definition memcpy :: "u64 \<Rightarrow> u64 \<Rightarrow> u64 \<Rightarrow> mem \<Rightarrow> u64 \<times> mem" where
  "memcpy dest src n m = (dest, forW 0 n (\<lambda>i m. m(dest + i := m (src + i))) m)"

function memmove_down :: "u64 \<Rightarrow> u64 \<Rightarrow> u64 \<Rightarrow> mem \<Rightarrow> mem" where
  "memmove_down dest src i m =
     (if i > 0 then memmove_down dest src (i - 1) (m(dest + (i - 1) := m (src + (i - 1)))) else m)"
  by pat_completeness auto
termination
  by (relation "measure (\<lambda>(_, _, i, _). unat i)")
    (auto intro: measure_unat simp: word_neq_0_conv)

declare memmove_down.simps [simp del]

definition memmove :: "u64 \<Rightarrow> u64 \<Rightarrow> u64 \<Rightarrow> mem \<Rightarrow> u64 \<times> mem" where
  "memmove dest src n m =
     (dest,
      if src > dest then forW 0 n (\<lambda>i m. m(dest + i := m (src + i))) m
      else if src < dest then memmove_down dest src n m
      else m)"

definition memcmp :: "u64 \<Rightarrow> u64 \<Rightarrow> u64 \<Rightarrow> mem \<Rightarrow> cint" where
  "memcmp s1 s2 n m =
     (case forE 0 n
        (\<lambda>i _. if m (s1 + i) \<noteq> m (s2 + i)
               then Inl (if m (s1 + i) < m (s2 + i) then - 1 else 1 :: cint) else Inr ()) () of
        Inl r \<Rightarrow> r
      | Inr _ \<Rightarrow> 0)"

section \<open>string.c: string functions\<close>

text \<open>\<^verbatim>\<open>char\<close> is signed on the target, so \<^verbatim>\<open>*s1 - *s2\<close> subtracts sign-extended bytes.\<close>

partial_function (option) strcmp_scan :: "mem \<Rightarrow> u64 \<Rightarrow> u64 \<Rightarrow> (u64 \<times> u64) option" where
  "strcmp_scan m s1 s2 =
     (if m s1 \<noteq> 0 \<and> m s2 \<noteq> 0 \<and> m s1 = m s2 then strcmp_scan m (s1 + 1) (s2 + 1)
      else Some (s1, s2))"

definition strcmp :: "mem \<Rightarrow> u64 \<Rightarrow> u64 \<Rightarrow> cint option" where
  "strcmp m s1 s2 =
     (case strcmp_scan m s1 s2 of
        None \<Rightarrow> None
      | Some (p1, p2) \<Rightarrow> Some (scast (m p1) - scast (m p2)))"

function strncmp :: "mem \<Rightarrow> u64 \<Rightarrow> u64 \<Rightarrow> u64 \<Rightarrow> cint" where
  "strncmp m s1 s2 n =
     (if n \<noteq> 0 \<and> m s1 \<noteq> 0 \<and> m s2 \<noteq> 0 \<and> m s1 = m s2
      then strncmp m (s1 + 1) (s2 + 1) (n - 1)
      else if n = 0 then 0 else scast (m s1) - scast (m s2))"
  by pat_completeness auto
termination
  by (relation "measure (\<lambda>(_, _, _, n). unat n)") (auto intro: measure_unat)

declare strncmp.simps [simp del]

partial_function (option) strlen_scan :: "mem \<Rightarrow> u64 \<Rightarrow> u64 \<Rightarrow> u64 option" where
  "strlen_scan m s count = (if m s \<noteq> 0 then strlen_scan m (s + 1) (count + 1) else Some count)"

definition strlen :: "mem \<Rightarrow> u64 \<Rightarrow> u64 option" where
  "strlen m s = strlen_scan m s 0"

section \<open>Functional behaviour of the memory functions\<close>

lemma sub_eq_of_nat: "unat (x - a) = n \<longleftrightarrow> n < 2 ^ 64 \<and> x = a + of_nat n" for x a :: u64
proof
  assume "unat (x - a) = n"
  then have "x - a = of_nat n" and "n < 2 ^ 64"
    using unat_less_64 [of "x - a"] by auto
  then show "n < 2 ^ 64 \<and> x = a + of_nat n"
    by (simp add: diff_eq_eq add.commute)
next
  assume "n < 2 ^ 64 \<and> x = a + of_nat n"
  then show "unat (x - a) = n" by (simp add: unat_of_nat_64)
qed

lemma in_rng_0 [simp]: "\<not> in_rng a 0 x"
  by (simp add: in_rng_def)

lemma in_rng_Suc: "in_rng a (Suc n) x \<longleftrightarrow> in_rng a n x \<or> (n < 2 ^ 64 \<and> x = a + of_nat n)"
  using sub_eq_of_nat [of x a n] by (auto simp: in_rng_def less_Suc_eq)

lemma fst_memset [simp]: "fst (memset s c n m) = s"
  by (simp add: memset_def)

lemma fst_memcpy [simp]: "fst (memcpy dest src n m) = dest"
  by (simp add: memcpy_def)

lemma fst_memmove [simp]: "fst (memmove dest src n m) = dest"
  by (simp add: memmove_def)

lemma memset_apply:
  "snd (memset s c n m) x = (if in_rng s (unat n) x then ucast c else m x)"
proof -
  have "\<forall>x. forW 0 n (\<lambda>i m. m(s + i := ucast c)) m x = (if in_rng s (unat n) x then ucast c else m x)"
    by (rule forW_rule [where P = "\<lambda>k m'. \<forall>x. m' x = (if in_rng s k x then ucast c else m x)"])
      (auto simp: in_rng_Suc)
  then show ?thesis by (simp add: memset_def)
qed

text \<open>An ascending copy, where no byte is overwritten before it is read.\<close>

lemma copy_up_apply:
  assumes "\<And>k. k < unat n \<Longrightarrow> \<not> in_rng dest k (src + of_nat k)"
  shows "forW 0 n (\<lambda>i m. m(dest + i := m (src + i))) m x
    = (if in_rng dest (unat n) x then m (src + (x - dest)) else m x)"
proof -
  have "\<forall>x. forW 0 n (\<lambda>i m. m(dest + i := m (src + i))) m x
    = (if in_rng dest (unat n) x then m (src + (x - dest)) else m x)"
  proof (rule forW_rule [where P = "\<lambda>k m'. \<forall>x. m' x =
      (if in_rng dest k x then m (src + (x - dest)) else m x)"])
    fix k m'
    assume k: "k < n" and IH: "\<forall>x. m' x = (if in_rng dest (unat k) x then m (src + (x - dest)) else m x)"
    have "\<not> in_rng dest (unat k) (src + k)"
      using assms [of "unat k"] k by (simp add: word_less_nat_alt)
    then have "m' (src + k) = m (src + k)" using IH by simp
    then show "\<forall>x. (m'(dest + k := m' (src + k))) x =
        (if in_rng dest (Suc (unat k)) x then m (src + (x - dest)) else m x)"
      using IH by (auto simp: in_rng_Suc)
  qed auto
  then show ?thesis by simp
qed

lemma copy_down_apply:
  assumes "\<And>k. k < unat i \<Longrightarrow> \<not> in_rng src k (dest + of_nat k)"
  shows "memmove_down dest src i m x
    = (if in_rng dest (unat i) x then m (src + (x - dest)) else m x)"
  using assms
proof (induction "unat i" arbitrary: i m)
  case 0
  then have "i = 0" by (simp add: unat_eq_zero)
  then show ?case by (simp add: memmove_down.simps)
next
  case (Suc j)
  then have "i \<noteq> 0" by auto
  then have pos: "i > 0" and i1: "unat (i - 1) = j"
    using Suc.hyps(2) by (simp_all add: word_gt_0 unat_minus_one)
  have w: "of_nat j = i - 1" using i1 [symmetric] by simp
  let ?m = "m(dest + (i - 1) := m (src + (i - 1)))"
  have IH: "memmove_down dest src (i - 1) ?m x
    = (if in_rng dest j x then ?m (src + (x - dest)) else ?m x)"
    using Suc.hyps(1) [of "i - 1" ?m] Suc.prems Suc.hyps(2) i1 by simp
  have keep: "src + (x - dest) \<noteq> dest + (i - 1)" if "in_rng dest j x"
  proof
    assume "src + (x - dest) = dest + (i - 1)"
    then have "dest + (i - 1) - src = x - dest" by (simp add: algebra_simps)
    then have "in_rng src j (dest + of_nat j)"
      using that unfolding in_rng_def w by (simp only:)
    then show False using Suc.prems [of j] Suc.hyps(2) by simp
  qed
  have "in_rng dest (unat i) x \<longleftrightarrow> in_rng dest j x \<or> x = dest + (i - 1)"
    unfolding Suc.hyps(2) [symmetric] in_rng_Suc
    using w i1 unat_less_64 [of "i - 1"] by auto
  then show ?case
    using pos IH keep by (subst memmove_down.simps) auto
qed

lemma offset_above:
  fixes a b :: u64
  assumes "a < b" and "no_wrap b n" and "k < n"
  shows "\<not> in_rng a k (b + of_nat k)"
proof -
  have k: "unat (of_nat k :: u64) = k"
    using assms by (intro unat_of_nat_64) (simp add: no_wrap_def)
  have ba: "unat (b - a) = unat b - unat a" "unat a < unat b"
    using assms(1) by (simp_all add: unat_sub word_le_nat_alt word_less_nat_alt)
  have "unat ((b - a) + of_nat k) = unat (b - a) + k"
    using assms ba k by (subst unat_add_no_wrap) (auto simp: no_wrap_def)
  then show ?thesis by (simp add: in_rng_def add.commute add_diff_eq)
qed

lemma memcpy_apply:
  assumes "disj_rng dest (unat n) src (unat n)"
    and "no_wrap dest (unat n)" and "no_wrap src (unat n)"
  shows "snd (memcpy dest src n m) x
    = (if in_rng dest (unat n) x then m (src + (x - dest)) else m x)"
proof -
  have "\<not> in_rng dest k (src + of_nat k)" if "k < unat n" for k
  proof -
    have "in_rng src (unat n) (src + of_nat k)"
      using that less_unat_64 [OF that] by (rule in_rng_offset)
    then have "\<not> in_rng dest (unat n) (src + of_nat k)"
      using assms in_rng_disj disj_rng_sym by blast
    then show ?thesis using that by (auto simp: in_rng_def)
  qed
  then show ?thesis by (simp add: memcpy_def copy_up_apply)
qed

lemma memmove_apply:
  assumes "no_wrap dest (unat n)" and "no_wrap src (unat n)"
  shows "snd (memmove dest src n m) x
    = (if in_rng dest (unat n) x then m (src + (x - dest)) else m x)"
proof (cases "dest < src")
  case True
  then have "\<not> in_rng dest k (src + of_nat k)" if "k < unat n" for k
    using offset_above assms(2) that by blast
  with True show ?thesis by (simp add: memmove_def copy_up_apply)
next
  case False
  show ?thesis
  proof (cases "src < dest")
    case True
    then have "\<not> in_rng src k (dest + of_nat k)" if "k < unat n" for k
      using offset_above assms(1) that by blast
    with True False show ?thesis by (simp add: memmove_def copy_down_apply)
  next
    case False
    with \<open>\<not> dest < src\<close> have "src = dest" by simp
    then show ?thesis by (simp add: memmove_def)
  qed
qed

section \<open>Comparisons and strings\<close>

definition read_bytes :: "mem \<Rightarrow> u64 \<Rightarrow> nat \<Rightarrow> u8 list" where
  "read_bytes m a n = map (\<lambda>k. m (a + of_nat k)) [0..<n]"

lemma length_read_bytes [simp]: "length (read_bytes m a n) = n"
  by (simp add: read_bytes_def)

lemma nth_read_bytes [simp]: "k < n \<Longrightarrow> read_bytes m a n ! k = m (a + of_nat k)"
  by (simp add: read_bytes_def)

lemma lexordp_first_diff:
  assumes "length xs = length ys" and "k < length xs"
    and "\<forall>j<k. xs ! j = ys ! j" and "xs ! k < (ys ! k :: 'a::linorder)"
  shows "ord_class.lexordp xs ys" and "\<not> ord_class.lexordp ys xs"
proof -
  have "take k xs = take k ys"
    using assms by (intro nth_equalityI) auto
  then obtain us where us: "xs = us @ xs ! k # drop (Suc k) xs" "ys = us @ ys ! k # drop (Suc k) ys"
    using assms(1,2) id_take_nth_drop by metis
  show "ord_class.lexordp xs ys"
    by (subst us(1), subst us(2)) (use assms(4) in \<open>auto intro!: lexordp_append_leftI\<close>)
  then show "\<not> ord_class.lexordp ys xs"
    using lexordp_antisym by blast
qed

lemma memcmp_first_diff:
  shows "(memcmp s1 s2 n m = 0 \<and> (\<forall>j<unat n. m (s1 + of_nat j) = m (s2 + of_nat j)))
     \<or> (\<exists>k<unat n. (\<forall>j<k. m (s1 + of_nat j) = m (s2 + of_nat j))
          \<and> m (s1 + of_nat k) \<noteq> m (s2 + of_nat k)
          \<and> memcmp s1 s2 n m = (if m (s1 + of_nat k) < m (s2 + of_nat k) then - 1 else 1))"
proof -
  let ?body = "\<lambda>i _. if m (s1 + i) \<noteq> m (s2 + i)
               then Inl (if m (s1 + i) < m (s2 + i) then - 1 else 1 :: cint) else Inr ()"
  let ?Q = "\<lambda>r. \<exists>k<unat n. (\<forall>j<k. m (s1 + of_nat j) = m (s2 + of_nat j))
          \<and> m (s1 + of_nat k) \<noteq> m (s2 + of_nat k)
          \<and> r = (if m (s1 + of_nat k) < m (s2 + of_nat k) then - 1 else 1)"
  have "case forE 0 n ?body () of Inl r \<Rightarrow> ?Q r
        | Inr u \<Rightarrow> \<forall>j<unat n. m (s1 + of_nat j) = m (s2 + of_nat j)"
  proof (rule forE_rule [where P = "\<lambda>k _. \<forall>j<k. m (s1 + of_nat j) = m (s2 + of_nat j)"])
    fix k :: u64 and u
    assume k: "k < n" and P: "\<forall>j<unat k. m (s1 + of_nat j) = m (s2 + of_nat j)"
    then show "case ?body k u of Inl r \<Rightarrow> ?Q r
        | Inr u \<Rightarrow> \<forall>j<Suc (unat k). m (s1 + of_nat j) = m (s2 + of_nat j)"
      by (auto simp: word_less_nat_alt less_Suc_eq intro!: exI [of _ "unat k"])
  qed simp_all
  then show ?thesis by (auto simp: memcmp_def split: sum.splits)
qed

lemma memcmp_lex:
  "memcmp s1 s2 n m =
     (if read_bytes m s1 (unat n) = read_bytes m s2 (unat n) then 0
      else if ord_class.lexordp (read_bytes m s1 (unat n)) (read_bytes m s2 (unat n)) then - 1
      else 1)"
  using memcmp_first_diff [of s1 s2 n m]
proof (elim disjE exE conjE)
  assume "memcmp s1 s2 n m = 0" "\<forall>j<unat n. m (s1 + of_nat j) = m (s2 + of_nat j)"
  then show ?thesis by (simp add: read_bytes_def)
next
  fix k
  assume k: "k < unat n" "\<forall>j<k. m (s1 + of_nat j) = m (s2 + of_nat j)"
    "m (s1 + of_nat k) \<noteq> m (s2 + of_nat k)"
    "memcmp s1 s2 n m = (if m (s1 + of_nat k) < m (s2 + of_nat k) then - 1 else 1)"
  let ?x = "read_bytes m s1 (unat n)" and ?y = "read_bytes m s2 (unat n)"
  have ne: "?x \<noteq> ?y" using k(1,3) by (metis nth_read_bytes)
  show ?thesis
  proof (cases "m (s1 + of_nat k) < m (s2 + of_nat k)")
    case True
    then have "ord_class.lexordp ?x ?y"
      using k(1,2) by (intro lexordp_first_diff(1) [where k = k]) auto
    with True k(4) ne show ?thesis by simp
  next
    case False
    then have "\<not> ord_class.lexordp ?x ?y"
      using k by (intro lexordp_first_diff(2) [where k = k]) auto
    with False k(4) ne show ?thesis by simp
  qed
qed

text \<open>The bytes of a terminated string at an address.\<close>

fun cstr_at :: "mem \<Rightarrow> u64 \<Rightarrow> u8 list \<Rightarrow> bool" where
  "cstr_at m p [] \<longleftrightarrow> m p = 0"
| "cstr_at m p (c # cs) \<longleftrightarrow> c \<noteq> 0 \<and> m p = c \<and> cstr_at m (p + 1) cs"

lemma cstr_at_nonzero: "cstr_at m p cs \<Longrightarrow> 0 \<notin> set cs"
  by (induction cs arbitrary: p) auto

lemma strlen_scan_cstr:
  "cstr_at m p cs \<Longrightarrow> strlen_scan m p c = Some (c + of_nat (length cs))"
  by (induction cs arbitrary: p c) (simp_all add: strlen_scan.simps)

lemma strlen_cstr: "cstr_at m p cs \<Longrightarrow> strlen m p = Some (of_nat (length cs))"
  by (simp add: strlen_def strlen_scan_cstr)

lemma strlen_unterminated:
  assumes "\<And>x. m x \<noteq> 0"
  shows "strlen m p = None"
proof (rule ccontr)
  assume "strlen m p \<noteq> None"
  then obtain n where "strlen_scan m p 0 = Some n" by (auto simp: strlen_def)
  then have "m = m \<longrightarrow> False"
  proof (rule strlen_scan.raw_induct [where P = "\<lambda>m' _ _ _. m' = m \<longrightarrow> False", rotated])
    fix f m' s c r
    assume "\<And>m' s c r. f m' s c = Some r \<Longrightarrow> m' = m \<longrightarrow> False"
      and "(if m' s \<noteq> 0 then f m' (s + 1) (c + 1) else Some c) = Some r"
    then show "m' = m \<longrightarrow> False" using assms by (auto split: if_splits)
  qed
  then show False by simp
qed

text \<open>
  What \<^verbatim>\<open>strcmp\<close> returns: the difference of the first pair of bytes that differ or that
  ends a string, read as signed characters.
\<close>

fun str_diff :: "u8 list \<Rightarrow> u8 list \<Rightarrow> cint" where
  "str_diff (c # cs) (d # ds) = (if c = d then str_diff cs ds else scast c - scast d)"
| "str_diff (c # cs) [] = scast c"
| "str_diff [] (d # ds) = - scast d"
| "str_diff [] [] = 0"

lemma strcmp_cstr:
  "cstr_at m p cs \<Longrightarrow> cstr_at m q ds \<Longrightarrow> strcmp m p q = Some (str_diff cs ds)"
  unfolding strcmp_def
proof (induction cs ds arbitrary: p q rule: str_diff.induct)
  case (1 c cs d ds)
  then show ?case by (subst strcmp_scan.simps) auto
qed (subst strcmp_scan.simps; auto)+

lemma sint_sub_u8: "sint (scast (c :: u8) - scast (d :: u8) :: cint) = sint c - sint d"
proof -
  have c: "- 128 \<le> sint c" "sint c < 128" using sint_ge [of c] sint_lt [of c] by simp_all
  have d: "- 128 \<le> sint d" "sint d < 128" using sint_ge [of d] sint_lt [of d] by simp_all
  have s: "sint (scast x :: cint) = sint x" for x :: u8
    by (simp add: sint_up_scast is_up)
  show ?thesis
    using c d by (simp add: sint_word_ariths s signed_take_bit_int_eq_self)
qed

lemma sint_scast_u8: "sint (scast (c :: u8) :: cint) = sint c"
  by (simp add: sint_up_scast is_up)

lemma sint_u8_eq_iff: "sint (c :: u8) = sint d \<longleftrightarrow> c = d"
  by (simp only: word_eq_iff_signed [where 'a = int, symmetric])

text \<open>The sign of the result orders the strings, with their terminators, by signed bytes.\<close>

lemma str_diff_sign:
  assumes "0 \<notin> set cs" and "0 \<notin> set ds"
  shows "str_diff cs ds = 0 \<longleftrightarrow> cs = ds"
    and "sint (str_diff cs ds) < 0
      \<longleftrightarrow> ord_class.lexordp (map sint (cs @ [0])) (map sint (ds @ [0]))"
proof -
  have u0: "sint (c :: u8) = 0 \<longleftrightarrow> c = 0" for c using sint_u8_eq_iff [of c 0] by simp
  have s0: "(x :: cint) = 0 \<longleftrightarrow> sint x = 0" for x by (simp add: signed_eq_0_iff)
  show "str_diff cs ds = 0 \<longleftrightarrow> cs = ds"
    using assms
  proof (induction cs ds rule: str_diff.induct)
    case (1 c cs d ds)
    then show ?case using sint_sub_u8 [of c d] sint_u8_eq_iff [of c d]
      by (auto simp: s0 simp del: sint_0)
  next
    case (3 d ds)
    then show ?case using sint_sub_u8 [of 0 d] u0 [of d] by (auto simp: s0 simp del: sint_0)
  qed (auto simp: s0 sint_scast_u8 u0 simp del: sint_0)
  show "sint (str_diff cs ds) < 0
      \<longleftrightarrow> ord_class.lexordp (map sint (cs @ [0])) (map sint (ds @ [0]))"
    using assms
  proof (induction cs ds rule: str_diff.induct)
    case (1 c cs d ds)
    then show ?case using sint_sub_u8 [of c d] sint_u8_eq_iff [of c d] by auto
  next
    case (2 c cs)
    then show ?case using u0 [of c] by (auto simp: sint_scast_u8)
  next
    case (3 d ds)
    then show ?case using sint_sub_u8 [of 0 d] u0 [of d] by auto
  qed auto
qed

section \<open>Little-endian objects in memory\<close>

text \<open>
  A \<open>k\<close>-byte integer object of the target, least significant byte first. The kernel's
  structures in shared memory (page-table entries, heap block headers) are read and written
  with these.
\<close>

fun load_le :: "mem \<Rightarrow> u64 \<Rightarrow> nat \<Rightarrow> u64" where
  "load_le m a 0 = 0"
| "load_le m a (Suc k) = ucast (m a) OR push_bit 8 (load_le m (a + 1) k)"

fun store_le :: "u64 \<Rightarrow> nat \<Rightarrow> u64 \<Rightarrow> mem \<Rightarrow> mem" where
  "store_le a 0 v m = m"
| "store_le a (Suc k) v m = store_le (a + 1) k (drop_bit 8 v) (m(a := ucast v))"

definition load64 :: "mem \<Rightarrow> u64 \<Rightarrow> u64" where
  "load64 m a = load_le m a 8"

definition store64 :: "u64 \<Rightarrow> u64 \<Rightarrow> mem \<Rightarrow> mem" where
  "store64 a v m = store_le a 8 v m"

lemma bit_load_le:
  "bit (load_le m a k) i \<longleftrightarrow> i < 8 * k \<and> i < 64 \<and> bit (m (a + of_nat (i div 8))) (i mod 8)"
proof (induction k arbitrary: a i)
  case 0
  then show ?case by simp
next
  case (Suc k)
  note IH = Suc.IH [of "a + 1" "i - 8"]
  show ?case
  proof (cases "i < 8")
    case True
    then show ?thesis by (simp add: bit_or_iff bit_push_bit_iff bit_ucast_iff)
  next
    case False
    then have i: "i div 8 = Suc ((i - 8) div 8)" "i mod 8 = (i - 8) mod 8"
      by (simp_all add: le_div_geq le_mod_geq)
    have "\<not> bit (m a) i" using False by (simp add: impossible_bit)
    then have "bit (load_le m a (Suc k)) i \<longleftrightarrow> i < 64 \<and> bit (load_le m (a + 1) k) (i - 8)"
      using False by (simp add: bit_or_iff bit_push_bit_iff bit_ucast_iff) 
    moreover define B where "B = bit (m (a + of_nat (i div 8))) (i mod 8)"
    moreover have "B = bit (m (a + 1 + of_nat ((i - 8) div 8))) ((i - 8) mod 8)"
      unfolding B_def i by (simp add: add.assoc)
    ultimately show ?thesis
      using False IH by auto
  qed
qed

lemma load_le_cong:
  assumes "\<And>x. in_rng a k x \<Longrightarrow> m x = m' x" and "k \<le> 2 ^ 64"
  shows "load_le m a k = load_le m' a k"
proof (rule bit_word_eqI)
  fix n
  have "m (a + of_nat (n div 8)) = m' (a + of_nat (n div 8))" if "n < 8 * k"
    using that assms(2) by (intro assms(1) in_rng_offset) auto
  then show "bit (load_le m a k) n = bit (load_le m' a k) n"
    by (auto simp: bit_load_le)
qed

lemma store_le_apply:
  assumes "k \<le> 2 ^ 64"
  shows "store_le a k v m x
    = (if in_rng a k x then ucast (drop_bit (8 * unat (x - a)) v) else m x)"
  using assms
proof (induction k arbitrary: a v m)
  case 0
  then show ?case by simp
next
  case (Suc k)
  from Suc.prems have "k \<le> 2 ^ 64" by (rule Suc_leD)
  then have IH: "store_le (a + 1) k (drop_bit 8 v) (m(a := ucast v)) x
    = (if in_rng (a + 1) k x then ucast (drop_bit (8 * unat (x - (a + 1))) (drop_bit 8 v))
       else (m(a := ucast v)) x)" by (rule Suc.IH)
  show ?case
  proof (cases "x = a")
    case True
    have "unat (a - (a + 1)) = 2 ^ 64 - 1"
      by (simp add: unsigned_minus_1_eq_mask mask_eq_exp_minus_1)
    then have "\<not> in_rng (a + 1) k a"
      using Suc.prems unfolding in_rng_def by linarith
    moreover have "in_rng a (Suc k) a" by (simp add: in_rng_def)
    ultimately show ?thesis
      using IH unfolding True by (simp only: store_le.simps if_False if_True fun_upd_same) simp
  next
    case False
    then have ne: "x - a \<noteq> 0" by simp
    then have "unat (x - a - 1) = unat (x - a) - 1" and "0 < unat (x - a)"
      by (rule unat_minus_one) (simp_all add: unat_gt_0 False)
    then have u: "unat (x - a) = Suc (unat (x - (a + 1)))"
      by (simp add: diff_diff_eq)
    then have "in_rng a (Suc k) x = in_rng (a + 1) k x"
      unfolding in_rng_def by (simp only: Suc_less_eq)
    moreover have "drop_bit (8 * unat (x - (a + 1))) (drop_bit 8 v) = drop_bit (8 * unat (x - a)) v"
      unfolding u by (simp only: drop_bit_drop_bit mult_Suc_right add.commute)
    ultimately show ?thesis
      using False by (simp only: store_le.simps IH fun_upd_other simp_thms)
  qed
qed

lemma load64_store64_same [simp]: "load64 (store64 a v m) a = v"
proof (rule bit_word_eqI)
  fix n
  assume n: "n < LENGTH(64)"
  have "unat (of_nat (n div 8) :: u64) = n div 8" using n by (intro unat_of_nat_64) simp
  moreover have "n div 8 < 8" using n by simp
  ultimately show "bit (load64 (store64 a v m) a) n = bit v n"
    using n by (simp add: load64_def store64_def bit_load_le store_le_apply bit_ucast_iff
        bit_drop_bit_eq)
qed

lemma store64_apply_out: "\<not> in_rng a 8 x \<Longrightarrow> store64 a v m x = m x"
  by (simp add: store64_def store_le_apply)

lemma load64_cong: "(\<And>x. in_rng a 8 x \<Longrightarrow> m x = m' x) \<Longrightarrow> load64 m a = load64 m' a"
  unfolding load64_def by (rule load_le_cong) auto

lemma load64_store64_other:
  assumes "disj_rng a 8 b 8" and "no_wrap a 8" and "no_wrap b 8"
  shows "load64 (store64 a v m) b = load64 m b"
  using assms by (intro load64_cong store64_apply_out) (auto dest: in_rng_disj)

lemma load64_memset_other:
  assumes "disj_rng a (unat n) b 8" and "no_wrap a (unat n)" and "no_wrap b 8"
  shows "load64 (snd (memset a c n m)) b = load64 m b"
  using assms by (intro load64_cong) (auto simp: memset_apply dest: in_rng_disj)

lemma load64_zero:
  assumes "\<And>x. in_rng a 8 x \<Longrightarrow> m x = 0"
  shows "load64 m a = 0"
proof -
  have "load64 m a = load64 (\<lambda>_. 0) a" using assms by (rule load64_cong)
  also have "\<dots> = 0" by (rule bit_word_eqI) (simp add: load64_def bit_load_le)
  finally show ?thesis .
qed

section \<open>Prefix comparison\<close>

lemma unat_dec: "n \<noteq> 0 \<Longrightarrow> unat n = Suc (unat (n - 1))" for n :: u64
  using unat_minus_one [of n] unat_gt_0 [of n] by simp

lemma strncmp_cstr:
  assumes "cstr_at m p cs" and "cstr_at m q ds"
  shows "strncmp m p q n = str_diff (take (unat n) cs) (take (unat n) ds)"
  using assms
proof (induction cs ds arbitrary: p q n rule: str_diff.induct)
  case (1 c cs d ds)
  show ?case
  proof (cases "n = 0")
    case False
    then show ?thesis
      using 1 unat_dec [OF False] by (subst strncmp.simps) auto
  qed (simp add: strncmp.simps)
next
  case (2 c cs)
  then show ?case by (cases "n = 0"; subst strncmp.simps) (auto simp: unat_dec)
next
  case (3 d ds)
  then show ?case by (cases "n = 0"; subst strncmp.simps) (auto simp: unat_dec)
next
  case 4
  then show ?case by (subst strncmp.simps) auto
qed

section \<open>The length of a string, and when the scan ends\<close>

lemma strlen_scan_finds:
  assumes "m (p + of_nat k) = 0" and "\<forall>j<k. m (p + of_nat j) \<noteq> 0"
  shows "strlen_scan m p c = Some (c + of_nat k)"
  using assms
proof (induction k arbitrary: p c)
  case 0
  then show ?case by (simp add: strlen_scan.simps)
next
  case (Suc k)
  have "m p \<noteq> 0" using Suc.prems(2) by force
  moreover have "strlen_scan m (p + 1) (c + 1) = Some ((c + 1) + of_nat k)"
    using Suc.prems(1) Suc.prems(2)
    by (intro Suc.IH) (auto simp: add.assoc simp flip: of_nat_Suc)
  ultimately show ?case by (subst strlen_scan.simps) (simp add: add.assoc)
qed

text \<open>The first zero byte at or after an address, when the memory has one.\<close>

lemma first_zero:
  fixes m :: mem
  assumes "m x = 0"
  obtains k where "k < 2 ^ 64" "m (p + of_nat k) = 0" "\<forall>j<k. m (p + of_nat j) \<noteq> 0"
proof -
  have z: "m (p + of_nat (unat (x - p))) = 0" using assms by simp
  then obtain k where k: "m (p + of_nat k) = 0" "\<forall>j<k. m (p + of_nat j) \<noteq> 0"
    using exists_least_iff [of "\<lambda>k. m (p + of_nat k) = 0"] by blast
  have "k \<le> unat (x - p)" using k(2) z by (meson not_less)
  from order.strict_trans1 [OF this unat_less_64] have "k < 2 ^ 64" by simp
  with k show ?thesis by (rule that [rotated])
qed

section \<open>Properties\<close>

text \<open>C40: after \<^verbatim>\<open>memmove\<close> the destination holds the bytes the source held before the call,
  also when the two ranges overlap in either direction; every other byte keeps its value, and
  the destination pointer is returned. The ranges must not wrap around the address space.\<close>

theorem memmove_moves:
  assumes "no_wrap dest (unat n)" and "no_wrap src (unat n)"
  shows "read_bytes (snd (memmove dest src n m)) dest (unat n) = read_bytes m src (unat n)
    \<and> (\<forall>x. \<not> in_rng dest (unat n) x \<longrightarrow> snd (memmove dest src n m) x = m x)
    \<and> fst (memmove dest src n m) = dest"
proof -
  have "in_rng dest (unat n) (dest + of_nat k)" if "k < unat n" for k
    using that less_unat_64 [OF that] by (rule in_rng_offset)
  then show ?thesis
    using memmove_apply [OF assms] by (auto simp: read_bytes_def)
qed

theorem memmove_moves_witness:
  "read_bytes (snd (memmove 102 100 4 (\<lambda>x. ucast x))) 102 4 = [100, 101, 102, 103]"
  using memmove_moves [of 102 4 100 "\<lambda>x. ucast x"]
  by (simp add: no_wrap_def read_bytes_def upt_rec)

text \<open>On ranges that do not overlap, \<^verbatim>\<open>memcpy\<close> and \<^verbatim>\<open>memmove\<close> leave the same memory.\<close>

theorem memcpy_eq_memmove:
  assumes "disj_rng dest (unat n) src (unat n)"
    and "no_wrap dest (unat n)" and "no_wrap src (unat n)"
  shows "memcpy dest src n m = memmove dest src n m"
  using assms by (intro prod_eqI ext) (simp_all add: memcpy_apply memmove_apply)

theorem memcpy_eq_memmove_witness:
  "memcpy 200 100 16 (\<lambda>x. ucast x) = memmove 200 100 16 (\<lambda>x. ucast x)"
  by (rule memcpy_eq_memmove) (simp_all add: no_wrap_def disj_rng_def)

text \<open>\<^verbatim>\<open>memcmp\<close> is the lexicographic order of the two byte ranges as unsigned bytes: 0 when
  they are equal, -1 when the first is smaller, 1 when it is greater.\<close>

theorem memcmp_orders:
  "memcmp s1 s2 n m =
     (if read_bytes m s1 (unat n) = read_bytes m s2 (unat n) then 0
      else if ord_class.lexordp (read_bytes m s1 (unat n)) (read_bytes m s2 (unat n)) then - 1
      else 1)"
  by (rule memcmp_lex)

text \<open>\<^verbatim>\<open>strlen\<close> returns the number of bytes before the first zero byte, and it returns on
  every memory that has a zero byte anywhere (the scan wraps around); on a memory without one
  it runs forever.\<close>

theorem strlen_finds_terminator:
  "strlen m p = (if \<exists>x. m x = 0 then Some (of_nat (LEAST k. m (p + of_nat k) = 0)) else None)"
proof (cases "\<exists>x. m x = 0")
  case True
  then obtain k where k: "k < 2 ^ 64" "m (p + of_nat k) = 0" "\<forall>j<k. m (p + of_nat j) \<noteq> 0"
    using first_zero [of m] by blast
  then have "(LEAST k. m (p + of_nat k) = 0) = k"
    by (intro Least_equality) (auto simp: not_less [symmetric])
  then show ?thesis
    using True strlen_scan_finds [OF k(2,3), of 0] by (simp add: strlen_def)
next
  case False
  then show ?thesis using strlen_unterminated by auto
qed

text \<open>On terminated strings \<^verbatim>\<open>strcmp\<close> returns zero exactly for equal strings, and a negative
  value exactly when the first string comes before the second in the lexicographic order of
  their bytes read as signed characters (terminators included).\<close>

theorem strcmp_orders:
  assumes "cstr_at m p cs" and "cstr_at m q ds"
  shows "\<exists>r. strcmp m p q = Some r \<and> (r = 0 \<longleftrightarrow> cs = ds)
    \<and> (sint r < 0 \<longleftrightarrow> ord_class.lexordp (map sint (cs @ [0])) (map sint (ds @ [0])))"
  using strcmp_cstr [OF assms] str_diff_sign [of cs ds] cstr_at_nonzero assms by auto

theorem strcmp_orders_witness:
  "\<exists>r. strcmp (\<lambda>x. if x < 3 then 0x41 else if x = 4 then 0xE9 else 0) 0 4 = Some r \<and> \<not> sint r < 0"
  using strcmp_orders [of "\<lambda>x. if x < 3 then 0x41 else if x = 4 then 0xE9 else 0" 0
      "[0x41, 0x41, 0x41]" 4 "[0xE9]"]
  by (auto simp: signed_take_bit_int_eq_self)

text \<open>\<^verbatim>\<open>strncmp\<close> of two terminated strings is \<^verbatim>\<open>strcmp\<close> of their prefixes of at most
  \<open>n\<close> characters.\<close>

theorem strncmp_prefixes:
  assumes "cstr_at m p cs" and "cstr_at m q ds"
    and "cstr_at m' p' (take (unat n) cs)" and "cstr_at m' q' (take (unat n) ds)"
  shows "Some (strncmp m p q n) = strcmp m' p' q'"
  using assms by (simp add: strncmp_cstr strcmp_cstr)

theorem strncmp_prefixes_witness:
  "Some (strncmp (\<lambda>x. if x < 3 then 0x41 else if x = 4 then 0x41 else 0) 0 4 1)
     = strcmp (\<lambda>x. if x = 0 then 0x41 else if x = 4 then 0x41 else 0) 0 4"
  by (rule strncmp_prefixes [where cs = "[0x41, 0x41, 0x41]" and ds = "[0x41]"]) simp_all

end
