(* ===== verification/Debug.thy ===== *)
theory Debug
  imports Memory
begin

text \<open>
  The formatted output of \<^verbatim>\<open>symphony/debug.c\<close>. Every function here returns the characters
  it hands to \<^verbatim>\<open>debug_putchar\<close>, in order, with the C return value; the console the characters
  go to is theory \<open>Serial\<close>. A format string is the content of a C string (the terminator is
  not part of the list, and reading it is reading the NUL character); a variadic list is a
  list of typed arguments, consumed from the front. What C leaves undefined (reading past
  the terminator, a missing or mistyped argument, a division by a zero base, a signed overflow
  of the width or of a negated value) is an error value. The count of printed characters is kept
  modulo \<open>2 ^ 32\<close>: an output of \<open>2 ^ 31\<close> characters, where C leaves it undefined, is out of scope.
\<close>

section \<open>debug\_print\_int\<close>

definition LEFT_ALIGN :: cint where "LEFT_ALIGN = 1"
definition PLUS_FOR_POSITIVE :: cint where "PLUS_FOR_POSITIVE = push_bit 1 1"
definition SPACE_FOR_POSITIVE :: cint where "SPACE_FOR_POSITIVE = push_bit 2 1"
definition PREPEND_ZEROES :: cint where "PREPEND_ZEROES = push_bit 3 1"
definition THOUSANDS_GROUPING :: cint where "THOUSANDS_GROUPING = push_bit 4 1"
definition SPECIAL_HASH :: cint where "SPECIAL_HASH = push_bit 5 1"
definition MAX_WIDTH :: cint where "MAX_WIDTH = 256"

datatype fmt_error = Fmt_overrun | Arg_missing | Arg_type | Bad_base | No_return | Int_overflow

definition has_flag :: "cint \<Rightarrow> cint \<Rightarrow> bool" where
  "has_flag flags f \<longleftrightarrow> flags AND f \<noteq> 0"

definition digitsLower :: string where "digitsLower = ''0123456789abcdef''"
definition digitsUpper :: string where "digitsUpper = ''0123456789ABCDEF''"

text \<open>
  \<^verbatim>\<open>do { dcount++; revn *= base; revn += n%base; n /= base; } while (n != 0)\<close>: with base 1
  it never ends.
\<close>

partial_function (option) reverse_digits ::
    "u64 \<Rightarrow> u64 \<Rightarrow> u64 \<Rightarrow> cint \<Rightarrow> (u64 \<times> cint) option" where
  "reverse_digits base n revn dcount =
     (let dcount = dcount + 1; revn = revn * base + n mod base; n = n div base
      in if n \<noteq> 0 then reverse_digits base n revn dcount else Some (revn, dcount))"

primrec emit_digits :: "nat \<Rightarrow> string \<Rightarrow> u64 \<Rightarrow> u64 \<Rightarrow> string" where
  "emit_digits 0 digits base revn = []"
| "emit_digits (Suc k) digits base revn =
     digits ! unat (revn mod base) # emit_digits k digits base (revn div base)"

definition emit_padding :: "cint \<Rightarrow> cint \<Rightarrow> cint \<Rightarrow> string" where
  "emit_padding flags width dcount =
     (if 0 < sint (width - dcount)
      then replicate (nat (sint (width - dcount)))
             (if has_flag flags PREPEND_ZEROES then CHR ''0'' else CHR '' '')
      else [])"

definition int_sign :: "bool \<Rightarrow> cint \<Rightarrow> string" where
  "int_sign negative flags =
     (if negative then ''-''
      else if has_flag flags PLUS_FOR_POSITIVE then ''+''
      else if has_flag flags SPACE_FOR_POSITIVE then '' ''
      else [])"

definition int_prefix :: "cint \<Rightarrow> cint \<Rightarrow> bool \<Rightarrow> string" where
  "int_prefix base flags upper =
     (if base = 8 \<and> has_flag flags SPECIAL_HASH then ''0''
      else if base = 16 \<and> has_flag flags SPECIAL_HASH then (if upper then ''0X'' else ''0x'')
      else [])"

text \<open>
  The sign, the padding and the digits are counted in the result, the \<^verbatim>\<open>#\<close> prefix is not:
  its \<^verbatim>\<open>debug_putchar\<close> calls have no \<^verbatim>\<open>chars++\<close>. A negative value is negated as an \<^verbatim>\<open>intmax_t\<close>, which
  overflows for the least one.
\<close>

definition INTMAX_MIN :: u64 where "INTMAX_MIN = push_bit 63 1"

definition debug_print_int ::
    "u64 \<Rightarrow> cint \<Rightarrow> cint \<Rightarrow> cint \<Rightarrow> bool \<Rightarrow> bool \<Rightarrow> fmt_error + (string \<times> cint)" where
  "debug_print_int n flags width base sign upper =
     (let negative = (sint n < 0 \<and> sign) in
      if negative \<and> n = INTMAX_MIN then Inl Int_overflow else
      let n = (if negative then - n else n)
      in if sint base > 16 then Inr ([], 0)
         else if sint base \<le> 0 then Inl Bad_base
         else
           (case reverse_digits (scast base) n 0 0 of
              None \<Rightarrow> Inl No_return
            | Some (revn, dcount) \<Rightarrow>
                let sg = int_sign negative flags;
                    lp = (if has_flag flags LEFT_ALIGN then [] else emit_padding flags width dcount);
                    ds = emit_digits (nat (sint dcount))
                           (if upper then digitsUpper else digitsLower) (scast base) revn;
                    rp = (if has_flag flags LEFT_ALIGN then emit_padding flags width dcount else [])
                in Inr (sg @ int_prefix base flags upper @ lp @ ds @ rp,
                        of_nat (length sg + length lp + length ds + length rp))))"

section \<open>debug\_vprintf\<close>

datatype vaarg = VaInt cint | VaLong u64 | VaPtr u64 | VaStr "string option"

datatype length_mod =
  LENGTH_NONE | LENGTH_INT | LENGTH_LONG | LENGTH_LONG_LONG | LENGTH_SIZE
| LENGTH_INTMAX | LENGTH_PTRDIFF | LENGTH_PTR

definition fmt_at :: "string \<Rightarrow> nat \<Rightarrow> fmt_error + char" where
  "fmt_at fmt i =
     (if i < length fmt then Inr (fmt ! i)
      else if i = length fmt then Inr (CHR 0x00)
      else Inl Fmt_overrun)"

definition flag_switch :: "char \<Rightarrow> cint \<Rightarrow> cint" where
  "flag_switch c flags =
     (if c = CHR ''-'' then flags OR LEFT_ALIGN
      else if c = CHR ''+'' then flags OR PLUS_FOR_POSITIVE
      else if c = CHR '' '' then flags OR SPACE_FOR_POSITIVE
      else if c = CHR ''0'' then flags OR PREPEND_ZEROES
      else if c = CHR 0x27 then flags OR THOUSANDS_GROUPING
      else if c = CHR ''#'' then flags OR SPECIAL_HASH
      else flags)"

lemma bindE_cong [fundef_cong]:
  "m = m' \<Longrightarrow> (\<And>a. m' = Inr a \<Longrightarrow> f a = g a) \<Longrightarrow> bindE m f = bindE m' g"
  by (cases m') auto

lemma flag_switch_NUL: "flag_switch (CHR 0x00) flags = flags"
  by (simp add: flag_switch_def)

function parse_flags :: "string \<Rightarrow> nat \<Rightarrow> cint \<Rightarrow> fmt_error + (nat \<times> cint)" where
  "parse_flags fmt i flags =
     bindE (fmt_at fmt (Suc i)) (\<lambda>c.
       let prevflags = flags; flags = flag_switch c flags
       in if flags \<noteq> prevflags then parse_flags fmt (Suc i) flags else Inr (Suc i, flags))"
  by pat_completeness auto
termination
  by (relation "measure (\<lambda>(fmt, i, _). length fmt - i)")
    (auto simp: fmt_at_def flag_switch_NUL split: if_splits)

definition IS_DIGIT :: "char \<Rightarrow> bool" where
  "IS_DIGIT c \<longleftrightarrow> (48::nat) \<le> of_char c \<and> (of_char c :: nat) \<le> 57"

text \<open>\<^verbatim>\<open>width *= 10; width += (int)(fmt[i] - '0')\<close>, while it does not overflow.\<close>

function parse_width :: "string \<Rightarrow> nat \<Rightarrow> cint \<Rightarrow> fmt_error + (nat \<times> cint)" where
  "parse_width fmt i width =
     bindE (fmt_at fmt i) (\<lambda>c.
       if IS_DIGIT c then
         (if sint width * 10 + (of_char c - 48) < 2 ^ 31
          then parse_width fmt (Suc i) (width * 10 + (of_char c - 48))
          else Inl Int_overflow)
       else Inr (i, width))"
  by pat_completeness auto
termination
  by (relation "measure (\<lambda>(fmt, i, _). length fmt - i)")
    (auto simp: fmt_at_def IS_DIGIT_def split: if_splits)

declare parse_flags.simps [simp del] parse_width.simps [simp del]

definition parse_length :: "string \<Rightarrow> nat \<Rightarrow> fmt_error + (nat \<times> length_mod)" where
  "parse_length fmt i =
     bindE (fmt_at fmt i) (\<lambda>c.
       if c = CHR ''h'' then
         bindE (fmt_at fmt (i + 1)) (\<lambda>c'.
           Inr (if c' = CHR ''h'' then i + 2 else i + 1, LENGTH_INT))
       else if c = CHR ''l'' then
         bindE (fmt_at fmt (i + 1)) (\<lambda>c'.
           Inr (if c' = CHR ''l'' then (i + 2, LENGTH_LONG_LONG) else (i + 1, LENGTH_LONG)))
       else if c = CHR ''z'' then Inr (i + 1, LENGTH_SIZE)
       else if c = CHR ''j'' then Inr (i + 1, LENGTH_INTMAX)
       else if c = CHR ''t'' then Inr (i + 1, LENGTH_PTRDIFF)
       else Inr (i, if c = CHR ''p'' \<or> c = CHR ''s'' then LENGTH_PTR else LENGTH_INT))"

fun va_int :: "vaarg list \<Rightarrow> fmt_error + (cint \<times> vaarg list)" where
  "va_int [] = Inl Arg_missing"
| "va_int (VaInt w # as) = Inr (w, as)"
| "va_int (_ # as) = Inl Arg_type"

fun va_long :: "vaarg list \<Rightarrow> fmt_error + (u64 \<times> vaarg list)" where
  "va_long [] = Inl Arg_missing"
| "va_long (VaLong w # as) = Inr (w, as)"
| "va_long (_ # as) = Inl Arg_type"

fun va_ptr :: "vaarg list \<Rightarrow> fmt_error + (u64 \<times> vaarg list)" where
  "va_ptr [] = Inl Arg_missing"
| "va_ptr (VaPtr w # as) = Inr (w, as)"
| "va_ptr (_ # as) = Inl Arg_type"

fun va_str :: "vaarg list \<Rightarrow> fmt_error + (string option \<times> vaarg list)" where
  "va_str [] = Inl Arg_missing"
| "va_str (VaStr p # as) = Inr (p, as)"
| "va_str (_ # as) = Inl Arg_type"

text \<open>
  \<^verbatim>\<open>value\<close>: a number, or a \<^verbatim>\<open>char*\<close> (\<^term>\<open>None\<close> the null pointer). \<^verbatim>\<open>long\<close>, \<^verbatim>\<open>long long\<close>,
  \<^verbatim>\<open>size_t\<close>, \<^verbatim>\<open>intmax_t\<close> and \<^verbatim>\<open>ptrdiff_t\<close> are all 64 bits wide on the target.
\<close>

datatype pvalue = VNum u64 | VStr "string option"

definition get_value ::
    "char \<Rightarrow> length_mod \<Rightarrow> vaarg list \<Rightarrow> fmt_error + (pvalue \<times> vaarg list)" where
  "get_value c len as =
     (if c \<in> set ''di'' then
        (if len = LENGTH_INT then bindE (va_int as) (\<lambda>(w, as). Inr (VNum (scast w), as))
         else if len \<in> {LENGTH_LONG, LENGTH_LONG_LONG, LENGTH_SIZE, LENGTH_INTMAX, LENGTH_PTRDIFF}
         then bindE (va_long as) (\<lambda>(w, as). Inr (VNum w, as))
         else Inr (VNum 0, as))
      else if c \<in> set ''uxXoc'' then
        (if len = LENGTH_INT then bindE (va_int as) (\<lambda>(w, as). Inr (VNum (ucast w), as))
         else if len \<in> {LENGTH_LONG, LENGTH_LONG_LONG, LENGTH_SIZE, LENGTH_INTMAX, LENGTH_PTRDIFF}
         then bindE (va_long as) (\<lambda>(w, as). Inr (VNum w, as))
         else Inr (VNum 0, as))
      else if c = CHR ''p'' then bindE (va_ptr as) (\<lambda>(w, as). Inr (VNum w, as))
      else if c = CHR ''s'' then bindE (va_str as) (\<lambda>(p, as). Inr (VStr p, as))
      else Inr (VNum 0, as))"

text \<open>\<^verbatim>\<open>debug_print\<close> of a C string: its characters, and their number as an \<^verbatim>\<open>int\<close>.\<close>

definition debug_print :: "string \<Rightarrow> string \<times> cint" where
  "debug_print str = (str, of_nat (length str))"

text \<open>\<^verbatim>\<open>debug_putchar\<close> returns the character it printed.\<close>

definition debug_putchar :: "char \<Rightarrow> string \<times> cint" where
  "debug_putchar chr = ([chr], scast (of_char chr :: u8))"

definition print_value :: "char \<Rightarrow> pvalue \<Rightarrow> cint \<Rightarrow> cint \<Rightarrow> fmt_error + (string \<times> cint)" where
  "print_value c value flags width =
     (case value of
        VStr p \<Rightarrow>
          if c = CHR ''s'' then
            Inr (case p of None \<Rightarrow> debug_print ''(null)'' | Some str \<Rightarrow> debug_print str)
          else Inr ([], 0)
      | VNum v \<Rightarrow>
          if c = CHR ''%'' then Inr (debug_putchar (CHR ''%''))
          else if c \<in> set ''di'' then debug_print_int v flags width 10 True False
          else if c = CHR ''u'' then debug_print_int v flags width 10 False False
          else if c = CHR ''x'' then debug_print_int v flags width 16 False False
          else if c = CHR ''X'' then debug_print_int v flags width 16 False True
          else if c = CHR ''p'' then debug_print_int v flags width 16 False True
          else if c = CHR ''o'' then debug_print_int v flags width 8 False False
          else if c = CHR ''c'' then Inr (fst (debug_putchar (char_of (unat (ucast v :: u8)))), 1)
          else Inr ([], 0))"

text \<open>One conversion: from the index of its \<^verbatim>\<open>%\<close> to the index of its last character.\<close>

definition vprintf_conv ::
    "string \<Rightarrow> nat \<Rightarrow> vaarg list \<Rightarrow> fmt_error + (nat \<times> vaarg list \<times> string \<times> cint)" where
  "vprintf_conv fmt i as =
     bindE (parse_flags fmt i 0) (\<lambda>(i, flags).
     bindE (parse_width fmt i 0) (\<lambda>(i, width).
     let width = (if sint width > sint MAX_WIDTH then MAX_WIDTH else width) in
     bindE (parse_length fmt i) (\<lambda>(i, len).
     bindE (fmt_at fmt i) (\<lambda>c.
     bindE (get_value c len as) (\<lambda>(value, as).
     bindE (print_value c value flags width) (\<lambda>(out, n).
     Inr (i, as, out, n)))))))"

lemma parse_flags_range: "parse_flags fmt i flags = Inr (j, f) \<Longrightarrow> i < j \<and> j \<le> length fmt"
proof (induction fmt i flags rule: parse_flags.induct)
  case (1 fmt i flags)
  then show ?case
    by (fastforce simp: parse_flags.simps [of fmt i flags] bindE_Inr_iff fmt_at_def Let_def
        split: if_splits)
qed

lemma parse_width_range: "parse_width fmt i w = Inr (j, w') \<Longrightarrow> i \<le> j \<and> j \<le> length fmt"
proof (induction fmt i w rule: parse_width.induct)
  case (1 fmt i w)
  then show ?case
    by (auto simp: parse_width.simps [of fmt i w] bindE_Inr_iff fmt_at_def split: if_splits)
qed

lemma parse_length_range:
  "parse_length fmt i = Inr (j, l) \<Longrightarrow> i \<le> j \<and> j \<le> length fmt"
  by (auto simp: parse_length_def bindE_Inr_iff fmt_at_def split: if_splits)

lemma vprintf_conv_progress: "vprintf_conv fmt i as = Inr (j, r) \<Longrightarrow> i < j \<and> j \<le> length fmt"
  by (auto simp: vprintf_conv_def bindE_Inr_iff Let_def
      dest!: parse_flags_range parse_width_range parse_length_range)

text \<open>
  \<^verbatim>\<open>for (size_t i = 0; i < strlen(fmt); i++)\<close>: one round prints a literal character or one
  conversion. \<open>out\<close> and \<open>chars\<close> are what has been printed and counted so far.
\<close>

function vprintf_loop ::
    "string \<Rightarrow> nat \<Rightarrow> vaarg list \<Rightarrow> string \<Rightarrow> cint \<Rightarrow> fmt_error + (string \<times> cint)" where
  "vprintf_loop fmt i as out chars =
     (if i < length fmt then
        (if fmt ! i \<noteq> CHR ''%'' then
           vprintf_loop fmt (i + 1) as (out @ [fmt ! i]) (chars + 1)
         else
           bindE (vprintf_conv fmt i as) (\<lambda>(i, as, o', n).
             vprintf_loop fmt (i + 1) as (out @ o') (chars + n)))
      else Inr (out, chars))"
  by pat_completeness auto
termination
  by (relation "measure (\<lambda>(fmt, i, _). length fmt - i)")
    (auto dest: vprintf_conv_progress)

declare vprintf_loop.simps [simp del]

definition debug_vprintf :: "string \<Rightarrow> vaarg list \<Rightarrow> fmt_error + (string \<times> cint)" where
  "debug_vprintf fmt as = vprintf_loop fmt 0 as [] 0"

definition debug_printf :: "string \<Rightarrow> vaarg list \<Rightarrow> fmt_error + (string \<times> cint)" where
  "debug_printf fmt as = debug_vprintf fmt as"

section \<open>Logs, assertions, panics\<close>

definition LOGLEVEL_TRACE :: cint where "LOGLEVEL_TRACE = 1"
definition LOGLEVEL_DEBUG :: cint where "LOGLEVEL_DEBUG = 2"
definition LOGLEVEL_INFO :: cint where "LOGLEVEL_INFO = 3"
definition LOGLEVEL_WARN :: cint where "LOGLEVEL_WARN = 4"
definition LOGLEVEL_ERROR :: cint where "LOGLEVEL_ERROR = 5"
definition LOGLEVEL_FATAL :: cint where "LOGLEVEL_FATAL = 6"

definition log_prefix :: "cint \<Rightarrow> string" where
  "log_prefix loglevel =
     (if loglevel = LOGLEVEL_TRACE then ''[ TRACE ] ''
      else if loglevel = LOGLEVEL_DEBUG then ''[ DEBUG ] ''
      else if loglevel = LOGLEVEL_INFO then ''[ INFO  ] ''
      else if loglevel = LOGLEVEL_WARN then ''[ WARN  ] ''
      else if loglevel = LOGLEVEL_ERROR then ''[ ERROR ] ''
      else if loglevel = LOGLEVEL_FATAL then ''[ FATAL ] ''
      else ''[ UNK ] '')"

text \<open>The level's prefix is printed but not counted: only \<^verbatim>\<open>debug_vprintf\<close>'s result is returned.\<close>

definition debug_log :: "cint \<Rightarrow> string \<Rightarrow> vaarg list \<Rightarrow> fmt_error + (string \<times> cint)" where
  "debug_log loglevel fmt as =
     bindE (debug_vprintf fmt as) (\<lambda>(out, chars). Inr (log_prefix loglevel @ out, chars))"

text \<open>What \<^verbatim>\<open>debug_panic\<close> prints before it halts the processor.\<close>

definition panic_message :: "string \<Rightarrow> vaarg list \<Rightarrow> fmt_error + string" where
  "panic_message fmt as =
     bindE (debug_log LOGLEVEL_FATAL ''Kernel Panic! '' []) (\<lambda>(out1, _).
     bindE (debug_vprintf fmt as) (\<lambda>(out2, _). Inr (out1 @ out2)))"

text \<open>What \<^verbatim>\<open>__debug_assert\<close> (and, at its level, \<^verbatim>\<open>__debug_assert_warn\<close>) prints on a failure.\<close>

definition assert_message ::
    "cint \<Rightarrow> string \<Rightarrow> string \<Rightarrow> string \<Rightarrow> nat \<Rightarrow> fmt_error + string" where
  "assert_message loglevel message func file line =
     bindE (debug_log loglevel ''Assertion failed in %s (%s:%d): %s''
              [VaStr (Some func), VaStr (Some file), VaInt (of_nat line), VaStr (Some message)])
       (\<lambda>(out, _). Inr out)"

section \<open>Digits: the reversal loop against positional notation\<close>

text \<open>
  The digits of a number, least significant first, and the number a digit list (most
  significant first) stands for.
\<close>

function lsd :: "nat \<Rightarrow> nat \<Rightarrow> nat list" where
  "lsd b n = n mod b # (if n div b = 0 \<or> b < 2 then [] else lsd b (n div b))"
  by pat_completeness auto
termination
  by (relation "measure snd") (auto intro!: div_less_dividend intro: gr0I)

declare lsd.simps [simp del]

definition hval :: "nat \<Rightarrow> nat list \<Rightarrow> nat" where
  "hval b ds = foldl (\<lambda>a d. a * b + d) 0 ds"

definition num_string :: "bool \<Rightarrow> nat \<Rightarrow> nat \<Rightarrow> string" where
  "num_string upper b n =
     map (\<lambda>d. (if upper then digitsUpper else digitsLower) ! d) (rev (lsd b n))"

lemma lsd_lt: "2 \<le> b \<Longrightarrow> d \<in> set (lsd b n) \<Longrightarrow> d < b"
proof (induction b n rule: lsd.induct)
  case (1 b n)
  then show ?case by (subst (asm) (2) lsd.simps) (auto split: if_splits)
qed

lemma hval_Nil [simp]: "hval b [] = 0"
  by (simp add: hval_def)

lemma hval_snoc [simp]: "hval b (ds @ [d]) = hval b ds * b + d"
  by (simp add: hval_def)

lemma hval_rev_lsd: "2 \<le> b \<Longrightarrow> hval b (rev (lsd b n)) = n"
proof (induction b n rule: lsd.induct)
  case (1 b n)
  then show ?case
    by (subst lsd.simps) (auto simp: not_less div_eq_0_iff)
qed

lemma hval_bound: "\<forall>d \<in> set ds. d < b \<Longrightarrow> hval b ds < b ^ length ds"
proof (induction ds rule: rev_induct)
  case Nil
  then show ?case by simp
next
  case (snoc d ds)
  then have "Suc (hval b ds) \<le> b ^ length ds" and "d < b" by auto
  then have "Suc (hval b ds) * b \<le> b ^ length ds * b" by (intro mult_right_mono) auto
  with \<open>d < b\<close> show ?case by (simp add: mult.commute)
qed

lemma length_lsd_le: "2 \<le> b \<Longrightarrow> n < b ^ k \<Longrightarrow> 0 < k \<Longrightarrow> length (lsd b n) \<le> k"
proof (induction k arbitrary: n)
  case 0
  then show ?case by simp
next
  case (Suc k)
  show ?case
  proof (cases "n div b = 0")
    case True
    then show ?thesis by (subst lsd.simps) simp
  next
    case False
    then have "b \<le> n" by (simp add: div_eq_0_iff not_less)
    then have "0 < k" using Suc.prems by (cases k) auto
    moreover have "n div b < b ^ k" using Suc.prems by (simp add: div_less_iff_less_mult mult.commute)
    ultimately have "length (lsd b (n div b)) \<le> k" using Suc.IH Suc.prems(1) by blast
    then show ?thesis using False by (subst lsd.simps) simp
  qed
qed

lemma length_lsd_pos: "0 < length (lsd b n)"
  by (subst lsd.simps) simp

lemma reverse_digits_eq:
  assumes "2 \<le> unat base"
  shows "reverse_digits base n r c =
    Some (foldl (\<lambda>a d. a * base + of_nat d) r (lsd (unat base) (unat n)),
          c + of_nat (length (lsd (unat base) (unat n))))"
proof (induction "unat n" arbitrary: n r c rule: less_induct)
  case less
  have u: "unat (n div base) = unat n div unat base" "unat (n mod base) = unat n mod unat base"
    by (simp_all add: unat_div unat_mod)
  have z: "n div base = 0 \<longleftrightarrow> unat n div unat base = 0"
    by (simp add: word_unat_eq_iff u(1))
  have m: "n mod base = of_nat (unat n mod unat base)"
    by (simp add: u(2) [symmetric])
  show ?case
  proof (cases "n div base = 0")
    case True
    then show ?thesis
      using z m by (subst reverse_digits.simps, subst (1 2) lsd.simps) (simp add: Let_def)
  next
    case False
    then have nz: "unat n div unat base \<noteq> 0" using z by simp
    then have "unat (n div base) < unat n"
      using assms unfolding u(1) by (intro div_less_dividend) (auto intro: gr0I)
    from less [OF this, of "r * base + n mod base" "c + 1"] False assms nz m show ?thesis
      by (subst reverse_digits.simps, subst (1 2) lsd.simps) (simp add: Let_def u(1) algebra_simps)
  qed
qed

lemma foldl_of_nat:
  "foldl (\<lambda>a d. a * of_nat b + of_nat d) (of_nat r :: u64) ds
     = of_nat (foldl (\<lambda>a d. a * b + d) r ds)"
  by (induction ds arbitrary: r) (simp_all flip: of_nat_mult of_nat_add)

lemma emit_digits_hval:
  assumes "0 < b" and "b < 2 ^ 64" and "\<forall>d \<in> set ds. d < b" and "hval b ds < 2 ^ 64"
  shows "emit_digits (length ds) tbl (of_nat b) (of_nat (hval b ds)) = map (\<lambda>d. tbl ! d) (rev ds)"
  using assms(3,4)
proof (induction ds rule: rev_induct)
  case Nil
  then show ?case by simp
next
  case (snoc d ds)
  let ?w = "of_nat (hval b ds * b + d) :: u64"
  have lt: "hval b ds * b + d < 2 ^ 64" using snoc.prems by simp
  have h: "hval b ds < 2 ^ 64" using lt assms(1) by (cases b) auto
  have b: "unat (of_nat b :: u64) = b" using assms(2) by (rule unat_of_nat_64)
  have w: "unat ?w = hval b ds * b + d" using lt by (rule unat_of_nat_64)
  have "unat (?w mod of_nat b) = d"
    using snoc.prems unfolding unat_mod w b by simp
  moreover have "?w div of_nat b = of_nat (hval b ds)"
  proof -
    have "unat (?w div of_nat b) = hval b ds"
      using snoc.prems assms(1) unfolding unat_div w b by simp
    then show ?thesis
      using h unfolding word_unat_eq_iff by (simp only: unat_of_nat_64)
  qed
  ultimately show ?case
    using snoc.IH snoc.prems(1) h by simp
qed

section \<open>What debug\_print\_int prints\<close>

text \<open>
  The magnitude that is printed, and the largest number of digits whose reversal is sure to
  fit in \<^verbatim>\<open>uintmax_t\<close>: 21 octal, 19 decimal, 16 hexadecimal digits.
\<close>

definition magnitude :: "bool \<Rightarrow> u64 \<Rightarrow> nat" where
  "magnitude sign n = (if sint n < 0 \<and> sign then nat (- sint n) else unat n)"

definition safe_digits :: "nat \<Rightarrow> nat" where
  "safe_digits b = (if b = 8 then 21 else if b = 10 then 19 else 16)"

lemma unat_magnitude: "unat (if sint n < 0 \<and> sign then - n else n) = magnitude sign n"
proof (cases "sint n < 0 \<and> sign")
  case True
  have "- n = word_of_int (- sint n)" by simp
  then have "uint (- n) = - sint n mod 2 ^ 64" by (simp only: uint_word_of_int) simp
  also have "\<dots> = - sint n"
    using True sint_ge [of n] by (intro mod_pos_pos_trivial) auto
  finally show ?thesis using True by (simp add: magnitude_def unat_eq_nat_uint)
qed (auto simp: magnitude_def)

lemma cint_base:
  assumes "base \<in> {8, 10, 16 :: cint}"
  shows "(scast base :: u64) = of_nat (unat base)" and "2 \<le> unat base" and "unat base < 2 ^ 64"
    and "0 < sint base" and "sint base \<le> 16" and "unat base ^ safe_digits (unat base) \<le> 2 ^ 64"
  using assms by (auto simp: safe_digits_def)

lemma reverse_digits_0:
  assumes "2 \<le> b" and "b < 2 ^ 64" and "n = of_nat k" and "k < 2 ^ 64"
  shows "reverse_digits (of_nat b) n 0 0 =
     Some (of_nat (hval b (lsd b k)), of_nat (length (lsd b k)))"
proof -
  have "unat (of_nat b :: u64) = b" "unat (of_nat k :: u64) = k"
    using assms by (simp_all only: unat_of_nat_64)
  then show ?thesis
    using reverse_digits_eq [of "of_nat b" n 0 0] foldl_of_nat [of b 0 "lsd b k"] assms(1,3)
    by (simp add: hval_def)
qed

lemma emit_digits_num_string:
  assumes "2 \<le> b" and "b < 2 ^ 64" and "hval b (lsd b k) < 2 ^ 64"
  shows "emit_digits (length (lsd b k)) (if upper then digitsUpper else digitsLower)
     (of_nat b) (of_nat (hval b (lsd b k))) = num_string upper b k"
  unfolding num_string_def using assms lsd_lt [OF assms(1)] by (intro emit_digits_hval) auto

text \<open>The reversal of few digits fits.\<close>

lemma safe_digits_fit:
  assumes "2 \<le> b" and "b ^ safe_digits b \<le> 2 ^ 64" and "k < b ^ safe_digits b"
  shows "hval b (lsd b k) < 2 ^ 64"
proof -
  have pos: "0 < safe_digits b" by (simp add: safe_digits_def)
  have lt: "\<forall>d \<in> set (lsd b k). d < b" using lsd_lt [OF assms(1)] by blast
  have "b ^ length (lsd b k) \<le> b ^ safe_digits b"
    using length_lsd_le [OF assms(1,3) pos] assms(1) by (intro power_increasing) auto
  then show ?thesis using hval_bound [OF lt] assms(2) by linarith
qed

lemma length_lsd_64:
  assumes "2 \<le> b" and "k < 2 ^ 64"
  shows "length (lsd b k) < 2 ^ 31"
proof -
  have "(2 :: nat) ^ 64 \<le> b ^ 64" using assms(1) by (intro power_mono) simp_all
  then have "length (lsd b k) \<le> 64" using assms by (intro length_lsd_le) simp_all
  then show ?thesis by simp
qed

lemma magnitude_64: "magnitude sign n < 2 ^ 64"
  unfolding unat_magnitude [symmetric] using unsigned_less [of "if sint n < 0 \<and> sign then - n else n", where ?'a = nat]
  by simp

lemma sint_of_nat_cint: "k < 2 ^ 31 \<Longrightarrow> sint (of_nat k :: cint) = int k"
  by (simp add: signed_of_nat signed_take_bit_int_eq_self)

lemma emit_padding_eq:
  assumes "0 \<le> sint width" and "k < 2 ^ 31"
  shows "emit_padding flags width (of_nat k) =
    replicate (nat (sint width) - k) (if has_flag flags PREPEND_ZEROES then CHR ''0'' else CHR '' '')"
proof -
  have "sint width < 2 ^ 31" using sint_lt [of width] by simp
  then have "sint (width - of_nat k) = sint width - int k"
    using assms sint_of_nat_cint [of k]
    by (simp add: sint_word_ariths signed_take_bit_int_eq_self)
  then show ?thesis by (auto simp: emit_padding_def nat_diff_distrib' nat_int)
qed

text \<open>
  The reference layout: sign, \<^verbatim>\<open>#\<close> prefix, and the digits of the magnitude padded on one side
  to the width (which counts the digits only). The count leaves the prefix out.
\<close>

definition int_layout ::
    "bool \<Rightarrow> nat \<Rightarrow> cint \<Rightarrow> nat \<Rightarrow> nat \<Rightarrow> bool \<Rightarrow> string \<times> nat" where
  "int_layout negative k flags width b upper =
     (let sg = int_sign negative flags;
          digits = num_string upper b k;
          pad = replicate (width - length digits)
                  (if has_flag flags PREPEND_ZEROES then CHR ''0'' else CHR '' '')
      in (sg @ int_prefix (of_nat b) flags upper @
            (if has_flag flags LEFT_ALIGN then digits @ pad else pad @ digits),
          length sg + length pad + length digits))"

lemma debug_print_int_fit:
  assumes base: "base \<in> {8, 10, 16}" and w: "0 \<le> sint width"
    and fit: "hval (unat base) (lsd (unat base) (magnitude sign n)) < 2 ^ 64"
    and min: "\<not> (sign \<and> n = INTMAX_MIN)"
  shows "debug_print_int n flags width base sign upper =
    Inr (map_prod id of_nat (int_layout (sint n < 0 \<and> sign) (magnitude sign n) flags
           (nat (sint width)) (unat base) upper))"
proof -
  define digits where "digits = num_string upper (unat base) (magnitude sign n)"
  define sg where "sg = int_sign (sint n < 0 \<and> sign) flags"
  define pad where "pad = replicate (nat (sint width) - length digits)
      (if has_flag flags PREPEND_ZEROES then CHR ''0'' else CHR '' '')"
  note b = cint_base [OF base]
  let ?k = "magnitude sign n" and ?b = "unat base"
  let ?n = "if sint n < 0 \<and> sign then - n else n"
  have "?n = of_nat (unat ?n)" by (simp only: of_nat_unat ucast_id)
  then have "?n = of_nat ?k" by (simp only: unat_magnitude)
  then have rev: "reverse_digits (scast base) ?n 0 0 =
      Some (of_nat (hval ?b (lsd ?b ?k)), of_nat (length (lsd ?b ?k)))"
    unfolding b(1) using b magnitude_64 by (intro reverse_digits_0) auto
  have len: "length (lsd ?b ?k) < 2 ^ 31" by (rule length_lsd_64 [OF b(2) magnitude_64])
  have ds: "emit_digits (length (lsd ?b ?k)) (if upper then digitsUpper else digitsLower)
     (scast base) (of_nat (hval ?b (lsd ?b ?k))) = digits"
    unfolding digits_def b(1) by (rule emit_digits_num_string [OF b(2,3) fit])
  have ld: "length digits = length (lsd ?b ?k)" by (simp add: digits_def num_string_def)
  have pad: "emit_padding flags width (of_nat (length (lsd ?b ?k))) = pad"
    unfolding pad_def ld using w len by (rule emit_padding_eq)
  have lay: "int_layout (sint n < 0 \<and> sign) ?k flags (nat (sint width)) ?b upper =
    (sg @ int_prefix base flags upper @
       (if has_flag flags LEFT_ALIGN then digits @ pad else pad @ digits),
     length sg + length pad + length digits)"
    by (simp add: int_layout_def Let_def digits_def sg_def pad_def)
  have nb: "\<not> sint base > 16" "\<not> sint base \<le> 0" using b(4,5) by auto
  have nm: "\<not> ((sint n < 0 \<and> sign) \<and> n = INTMAX_MIN)" using min by blast
  show ?thesis
    unfolding debug_print_int_def Let_def if_not_P [OF nm] rev option.case prod.case sint_of_nat_cint [OF len]
      nat_int ds pad lay sg_def [symmetric] if_not_P [OF nb(1)] if_not_P [OF nb(2)]
    by (cases "has_flag flags LEFT_ALIGN") (simp_all add: ac_simps)
qed

lemma debug_print_int_layout:
  assumes base: "base \<in> {8, 10, 16}" and w: "0 \<le> sint width"
    and mag: "magnitude sign n < unat base ^ safe_digits (unat base)"
    and min: "\<not> (sign \<and> n = INTMAX_MIN)"
  shows "debug_print_int n flags width base sign upper =
    Inr (map_prod id of_nat (int_layout (sint n < 0 \<and> sign) (magnitude sign n) flags
           (nat (sint width)) (unat base) upper))"
  using cint_base(2,6) [OF base] mag by (intro debug_print_int_fit [OF base w _ min] safe_digits_fit)

section \<open>The only undefined behaviour of debug\_vprintf\<close>

lemma fmt_at_Inr: "i \<le> length fmt \<Longrightarrow> \<exists>c. fmt_at fmt i = Inr c"
  by (simp add: fmt_at_def)

lemma parse_flags_total: "i < length fmt \<Longrightarrow> \<exists>r. parse_flags fmt i flags = Inr r"
proof (induction fmt i flags rule: parse_flags.induct)
  case (1 fmt i flags)
  then obtain c where c: "fmt_at fmt (Suc i) = Inr c" using fmt_at_Inr [of "Suc i" fmt] by auto
  show ?case
  proof (cases "flag_switch c flags = flags")
    case True
    then show ?thesis using c by (simp add: parse_flags.simps [of fmt i] Let_def)
  next
    case False
    then have "Suc i < length fmt"
      using c "1.prems" by (auto simp: fmt_at_def flag_switch_NUL split: if_splits)
    then show ?thesis
      using "1.IH" c False by (simp add: parse_flags.simps [of fmt i flags] Let_def)
  qed
qed

text \<open>The width overflows only over ten digits in a row.\<close>

definition digit_run :: "string \<Rightarrow> bool" where
  "digit_run fmt \<longleftrightarrow> (\<exists>k. k + 10 \<le> length fmt \<and> (\<forall>j < 10. IS_DIGIT (fmt ! (k + j))))"

lemma digit_value_bound: "IS_DIGIT c \<Longrightarrow> of_char c - 48 \<le> (9 :: int) \<and> 0 \<le> of_char c - (48 :: int)
    \<and> sint (of_char c - 48 :: cint) = of_char c - 48"
proof -
  assume "IS_DIGIT c"
  then have k: "(48 :: nat) \<le> of_char c" "(of_char c :: nat) \<le> 57" by (simp_all add: IS_DIGIT_def)
  have i: "(of_char c :: int) = int (of_char c)" by (rule of_nat_of_char [symmetric])
  have w: "(of_char c :: cint) = of_nat (of_char c)" by (rule of_nat_of_char [symmetric])
  have "(of_char c - 48 :: cint) = of_nat (of_char c - 48)" unfolding w using k(1) by (simp add: of_nat_diff)
  moreover have "sint (of_nat (of_char c - 48) :: cint) = int (of_char c - 48)"
    using k by (intro sint_of_nat_cint) simp
  ultimately show ?thesis using k unfolding i by simp
qed

lemma parse_width_spec:
  "i \<le> length fmt \<Longrightarrow> k \<le> i \<Longrightarrow> 0 \<le> sint w \<Longrightarrow> sint w < 10 ^ (i - k) \<Longrightarrow> (\<forall>j. k \<le> j \<longrightarrow> j < i \<longrightarrow> IS_DIGIT (fmt ! j))
    \<Longrightarrow> (\<exists>r. parse_width fmt i w = Inr r) \<or> (parse_width fmt i w = Inl Int_overflow \<and> digit_run fmt)"
proof (induction fmt i w rule: parse_width.induct)
  case (1 fmt i w)
  then obtain c where c: "fmt_at fmt i = Inr c" using fmt_at_Inr by blast
  show ?case
  proof (cases "IS_DIGIT c")
    case dig: True
    note d = digit_value_bound [OF dig]
    have i: "i < length fmt" "fmt ! i = c"
      using c dig by (auto simp: fmt_at_def IS_DIGIT_def split: if_splits)
    let ?v = "sint w * 10 + (of_char c - 48)" and ?w = "w * 10 + (of_char c - 48)"
    have digs: "\<forall>j. k \<le> j \<longrightarrow> j < Suc i \<longrightarrow> IS_DIGIT (fmt ! j)"
      using 1(6) i(2) dig by (auto simp: less_Suc_eq)
    have lt: "?v < 10 ^ (Suc i - k)" using 1(3,5) d by (simp add: Suc_diff_le)
    show ?thesis
    proof (cases "?v < 2 ^ 31")
      case True
      have "sint ?w = ?v"
        using True d 1(4) by (simp add: sint_word_ariths signed_take_bit_int_eq_self)
      then have "(\<exists>r. parse_width fmt (Suc i) ?w = Inr r) \<or> (parse_width fmt (Suc i) ?w = Inl Int_overflow \<and> digit_run fmt)"
        using 1(3,4) i(1) True lt digs d c dig by (intro 1(1)) auto
      then show ?thesis using c dig True by (simp add: parse_width.simps [of fmt i])
    next
      case False
      have "\<not> Suc i - k \<le> 9"
      proof
        assume "Suc i - k \<le> 9"
        then have "(10 :: int) ^ (Suc i - k) \<le> 10 ^ 9" by (intro power_increasing) simp_all
        then show False using lt False by simp
      qed
      then have "10 \<le> Suc i - k" by simp
      then have "digit_run fmt"
        unfolding digit_run_def using digs i(1) 1(3) by (intro exI [of _ k]) auto
      then show ?thesis using c dig False by (simp add: parse_width.simps [of fmt i])
    qed
  qed (use c in \<open>simp add: parse_width.simps [of fmt i]\<close>)
qed

lemma parse_width_cases:
  "i \<le> length fmt \<Longrightarrow> (\<exists>r. parse_width fmt i 0 = Inr r) \<or> (parse_width fmt i 0 = Inl Int_overflow \<and> digit_run fmt)"
  by (rule parse_width_spec [where k = i]) simp_all

lemma parse_length_total:
  assumes "i \<le> length fmt"
  shows "\<exists>r. parse_length fmt i = Inr r"
  using assms by (cases "i < length fmt") (auto simp: parse_length_def fmt_at_def)

lemma reverse_digits_total: "base \<in> {8, 10, 16} \<Longrightarrow> \<exists>r. reverse_digits base n rv d = Some r"
  by (subst reverse_digits_eq) auto

lemma debug_print_int_total:
  assumes "base \<in> {8, 10, 16}"
  shows "(\<exists>r. debug_print_int n flags width base sign upper = Inr r)
    \<or> (debug_print_int n flags width base sign upper = Inl Int_overflow \<and> sign \<and> n = INTMAX_MIN)"
proof -
  have "(scast base :: u64) \<in> {8, 10, 16}" "\<not> sint base > 16" "\<not> sint base \<le> 0"
    using assms by auto
  then show ?thesis
    using reverse_digits_total [of "scast base" "if sint n < 0 \<and> sign then - n else n" 0 0]
    by (auto simp: debug_print_int_def Let_def)
qed

lemma print_value_total:
  "(\<exists>r. print_value c v flags width = Inr r)
    \<or> (print_value c v flags width = Inl Int_overflow \<and> c \<in> set ''di'' \<and> v = VNum INTMAX_MIN)"
proof (cases v)
  case (VNum w)
  show ?thesis
  proof (cases "c \<in> set ''di''")
    case True
    then have "print_value c v flags width = debug_print_int w flags width 10 True False"
      using VNum by (auto simp: print_value_def)
    then show ?thesis using debug_print_int_total [of 10 w flags width True False] True VNum by auto
  next
    case False
    have "\<exists>r. debug_print_int w flags width b False u = Inr r" if "b \<in> {8, 10, 16}" for b u
      using debug_print_int_total [OF that, of w flags width False u] by blast
    from this [of 8] this [of 10] this [of 16] show ?thesis
      using VNum False by (simp add: print_value_def)
  qed
qed (simp add: print_value_def split: option.splits)

fun_cases va_int_InlE: "va_int as = Inl e"
fun_cases va_long_InlE: "va_long as = Inl e"
fun_cases va_ptr_InlE: "va_ptr as = Inl e"
fun_cases va_str_InlE: "va_str as = Inl e"

lemma bindE_Inl_iff: "bindE m f = Inl e \<longleftrightarrow> m = Inl e \<or> (\<exists>a. m = Inr a \<and> f a = Inl e)"
  by (cases m) auto

lemma get_value_errors: "get_value c len as = Inl e \<Longrightarrow> e = Arg_missing \<or> e = Arg_type"
  by (auto simp: get_value_def bindE_Inl_iff split: if_splits
      elim!: va_int_InlE va_long_InlE va_ptr_InlE va_str_InlE)

fun_cases va_int_InrE: "va_int as = Inr r"
fun_cases va_long_InrE: "va_long as = Inr r"
fun_cases va_ptr_InrE: "va_ptr as = Inr r"
fun_cases va_str_InrE: "va_str as = Inr r"

lemma get_value_args: "get_value c len as = Inr (v, as') \<Longrightarrow> set as' \<subseteq> set as"
  by (auto simp: get_value_def bindE_Inr_iff split: if_splits
      elim!: va_int_InrE va_long_InrE va_ptr_InrE va_str_InrE)

lemma scast_not_min: "(scast (w :: cint) :: u64) \<noteq> INTMAX_MIN"
proof
  assume eq: "(scast w :: u64) = INTMAX_MIN"
  have "sint (scast w :: u64) = sint w" by (simp add: sint_up_scast is_up)
  moreover have "sint INTMAX_MIN = - (2 ^ 63)" by (simp add: INTMAX_MIN_def)
  moreover have "- (2 ^ 31) \<le> sint w" using sint_ge [of w] by simp
  ultimately show False using eq by simp
qed

lemma get_value_min:
  "get_value c len as = Inr (VNum INTMAX_MIN, as') \<Longrightarrow> c \<in> set ''di'' \<Longrightarrow> VaLong INTMAX_MIN \<in> set as"
  using scast_not_min
  by (auto simp: get_value_def bindE_Inr_iff split: if_splits elim!: va_int_InrE va_long_InrE)
    (auto simp: INTMAX_MIN_def)

lemma vprintf_conv_errors:
  assumes "i < length fmt" and e: "vprintf_conv fmt i as = Inl e"
  shows "e = Arg_missing \<or> e = Arg_type \<or> (e = Int_overflow \<and> (digit_run fmt \<or> VaLong INTMAX_MIN \<in> set as))"
proof -
  obtain i1 f where f: "parse_flags fmt i 0 = Inr (i1, f)" "i1 \<le> length fmt"
    using parse_flags_total [OF assms(1)] parse_flags_range by (metis surj_pair)
  show ?thesis
  proof (cases "parse_width fmt i1 0")
    case (Inl e')
    then show ?thesis using parse_width_cases [OF f(2)] e by (auto simp: vprintf_conv_def f)
  next
    case (Inr r)
    then obtain i2 w where w: "parse_width fmt i1 0 = Inr (i2, w)" "i2 \<le> length fmt"
      using parse_width_range by (metis surj_pair)
    obtain i3 l where l: "parse_length fmt i2 = Inr (i3, l)" "i3 \<le> length fmt"
      using parse_length_total [OF w(2)] parse_length_range by (metis surj_pair)
    obtain c where c: "fmt_at fmt i3 = Inr c" using fmt_at_Inr [OF l(2)] by blast
    let ?w = "if sint w > sint MAX_WIDTH then MAX_WIDTH else w"
    have "get_value c l as = Inl e \<or>
        (\<exists>v as'. get_value c l as = Inr (v, as') \<and> print_value c v f ?w = Inl e)"
      using e by (auto simp: vprintf_conv_def f w l c bindE_Inl_iff Let_def split_beta)
    then consider "get_value c l as = Inl e"
      | v as' where "get_value c l as = Inr (v, as')" "print_value c v f ?w = Inl e" by blast
    then show ?thesis
    proof cases
      case 1
      then show ?thesis using get_value_errors by blast
    next
      case 2
      then have "e = Int_overflow" "c \<in> set ''di''" "v = VNum INTMAX_MIN"
        using print_value_total [of c v f ?w] by auto
      then show ?thesis using get_value_min 2(1) by blast
    qed
  qed
qed

lemma vprintf_conv_args: "vprintf_conv fmt i as = Inr (j, as', out, n) \<Longrightarrow> set as' \<subseteq> set as"
  by (auto simp: vprintf_conv_def bindE_Inr_iff Let_def dest!: get_value_args)

lemma vprintf_loop_errors:
  "vprintf_loop fmt i as out n = Inl e \<Longrightarrow>
    e = Arg_missing \<or> e = Arg_type \<or> (e = Int_overflow \<and> (digit_run fmt \<or> VaLong INTMAX_MIN \<in> set as))"
proof (induction fmt i as out n rule: vprintf_loop.induct)
  case (1 fmt i as out n)
  show ?case
  proof (cases "i < length fmt \<and> fmt ! i = CHR ''%''")
    case True
    then have "bindE (vprintf_conv fmt i as) (\<lambda>(i, as, o', k).
        vprintf_loop fmt (i + 1) as (out @ o') (n + k)) = Inl e"
      using "1.prems" by (simp add: vprintf_loop.simps [of fmt i])
    then consider "vprintf_conv fmt i as = Inl e"
      | j as' o' k where "vprintf_conv fmt i as = Inr (j, as', o', k)"
          "vprintf_loop fmt (j + 1) as' (out @ o') (n + k) = Inl e"
      by (auto simp: bindE_Inl_iff)
    then show ?thesis
    proof cases
      case 1
      then show ?thesis using True vprintf_conv_errors by blast
    next
      case 2
      then have "e = Arg_missing \<or> e = Arg_type
          \<or> (e = Int_overflow \<and> (digit_run fmt \<or> VaLong INTMAX_MIN \<in> set as'))"
        using True by (intro "1.IH"(2)) simp_all
      then show ?thesis using vprintf_conv_args [OF 2(1)] by blast
    qed
  next
    case False
    then show ?thesis
      using "1.prems" "1.IH"(1) by (auto simp: vprintf_loop.simps [of fmt i] split: if_splits)
  qed
qed

section \<open>Reading the printed digits back\<close>

definition digit_value :: "char \<Rightarrow> nat" where
  "digit_value c = (let k = of_char c in if k < 58 then k - 48 else if k < 91 then k - 55 else k - 87)"

definition read_number :: "nat \<Rightarrow> string \<Rightarrow> nat" where
  "read_number b s = hval b (map digit_value s)"

lemma digit_value_digits:
  assumes "d < 16"
  shows "digit_value ((if upper then digitsUpper else digitsLower) ! d) = d"
proof -
  have "map digit_value digitsUpper = [0..<16]" "map digit_value digitsLower = [0..<16]"
    by (simp_all add: digit_value_def digitsUpper_def digitsLower_def upt_rec)
  then have "map digit_value (if upper then digitsUpper else digitsLower) ! d = [0..<16] ! d"
    by (cases upper) simp_all
  then show ?thesis using assms by (simp add: digitsUpper_def digitsLower_def)
qed

lemma read_num_string:
  assumes "2 \<le> b" and "b \<le> 16"
  shows "read_number b (num_string upper b n) = n"
proof -
  have "d < 16" if "d \<in> set (rev (lsd b n))" for d
    using lsd_lt [OF assms(1), of d n] that assms(2) by simp
  then have "map (\<lambda>d. digit_value ((if upper then digitsUpper else digitsLower) ! d)) (rev (lsd b n))
      = map id (rev (lsd b n))"
    unfolding map_eq_conv using digit_value_digits [where upper = upper] by simp
  then show ?thesis
    using hval_rev_lsd [OF assms(1)] by (simp add: read_number_def num_string_def comp_def)
qed

section \<open>Properties\<close>



text \<open>Round trip. With no flags and no width, the characters \<^verbatim>\<open>debug_print_int\<close> prints for an
  unsigned value in the exact range read back, digit by digit in the same base, as the value;
  the count is their number.\<close>

theorem debug_print_int_reads_back:
  assumes "base \<in> {8, 10, 16}" and "unat n < unat base ^ safe_digits (unat base)"
  shows "\<exists>s. debug_print_int n 0 0 base False upper = Inr (s, of_nat (length s))
    \<and> read_number (unat base) s = unat n"
proof -
  have b: "2 \<le> unat base" "unat base \<le> 16" using assms(1) by auto
  let ?s = "num_string upper (unat base) (unat n)"
  have "int_layout False (unat n) 0 0 (unat base) upper = (?s, length ?s)"
    by (simp add: int_layout_def int_sign_def int_prefix_def has_flag_def Let_def)
  then have "debug_print_int n 0 0 base False upper = Inr (?s, of_nat (length ?s))"
    using debug_print_int_layout [of base 0 False n 0 upper] assms by (simp add: magnitude_def)
  then show ?thesis using read_num_string [OF b] by blast
qed

theorem debug_print_int_reads_back_witness:
  "\<exists>s. debug_print_int 0xffffffffffffffff 0 0 16 False True = Inr (s, of_nat (length s))
    \<and> read_number 16 s = 2 ^ 64 - 1"
  using debug_print_int_reads_back [of 16 "0xffffffffffffffff" True] by (simp add: safe_digits_def)


end
