(* ===== verification/Format_Spec.thy ===== *)
theory Format_Spec
  imports Debug
begin

text \<open>
  A specification of the format language of \<^verbatim>\<open>debug_vprintf\<close>: a list of directives, how a
  directive is written in a format string, and what it means. The scanner of \<open>Debug\<close> reads back
  exactly the directives that were written, and prints their meaning: a text that is defined
  here, on sets of flag characters and on integers, without the functions of the code.
\<close>

datatype directive =
  Lit char
| Conv (conv_flags: string) (conv_width: nat) (conv_mod: string) (conv_char: char)

fun length_of :: "string \<Rightarrow> char \<Rightarrow> length_mod" where
  "length_of ml c =
     (if ml = ''h'' \<or> ml = ''hh'' then LENGTH_INT
      else if ml = ''l'' then LENGTH_LONG
      else if ml = ''ll'' then LENGTH_LONG_LONG
      else if ml = ''z'' then LENGTH_SIZE
      else if ml = ''j'' then LENGTH_INTMAX
      else if ml = ''t'' then LENGTH_PTRDIFF
      else if c = CHR ''p'' \<or> c = CHR ''s'' then LENGTH_PTR
      else LENGTH_INT)"

fun directive_ok :: "directive \<Rightarrow> bool" where
  "directive_ok (Lit c) \<longleftrightarrow> c \<noteq> CHR ''%''"
| "directive_ok (Conv fl w ml c) \<longleftrightarrow>
     distinct fl \<and> set fl \<subseteq> set ''-+ 0#'' \<union> {CHR 0x27} \<and> w \<le> 256
     \<and> ml \<in> {'''', ''h'', ''hh'', ''l'', ''ll'', ''z'', ''j'', ''t''}
     \<and> c \<in> set ''diuxXocps%''"

fun show_directive :: "directive \<Rightarrow> string" where
  "show_directive (Lit c) = [c]"
| "show_directive (Conv fl w ml c) =
     CHR ''%'' # fl @ (if w = 0 then [] else num_string False 10 w) @ ml @ [c]"

fun flag_bits :: "string \<Rightarrow> cint" where
  "flag_bits [] = 0"
| "flag_bits (c # cs) = flag_switch c 0 OR flag_bits cs"

fun render_directive ::
    "directive \<Rightarrow> vaarg list \<Rightarrow> fmt_error + (vaarg list \<times> string \<times> cint)" where
  "render_directive (Lit c) as = Inr (as, [c], 1)"
| "render_directive (Conv fl w ml c) as =
     bindE (get_value c (length_of ml c) as) (\<lambda>(v, as).
     bindE (print_value c v (flag_bits fl) (of_nat w)) (\<lambda>(out, n). Inr (as, out, n)))"

fun render :: "directive list \<Rightarrow> vaarg list \<Rightarrow> fmt_error + (string \<times> cint)" where
  "render [] as = Inr ([], 0)"
| "render (d # ds) as =
     bindE (render_directive d as) (\<lambda>(as, out, n).
     bindE (render ds as) (\<lambda>(out', n'). Inr (out @ out', n + n')))"

section \<open>The scanner reads what was written\<close>

definition flag_chars :: "char set" where
  "flag_chars = set ''-+ 0#'' \<union> {CHR 0x27}"

lemma flag_chars_cases:
  assumes "c \<in> flag_chars"
  obtains "c = CHR ''-''" | "c = CHR ''+''" | "c = CHR '' ''" | "c = CHR ''0''" | "c = CHR ''#''"
    | "c = CHR 0x27"
  using assms by (auto simp: flag_chars_def)

lemmas flag_defs = LEFT_ALIGN_def PLUS_FOR_POSITIVE_def SPACE_FOR_POSITIVE_def
  PREPEND_ZEROES_def THOUSANDS_GROUPING_def SPECIAL_HASH_def

lemma flag_switch_or: "flag_switch c f = f OR flag_switch c 0"
  by (simp add: flag_switch_def)

lemma flag_switch_other: "c \<notin> flag_chars \<Longrightarrow> flag_switch c f = f"
  by (simp add: flag_switch_def flag_chars_def)

lemma flag_values:
  "flag_switch (CHR ''-'') 0 = 1" "flag_switch (CHR ''+'') 0 = 2"
  "flag_switch (CHR '' '') 0 = 4" "flag_switch (CHR ''0'') 0 = 8"
  "flag_switch (CHR 0x27) 0 = 16" "flag_switch (CHR ''#'') 0 = 32"
  by (simp_all add: flag_switch_def flag_defs)

lemma flag_switch_disjoint:
  assumes "c \<in> flag_chars" and "d \<in> flag_chars" and "c \<noteq> d"
  shows "flag_switch c 0 AND flag_switch d 0 = 0"
  using assms(1)
proof (cases c rule: flag_chars_cases)
qed (use assms(2,3) in \<open>cases d rule: flag_chars_cases; simp add: flag_values\<close>)+

lemma flag_switch_nonzero: "c \<in> flag_chars \<Longrightarrow> flag_switch c 0 \<noteq> 0"
  by (erule flag_chars_cases) (simp_all add: flag_values)

lemma or_absorbs_and: "f OR x = f \<Longrightarrow> f AND x = (x :: cint)"
  by (auto simp: bit_eq_iff bit_or_iff bit_and_iff)

lemma flag_switch_changes:
  assumes "c \<in> flag_chars" and "f AND flag_switch c 0 = 0"
  shows "flag_switch c f \<noteq> f"
proof
  assume "flag_switch c f = f"
  then have "f OR flag_switch c 0 = f" by (simp only: flag_switch_or [of c f, symmetric])
  then have "f AND flag_switch c 0 = flag_switch c 0" by (rule or_absorbs_and)
  with assms flag_switch_nonzero [of c] show False by simp
qed

lemma fmt_at_append: "fmt_at (pre @ c # post) (length pre) = Inr c"
  by (simp add: fmt_at_def)

lemma parse_flags_shown:
  assumes "distinct fl" and "set fl \<subseteq> flag_chars" and "c \<notin> flag_chars"
    and "\<forall>d \<in> set fl. f AND flag_switch d 0 = 0"
  shows "parse_flags (pre @ x # fl @ c # post) (length pre) f
    = Inr (length pre + Suc (length fl), f OR flag_bits fl)"
  using assms
proof (induction fl arbitrary: pre x f)
  case Nil
  have "fmt_at (pre @ x # c # post) (Suc (length pre)) = Inr c"
    using fmt_at_append [of "pre @ [x]" c post] by simp
  then show ?case
    using Nil by (simp add: parse_flags.simps Let_def flag_switch_other)
next
  case (Cons d fl)
  have at: "fmt_at (pre @ x # d # fl @ c # post) (Suc (length pre)) = Inr d"
    using fmt_at_append [of "pre @ [x]" d "fl @ c # post"] by simp
  have ne: "flag_switch d f \<noteq> f"
    using Cons.prems by (intro flag_switch_changes) auto
  have "\<forall>e \<in> set fl. flag_switch d f AND flag_switch e 0 = 0"
  proof
    fix e
    assume e: "e \<in> set fl"
    then have "flag_switch d 0 AND flag_switch e 0 = 0" "f AND flag_switch e 0 = 0"
      using Cons.prems by (auto intro: flag_switch_disjoint)
    then show "flag_switch d f AND flag_switch e 0 = 0"
      by (subst flag_switch_or) (simp add: bit.conj_disj_distrib2)
  qed
  then have "parse_flags ((pre @ [x]) @ d # fl @ c # post) (length (pre @ [x])) (flag_switch d f)
      = Inr (length (pre @ [x]) + Suc (length fl), flag_switch d f OR flag_bits fl)"
    using Cons.prems by (intro Cons.IH) auto
  then show ?case
    using at ne by (subst parse_flags.simps)
      (simp add: Let_def flag_switch_or [of d f] or.assoc)
qed

lemma digit_char: "d < 10 \<Longrightarrow> of_char (digitsLower ! d) = (48 + of_nat d :: 'a::comm_semiring_1)"
  by (auto simp: digitsLower_def numeral_eq_Suc less_Suc_eq)

lemma digit_char_IS_DIGIT: "d < 10 \<Longrightarrow> IS_DIGIT (digitsLower ! d)"
  by (simp add: IS_DIGIT_def digit_char)

lemma foldl_ge: "r \<le> foldl (\<lambda>a d. a * 10 + d) r ds" for r :: nat
proof (induction ds arbitrary: r)
  case (Cons d ds)
  have "r \<le> r * 10 + d" by simp
  also have "\<dots> \<le> foldl (\<lambda>a d. a * 10 + d) (r * 10 + d) ds" by (rule Cons.IH)
  finally show ?case by simp
qed simp

lemma parse_width_shown:
  assumes "\<forall>d \<in> set ds. d < 10" and "\<not> IS_DIGIT c" and "foldl (\<lambda>a d. a * 10 + d) r ds < 2 ^ 31"
  shows "parse_width (pre @ map (\<lambda>d. digitsLower ! d) ds @ c # post) (length pre) (of_nat r)
    = Inr (length pre + length ds, of_nat (foldl (\<lambda>a d. a * 10 + d) r ds))"
  using assms(1,3)
proof (induction ds arbitrary: pre r)
  case Nil
  then show ?case
    using assms(2) by (simp add: parse_width.simps fmt_at_append)
next
  case (Cons d ds)
  let ?c = "digitsLower ! d" and ?r = "r * 10 + d"
  have lt: "?r < 2 ^ 31" using Cons.prems(2) foldl_ge [of ?r ds] by simp
  have "parse_width ((pre @ [?c]) @ map (\<lambda>d. digitsLower ! d) ds @ c # post) (length (pre @ [?c])) (of_nat ?r)
    = Inr (length (pre @ [?c]) + length ds, of_nat (foldl (\<lambda>a d. a * 10 + d) ?r ds))"
    using Cons.prems by (intro Cons.IH) simp_all
  moreover have "sint (of_nat r :: cint) = int r" using lt by (intro sint_of_nat_cint) simp
  moreover have "int r * 10 + int d < 2 ^ 31" using lt by simp
  ultimately show ?case
    using Cons.prems by (subst parse_width.simps)
      (simp add: fmt_at_append digit_char_IS_DIGIT digit_char)
qed

definition show_width :: "nat \<Rightarrow> string" where
  "show_width w = (if w = 0 then [] else num_string False 10 w)"

lemma parse_width_show_width:
  assumes "\<not> IS_DIGIT c" and "w < 2 ^ 31"
  shows "parse_width (pre @ show_width w @ c # post) (length pre) 0
    = Inr (length pre + length (show_width w), of_nat w)"
proof (cases "w = 0")
  case True
  then show ?thesis using parse_width_shown [of "[]" c 0 pre post] assms
    by (simp add: show_width_def)
next
  case False
  have "foldl (\<lambda>a d. a * 10 + d) 0 (rev (lsd 10 w)) = w"
    using hval_rev_lsd [of 10 w] by (simp add: hval_def)
  then show ?thesis
    using parse_width_shown [of "rev (lsd 10 w)" c 0 pre post] lsd_lt [of 10 _ w] assms False
    by (simp add: show_width_def num_string_def)
qed

lemma last_lsd_pos: "0 < w \<Longrightarrow> 0 < last (lsd 10 w)"
proof (induction "10::nat" w rule: lsd.induct)
  case (1 n)
  have "lsd 10 (n div 10) \<noteq> []" using length_lsd_pos [of 10 "n div 10"] by auto
  with 1 show ?case by (subst lsd.simps) auto
qed

lemma num_string_hd:
  assumes "0 < w"
  obtains c cs where "num_string False 10 w = c # cs" and "c \<notin> flag_chars"
proof -
  have "lsd 10 w \<noteq> []" using length_lsd_pos [of 10 w] by auto
  then obtain ys d where l: "lsd 10 w = ys @ [d]" by (meson rev_exhaust)
  then have d: "d < 10" "0 < d" using lsd_lt [of 10 d w] last_lsd_pos [OF assms] by simp_all
  have "(of_char (digitsLower ! d) :: nat) = 48 + d"
    using digit_char [OF d(1), where 'a = nat] by simp
  then have "digitsLower ! d \<notin> flag_chars"
    using d(2) by (auto elim!: flag_chars_cases)
  moreover have "num_string False 10 w = digitsLower ! d # map (\<lambda>d. digitsLower ! d) (rev ys)"
    by (simp add: num_string_def l)
  ultimately show thesis using that by blast
qed

definition conv_chars :: "char set" where "conv_chars = set ''diuxXocps%''"
definition modifiers :: "string set" where
  "modifiers = {'''', ''h'', ''hh'', ''l'', ''ll'', ''z'', ''j'', ''t''}"

lemma modifier_hd:
  assumes "ml \<in> modifiers" and "c \<in> conv_chars"
  obtains x xs where "ml @ c # post = x # xs" and "x \<notin> flag_chars" and "\<not> IS_DIGIT x"
proof -
  have "hd (ml @ [c]) \<in> set ''hlzjtdiuxXocps%''"
    using assms by (auto simp: modifiers_def conv_chars_def)
  then have "hd (ml @ [c]) \<notin> flag_chars \<and> \<not> IS_DIGIT (hd (ml @ [c]))"
    by (auto simp: flag_chars_def IS_DIGIT_def)
  then show thesis using that [of "hd (ml @ [c])" "tl (ml @ c # post)"] by (cases ml) auto
qed

lemma fmt_at_append1: "fmt_at (pre @ x # c # post) (Suc (length pre)) = Inr c"
  using fmt_at_append [of "pre @ [x]" c post] by simp

lemma parse_length_shown:
  assumes "ml \<in> modifiers" and "c \<in> conv_chars"
  shows "parse_length (pre @ ml @ c # post) (length pre)
    = Inr (length pre + length ml, length_of ml c)"
proof -
  have nc: "c \<noteq> CHR ''h''" "c \<noteq> CHR ''l''" "c \<noteq> CHR ''z''" "c \<noteq> CHR ''j''" "c \<noteq> CHR ''t''"
    using assms(2) by (auto simp: conv_chars_def)
  consider "ml = ''''" | "ml = ''h''" | "ml = ''hh''" | "ml = ''l''" | "ml = ''ll''"
    | "ml = ''z''" | "ml = ''j''" | "ml = ''t''"
    using assms(1) unfolding modifiers_def by blast
  then show ?thesis
    by cases (simp_all add: parse_length_def fmt_at_append fmt_at_append1 nc)
qed

lemma show_width_hd:
  assumes "x \<notin> flag_chars"
  obtains y ys where "show_width w @ x # post = y # ys" and "y \<notin> flag_chars"
proof (cases "w = 0")
  case True
  then show thesis using that assms by (simp add: show_width_def)
next
  case False
  then obtain c cs where "num_string False 10 w = c # cs" and "c \<notin> flag_chars"
    using num_string_hd by (metis gr0I)
  then show thesis using that False by (simp add: show_width_def)
qed

lemma width_in_range:
  assumes "w \<le> 256"
  shows "(if sint (of_nat w :: cint) > sint MAX_WIDTH then MAX_WIDTH else of_nat w) = of_nat w"
proof -
  have "sint (of_nat w :: cint) = int w" using assms by (intro sint_of_nat_cint) simp
  then show ?thesis using assms by (simp add: MAX_WIDTH_def)
qed

lemma vprintf_conv_shown:
  assumes ok: "directive_ok (Conv fl w ml c)"
  shows "vprintf_conv (pre @ show_directive (Conv fl w ml c) @ post) (length pre) as =
    bindE (render_directive (Conv fl w ml c) as) (\<lambda>(as, out, n).
      Inr (length pre + length (show_directive (Conv fl w ml c)) - 1, as, out, n))"
proof -
  have fl: "distinct fl" "set fl \<subseteq> flag_chars" and w: "w \<le> 256"
    and ml: "ml \<in> modifiers" and c: "c \<in> conv_chars"
    using ok by (auto simp: flag_chars_def modifiers_def conv_chars_def)
  obtain x xs where x: "ml @ c # post = x # xs" "x \<notin> flag_chars" "\<not> IS_DIGIT x"
    using modifier_hd [OF ml c] by metis
  obtain y ys where y: "show_width w @ x # xs = y # ys" "y \<notin> flag_chars"
    using show_width_hd [OF x(2)] by metis
  let ?p1 = "pre @ CHR ''%'' # fl" and ?sw = "show_width w"
  define fmt where "fmt = pre @ show_directive (Conv fl w ml c) @ post"
  have f1: "fmt = pre @ CHR ''%'' # fl @ y # ys"
    by (simp add: fmt_def show_width_def [symmetric] x(1) y(1))
  have f2: "fmt = ?p1 @ ?sw @ x # xs" by (simp add: f1 y(1))
  have f3: "fmt = (?p1 @ ?sw) @ ml @ c # post" by (simp add: f2 x(1))
  have f4: "fmt = (?p1 @ ?sw @ ml) @ c # post" by (simp add: f3)
  have s1: "parse_flags fmt (length pre) 0 = Inr (length ?p1, flag_bits fl)"
    unfolding f1 using parse_flags_shown [OF fl y(2), of 0 pre "CHR ''%''" ys] by simp
  have s2: "parse_width fmt (length ?p1) 0 = Inr (length (?p1 @ ?sw), of_nat w)"
    unfolding f2 using parse_width_show_width [OF x(3), of w ?p1 xs] w by simp
  have s3: "parse_length fmt (length (?p1 @ ?sw)) = Inr (length (?p1 @ ?sw @ ml), length_of ml c)"
    unfolding f3 using parse_length_shown [OF ml c, of "?p1 @ ?sw" post] by simp
  have s4: "fmt_at fmt (length (?p1 @ ?sw @ ml)) = Inr c"
    unfolding f4 by (rule fmt_at_append)
  have len: "length pre + length (show_directive (Conv fl w ml c)) - 1 = length (?p1 @ ?sw @ ml)"
    by (simp add: show_width_def)
  have "vprintf_conv fmt (length pre) as =
    bindE (get_value c (length_of ml c) as) (\<lambda>(v, as).
      bindE (print_value c v (flag_bits fl) (of_nat w)) (\<lambda>(out, n).
        Inr (length (?p1 @ ?sw @ ml), as, out, n)))"
    unfolding vprintf_conv_def s1 s2 s3 bindE.simps prod.case Let_def width_in_range [OF w] s4
    by (simp only:)
  then show ?thesis
    unfolding fmt_def [symmetric] len
    by (simp add: bindE_assoc split_beta' del: append_assoc length_append length_of.simps)
qed

lemma render_directive_Conv_hd: "show_directive (Conv fl w ml c) = CHR ''%'' # tl (show_directive (Conv fl w ml c))"
  by simp

lemma vprintf_loop_render:
  assumes "\<forall>d \<in> set ds. directive_ok d"
  shows "vprintf_loop (pre @ concat (map show_directive ds)) (length pre) as out n =
    bindE (render ds as) (\<lambda>(out', n'). Inr (out @ out', n + n'))"
  using assms
proof (induction ds arbitrary: pre as out n)
  case Nil
  then show ?case by (simp add: vprintf_loop.simps)
next
  case (Cons d ds)
  let ?rest = "concat (map show_directive ds)"
  have IH: "vprintf_loop ((pre @ show_directive d) @ ?rest) (length (pre @ show_directive d)) as' o' k
      = bindE (render ds as') (\<lambda>(out', n'). Inr (o' @ out', k + n'))" for as' o' k
    using Cons.prems by (intro Cons.IH) simp
  show ?case
  proof (cases d)
    case (Lit c)
    then show ?thesis
      using Cons.prems IH [of as "out @ [c]" "n + 1"]
      by (subst vprintf_loop.simps) (simp add: bindE_assoc split_beta' ac_simps)
  next
    case (Conv fl w ml c)
    define sd where "sd = show_directive d"
    have sd: "sd = CHR ''%'' # tl sd" by (simp add: sd_def Conv)
    have pos: "0 < length sd" by (subst sd) simp
    have at: "(pre @ sd @ ?rest) ! length pre = CHR ''%''"
      by (subst sd) (simp only: append_Cons nth_append_length)
    have lt: "length pre < length (pre @ sd @ ?rest)" using pos by simp
    have step: "vprintf_conv (pre @ sd @ ?rest) (length pre) as =
      bindE (render_directive d as) (\<lambda>(as, o', k). Inr (length pre + length sd - 1, as, o', k))"
      using vprintf_conv_shown [of fl w ml c pre ?rest as] Cons.prems Conv by (simp add: sd_def)
    have next_i: "length pre + length sd - 1 + 1 = length (pre @ sd)" using pos by simp
    have IH': "vprintf_loop (pre @ sd @ ?rest) (length (pre @ sd)) as' o' k
      = bindE (render ds as') (\<lambda>(out', n'). Inr (o' @ out', k + n'))" for as' o' k
      using IH [of as' o' k] unfolding sd_def [symmetric] append_assoc .
    have "vprintf_loop (pre @ sd @ ?rest) (length pre) as out n =
      bindE (render_directive d as) (\<lambda>(as, o', k).
        vprintf_loop (pre @ sd @ ?rest) (length (pre @ sd)) as (out @ o') (n + k))"
      unfolding vprintf_loop.simps [of "pre @ sd @ ?rest" "length pre"] at if_P [OF lt] step bindE_assoc
      using next_i by (simp add: split_beta' del: append_assoc length_append render_directive.simps)
    then show ?thesis
      unfolding IH' by (simp add: sd_def bindE_assoc split_beta' ac_simps del: show_directive.simps render_directive.simps)
  qed
qed

section \<open>Messages with string and number arguments\<close>

definition lits :: "string \<Rightarrow> directive list" where
  "lits str = map Lit str"

lemma lits_ok: "CHR ''%'' \<notin> set str \<Longrightarrow> \<forall>d \<in> set (lits str). directive_ok d"
  by (auto simp: lits_def)

lemma show_lits: "concat (map show_directive (lits str)) = str"
  by (simp add: lits_def comp_def)

lemma render_lits:
  "render (lits str @ ds) as = bindE (render ds as) (\<lambda>(out, n). Inr (str @ out, of_nat (length str) + n))"
  by (induction str) (auto simp: lits_def bindE_assoc split_beta' ac_simps intro!: bindE_cong)

lemma render_str:
  "render (Conv [] 0 [] (CHR ''s'') # ds) (VaStr (Some str) # as) =
     bindE (render ds as) (\<lambda>(out, n). Inr (str @ out, of_nat (length str) + n))"
  by (simp add: get_value_def print_value_def debug_print_def)

lemma render_dec:
  assumes "0 \<le> sint w" and "num = num_string False 10 (nat (sint w))"
  shows "render (Conv [] 0 [] (CHR ''d'') # ds) (VaInt w # as) =
     bindE (render ds as) (\<lambda>(out, n). Inr (num @ out, of_nat (length num) + n))"
proof -
  have s: "sint (scast w :: u64) = sint w" by (simp add: sint_up_scast is_up)
  have "sint w < 2 ^ 31" using sint_lt [of w] by simp
  have u: "unat (scast w :: u64) = nat (sint w)"
  proof -
    have "(scast w :: u64) = word_of_int (sint w)" by (rule scast_eq)
    also have "\<dots> = word_of_int (int (nat (sint w)))" using assms(1) by simp
    also have "\<dots> = of_nat (nat (sint w))" by (rule of_int_of_nat_eq)
    finally have eq: "(scast w :: u64) = of_nat (nat (sint w))" .
    show ?thesis unfolding eq using \<open>sint w < 2 ^ 31\<close> by (intro unat_of_nat_64) simp
  qed
  have "magnitude True (scast w :: u64) = nat (sint w)"
    using assms(1) by (simp add: magnitude_def s u)
  moreover have "nat (sint w) < 10 ^ 19" using \<open>sint w < 2 ^ 31\<close> by simp
  ultimately have "debug_print_int (scast w) 0 0 10 True False = Inr (num, of_nat (length num))"
    using assms by (subst debug_print_int_layout)
      (simp_all add: safe_digits_def int_layout_def int_sign_def int_prefix_def has_flag_def s Let_def scast_not_min)
  then show ?thesis by (simp add: get_value_def print_value_def)
qed

lemma assert_message_text:
  assumes "line < 2 ^ 31"
  shows "assert_message level msg fn file line =
    Inr (log_prefix level @ ''Assertion failed in '' @ fn @ '' ('' @ file @ '':''
         @ num_string False 10 line @ ''): '' @ msg)"
proof -
  let ?num = "num_string False 10 line"
  let ?s = "Conv [] 0 [] (CHR ''s'')"
  let ?ds = "lits ''Assertion failed in '' @ ?s # lits '' ('' @ ?s # lits '':''
      @ Conv [] 0 [] (CHR ''d'') # lits ''): '' @ ?s # []"
  have s: "sint (of_nat line :: cint) = int line" using assms by (rule sint_of_nat_cint)
  have dec: "render (Conv [] 0 [] (CHR ''d'') # ds) (VaInt (of_nat line) # as) =
     bindE (render ds as) (\<lambda>(out, n). Inr (?num @ out, of_nat (length ?num) + n))" for ds as
    by (rule render_dec) (simp_all add: s)
  have fmt: "''Assertion failed in %s (%s:%d): %s'' = concat (map show_directive ?ds)"
    by (simp add: show_lits)
  have "\<forall>d \<in> set ?ds. directive_ok d" by (auto dest: lits_ok [rule_format, rotated])
  then have eq: "debug_vprintf ''Assertion failed in %s (%s:%d): %s'' as = render ?ds as" for as
    using vprintf_loop_render [of ?ds "[]" as "[]" 0] unfolding fmt debug_vprintf_def
    by (simp only: append_Nil list.size(3)) simp
  show ?thesis
    unfolding assert_message_def debug_log_def eq render_lits render_str dec by simp
qed

section \<open>What a directive means\<close>

text \<open>Numbers in positional notation.\<close>

definition digit_text :: "bool \<Rightarrow> nat \<Rightarrow> char" where
  "digit_text upper d = char_of (if d < 10 then 48 + d else (if upper then 55 else 87) + d)"

function numeral_text :: "bool \<Rightarrow> nat \<Rightarrow> nat \<Rightarrow> string" where
  "numeral_text upper b n =
     (if b < 2 \<or> n < b then [digit_text upper n]
      else numeral_text upper b (n div b) @ [digit_text upper (n mod b)])"
  by pat_completeness auto
termination
  by (relation "measure (\<lambda>(_, _, n). n)") auto

declare numeral_text.simps [simp del]

text \<open>An integer with flags and a width: the sign, the prefix of the base, and the digits, padded to
  the width on the left, or on the right when the flags say so.\<close>

definition sign_text :: "char set \<Rightarrow> bool \<Rightarrow> string" where
  "sign_text fl negative =
     (if negative then ''-'' else if CHR ''+'' \<in> fl then ''+'' else if CHR '' '' \<in> fl then '' '' else [])"

definition prefix_text :: "char set \<Rightarrow> nat \<Rightarrow> bool \<Rightarrow> string" where
  "prefix_text fl b upper =
     (if CHR ''#'' \<notin> fl then [] else if b = 8 then ''0'' else if b = 16 then (if upper then ''0X'' else ''0x'') else [])"

definition padded :: "char set \<Rightarrow> nat \<Rightarrow> string \<Rightarrow> string" where
  "padded fl w digits =
     (let pad = replicate (w - length digits) (if CHR ''0'' \<in> fl then CHR ''0'' else CHR '' '')
      in if CHR ''-'' \<in> fl then digits @ pad else pad @ digits)"

definition int_text :: "char set \<Rightarrow> nat \<Rightarrow> nat \<Rightarrow> bool \<Rightarrow> int \<Rightarrow> string" where
  "int_text fl w b upper z =
     sign_text fl (z < 0) @ prefix_text fl b upper @ padded fl w (numeral_text upper b (nat \<bar>z\<bar>))"

text \<open>The number whose digits are those of \<open>k\<close> in reverse order.\<close>

definition reversed :: "nat \<Rightarrow> nat \<Rightarrow> nat" where
  "reversed b k = hval b (lsd b k)"

text \<open>The integers \<^verbatim>\<open>debug_print_int\<close> can print: the reversed digits must fit in \<^verbatim>\<open>uintmax_t\<close> (every
  integer below 19 decimal, 21 octal or 16 hexadecimal digits), the least signed integer has
  no negation.\<close>

definition printable :: "nat \<Rightarrow> int \<Rightarrow> bool" where
  "printable b z \<longleftrightarrow> reversed b (nat \<bar>z\<bar>) < 2 ^ 64 \<and> z \<noteq> - (2 ^ 63)"

definition int_meaning :: "char set \<Rightarrow> nat \<Rightarrow> nat \<Rightarrow> bool \<Rightarrow> int \<Rightarrow> string option" where
  "int_meaning fl w b upper z = (if printable b z then Some (int_text fl w b upper z) else None)"

text \<open>A word under a conversion character, as the signed or the unsigned integer it stands for.\<close>

definition word_meaning :: "char set \<Rightarrow> nat \<Rightarrow> char \<Rightarrow> int \<Rightarrow> int \<Rightarrow> string option" where
  "word_meaning fl w c signed_int unsigned_int =
     (if c \<in> set ''di'' then int_meaning fl w 10 False signed_int
      else if c = CHR ''u'' then int_meaning fl w 10 False unsigned_int
      else if c = CHR ''x'' then int_meaning fl w 16 False unsigned_int
      else if c = CHR ''X'' then int_meaning fl w 16 True unsigned_int
      else if c = CHR ''o'' then int_meaning fl w 8 False unsigned_int
      else if c = CHR ''c'' then Some [char_of (nat (unsigned_int mod 256))]
      else None)"

text \<open>
  The length modifiers for 64-bit arguments; the others are for \<^verbatim>\<open>int\<close>, which \<^verbatim>\<open>h\<close> and \<^verbatim>\<open>hh\<close> print in full.
  The flag for the grouping of thousands is accepted and has no effect.
\<close>

definition wide :: "string \<Rightarrow> bool" where
  "wide ml \<longleftrightarrow> ml \<in> {''l'', ''ll'', ''z'', ''j'', ''t''}"

fun arg_meaning :: "char set \<Rightarrow> nat \<Rightarrow> string \<Rightarrow> char \<Rightarrow> vaarg \<Rightarrow> string option" where
  "arg_meaning fl w ml c (VaInt x) = (if wide ml then None else word_meaning fl w c (sint x) (uint x))"
| "arg_meaning fl w ml c (VaLong x) = (if wide ml then word_meaning fl w c (sint x) (uint x) else None)"
| "arg_meaning fl w ml c (VaPtr x) = (if c = CHR ''p'' then int_meaning fl w 16 True (uint x) else None)"
| "arg_meaning fl w ml c (VaStr p) =
     (if c = CHR ''s'' then Some (case p of None \<Rightarrow> ''(null)'' | Some str \<Rightarrow> str) else None)"

text \<open>A list of directives has a meaning for a list of arguments of the types it asks for.\<close>

fun format_text :: "directive list \<Rightarrow> vaarg list \<Rightarrow> string option" where
  "format_text [] as = Some []"
| "format_text (Lit c # ds) as = map_option (\<lambda>t. c # t) (format_text ds as)"
| "format_text (Conv fl w ml c # ds) as =
     (if c = CHR ''%'' then map_option (\<lambda>t. ''%'' @ t) (format_text ds as)
      else case as of
        [] \<Rightarrow> None
      | a # as' \<Rightarrow> Option.bind (arg_meaning (set fl) w ml c a) (\<lambda>t. map_option (\<lambda>t'. t @ t') (format_text ds as')))"

text \<open>Where the number the code returns is the number of characters printed: not for \<^verbatim>\<open>%%\<close>, whose
  character code is added, and not with a prefix, which is left out.\<close>

fun counted :: "directive \<Rightarrow> bool" where
  "counted (Lit c) \<longleftrightarrow> True"
| "counted (Conv fl w ml c) \<longleftrightarrow> c \<noteq> CHR ''%'' \<and> (CHR ''#'' \<in> set fl \<longrightarrow> c \<notin> set ''xXop'')"

section \<open>The code prints what the directives mean\<close>

lemma table_digit:
  assumes "d < 16"
  shows "(if upper then digitsUpper else digitsLower) ! d = digit_text upper d"
proof -
  have tables: "digitsUpper = map (digit_text True) [0..<16]" "digitsLower = map (digit_text False) [0..<16]"
    by code_simp+
  have nth: "map f [0..<16] ! d = f d" for f :: "nat \<Rightarrow> char"
    using nth_map_upt [of d 16 0 f] assms by (simp only: diff_zero add_0)
  have "digitsUpper ! d = digit_text True d" "digitsLower ! d = digit_text False d"
    unfolding tables by (rule nth)+
  then show ?thesis by (cases upper) (simp_all only: if_True if_False)
qed

lemma num_string_text:
  assumes "2 \<le> b" and "b \<le> 16"
  shows "num_string upper b n = numeral_text upper b n"
proof (induction n rule: less_induct)
  case (less n)
  show ?case
  proof (cases "n < b")
    case True
    then show ?thesis
      using assms table_digit [of n upper] by (simp add: num_string_def lsd.simps [of b n] numeral_text.simps [of upper b n])
  next
    case False
    have "n mod b < b" using assms(1) by (intro mod_less_divisor) simp
    then have m: "n mod b < 16" using assms(2) by simp
    have "num_string upper b n = num_string upper b (n div b) @ [(if upper then digitsUpper else digitsLower) ! (n mod b)]"
      using False assms by (simp add: num_string_def lsd.simps [of b n] div_eq_0_iff)
    then show ?thesis
      using False assms less [of "n div b"] table_digit [OF m, of upper] by (simp add: numeral_text.simps [of upper b n])
  qed
qed

text \<open>The bits of the flags are the set of their characters.\<close>

lemma has_flag_or: "has_flag (f OR g) x \<longleftrightarrow> has_flag f x \<or> has_flag g x"
proof -
  have "(f OR g) AND x = (f AND x) OR (g AND x)" by (rule bit.conj_disj_distrib2)
  moreover have "a OR b = 0 \<longleftrightarrow> a = 0 \<and> b = 0" for a b :: cint
    by (auto simp: bit_eq_iff bit_or_iff)
  ultimately show ?thesis by (simp add: has_flag_def)
qed

lemma has_flag_bits:
  assumes "set fl \<subseteq> flag_chars"
  shows "has_flag (flag_bits fl) LEFT_ALIGN \<longleftrightarrow> CHR ''-'' \<in> set fl"
    "has_flag (flag_bits fl) PLUS_FOR_POSITIVE \<longleftrightarrow> CHR ''+'' \<in> set fl"
    "has_flag (flag_bits fl) SPACE_FOR_POSITIVE \<longleftrightarrow> CHR '' '' \<in> set fl"
    "has_flag (flag_bits fl) PREPEND_ZEROES \<longleftrightarrow> CHR ''0'' \<in> set fl"
    "has_flag (flag_bits fl) SPECIAL_HASH \<longleftrightarrow> CHR ''#'' \<in> set fl"
proof -
  have one: "has_flag (flag_switch c 0) (flag_switch d 0) \<longleftrightarrow> c = d" if "c \<in> flag_chars" "d \<in> flag_chars" for c d
    using that flag_switch_disjoint [OF that] flag_switch_nonzero [OF that(1)] by (auto simp: has_flag_def)
  have bits: "has_flag (flag_bits fl) (flag_switch d 0) \<longleftrightarrow> d \<in> set fl" if d: "d \<in> flag_chars" for d
    using assms
  proof (induction fl)
    case Nil
    then show ?case by (simp add: has_flag_def)
  next
    case (Cons c fl)
    then show ?case using one [of c d] d by (auto simp: has_flag_or)
  qed
  have eqs: "LEFT_ALIGN = flag_switch (CHR ''-'') 0" "PLUS_FOR_POSITIVE = flag_switch (CHR ''+'') 0"
    "SPACE_FOR_POSITIVE = flag_switch (CHR '' '') 0" "PREPEND_ZEROES = flag_switch (CHR ''0'') 0"
    "SPECIAL_HASH = flag_switch (CHR ''#'') 0"
    by (simp_all add: flag_switch_def)
  show "has_flag (flag_bits fl) LEFT_ALIGN \<longleftrightarrow> CHR ''-'' \<in> set fl"
    "has_flag (flag_bits fl) PLUS_FOR_POSITIVE \<longleftrightarrow> CHR ''+'' \<in> set fl"
    "has_flag (flag_bits fl) SPACE_FOR_POSITIVE \<longleftrightarrow> CHR '' '' \<in> set fl"
    "has_flag (flag_bits fl) PREPEND_ZEROES \<longleftrightarrow> CHR ''0'' \<in> set fl"
    "has_flag (flag_bits fl) SPECIAL_HASH \<longleftrightarrow> CHR ''#'' \<in> set fl"
    unfolding eqs by (rule bits; simp add: flag_chars_def)+
qed

text \<open>The layout of a number.\<close>

lemma layout_text:
  assumes fl: "set fl \<subseteq> flag_chars" and b: "b \<in> {8, 10, 16}"
  shows "fst (int_layout (z < 0) (nat \<bar>z\<bar>) (flag_bits fl) w b upper) = int_text (set fl) w b upper z"
    "CHR ''#'' \<notin> set fl \<or> b = 10 \<Longrightarrow>
      snd (int_layout (z < 0) (nat \<bar>z\<bar>) (flag_bits fl) w b upper) = length (int_text (set fl) w b upper z)"
proof -
  have n: "num_string upper b (nat \<bar>z\<bar>) = numeral_text upper b (nat \<bar>z\<bar>)"
    using b by (intro num_string_text) auto
  have s: "int_sign (z < 0) (flag_bits fl) = sign_text (set fl) (z < 0)"
    by (simp add: int_sign_def sign_text_def has_flag_bits [OF fl])
  have c: "(of_nat b :: cint) = 8 \<longleftrightarrow> b = 8" "(of_nat b :: cint) = 16 \<longleftrightarrow> b = 16" using b by auto
  have p: "int_prefix (of_nat b) (flag_bits fl) upper = prefix_text (set fl) b upper"
    by (simp add: int_prefix_def prefix_text_def has_flag_bits [OF fl] c)
  show "fst (int_layout (z < 0) (nat \<bar>z\<bar>) (flag_bits fl) w b upper) = int_text (set fl) w b upper z"
    "CHR ''#'' \<notin> set fl \<or> b = 10 \<Longrightarrow>
      snd (int_layout (z < 0) (nat \<bar>z\<bar>) (flag_bits fl) w b upper) = length (int_text (set fl) w b upper z)"
    by (auto simp: int_layout_def int_text_def padded_def prefix_text_def Let_def n s p has_flag_bits [OF fl])
qed

text \<open>A value that is printed as the integer \<open>z\<close>.\<close>

lemma print_int_meaning:
  assumes m: "int_meaning (set fl) w b upper z = Some t" and fl: "set fl \<subseteq> flag_chars"
    and b: "base \<in> {8, 10, 16}" "unat base = b" and w: "w \<le> 256"
    and v: "z = (if sign then sint v else uint v)"
  shows "\<exists>n. debug_print_int v (flag_bits fl) (of_nat w) base sign upper = Inr (t, n)
    \<and> (CHR ''#'' \<notin> set fl \<or> b = 10 \<longrightarrow> n = of_nat (length t))"
proof -
  have t: "t = int_text (set fl) w b upper z" and pr: "printable b z"
    using m by (auto simp: int_meaning_def split: if_splits)
  have pos: "unat v = nat (sint v)" if "0 \<le> sint v"
  proof -
    have "sint v < 2 ^ 63" using sint_lt [of v] by simp
    then have "sint v mod 2 ^ 64 = sint v" using that by (intro mod_pos_pos_trivial) simp_all
    moreover have "uint v = sint v mod 2 ^ 64" by (simp only: uint_sint take_bit_eq_mod) simp
    ultimately show ?thesis unfolding unat_eq_nat_uint by simp
  qed
  have mag: "magnitude sign v = nat \<bar>z\<bar>"
  proof (cases sign)
    case True
    then show ?thesis using pos by (cases "sint v < 0") (simp_all add: v magnitude_def)
  next
    case False
    then show ?thesis by (simp add: v magnitude_def)
  qed
  have "0 \<le> uint v" by simp
  then have neg: "(sint v < 0 \<and> sign) = (z < 0)" unfolding v by (cases sign) simp_all
  have min: "\<not> (sign \<and> v = INTMAX_MIN)"
  proof
    assume "sign \<and> v = INTMAX_MIN"
    then have "z = - (2 ^ 63)" by (simp add: v INTMAX_MIN_def)
    then show False using pr by (simp add: printable_def)
  qed
  have width: "sint (of_nat w :: cint) = int w" using w by (intro sint_of_nat_cint) simp
  have fit: "hval (unat base) (lsd (unat base) (magnitude sign v)) < 2 ^ 64"
    using pr unfolding mag b(2) by (simp add: printable_def reversed_def)
  have b': "b \<in> {8, 10, 16}" using b by auto
  have "debug_print_int v (flag_bits fl) (of_nat w) base sign upper
      = Inr (map_prod id of_nat (int_layout (z < 0) (nat \<bar>z\<bar>) (flag_bits fl) w b upper))"
    using debug_print_int_fit [OF b(1) _ fit min, of "of_nat w" "flag_bits fl" upper]
    unfolding mag neg b(2) width by simp
  then show ?thesis using layout_text [OF fl b', of z w upper] unfolding t
    by (cases "int_layout (z < 0) (nat \<bar>z\<bar>) (flag_bits fl) w b upper") simp
qed

lemma print_word_meaning:
  assumes m: "word_meaning (set fl) w c (sint v) (uint v) = Some t" and fl: "set fl \<subseteq> flag_chars" and w: "w \<le> 256"
  shows "\<exists>n. print_value c (VNum v) (flag_bits fl) (of_nat w) = Inr (t, n)
    \<and> (counted (Conv fl w ml c) \<longrightarrow> n = of_nat (length t))"
proof -
  note p = print_int_meaning [OF _ fl _ _ w]
  have u: "unat (16 :: cint) = 16" "unat (10 :: cint) = 10" "unat (8 :: cint) = 8" by simp_all
  consider "c \<in> set ''di''" "int_meaning (set fl) w 10 False (sint v) = Some t"
    | "c = CHR ''u''" "int_meaning (set fl) w 10 False (uint v) = Some t"
    | "c = CHR ''x''" "int_meaning (set fl) w 16 False (uint v) = Some t"
    | "c = CHR ''X''" "int_meaning (set fl) w 16 True (uint v) = Some t"
    | "c = CHR ''o''" "int_meaning (set fl) w 8 False (uint v) = Some t"
    | "c = CHR ''c''" "t = [char_of (nat (uint v mod 256))]"
    using m by (auto simp: word_meaning_def split: if_splits)
  then show ?thesis
  proof cases
    case 1
    have "print_value c (VNum v) (flag_bits fl) (of_nat w) = debug_print_int v (flag_bits fl) (of_nat w) 10 True False"
      using 1(1) by (auto simp: print_value_def)
    then show ?thesis using p [OF 1(2) _ u(2), of True v] by auto
  next
    case 2
    then show ?thesis using p [OF 2(2) _ u(2), of False v] by (auto simp: print_value_def)
  next
    case 3
    then show ?thesis using p [OF 3(2) _ u(1), of False v] by (auto simp: print_value_def)
  next
    case 4
    then show ?thesis using p [OF 4(2) _ u(1), of False v] by (auto simp: print_value_def)
  next
    case 5
    then show ?thesis using p [OF 5(2) _ u(3), of False v] by (auto simp: print_value_def)
  next
    case 6
    have "unat (ucast v :: u8) = unat v mod 256" by (simp add: unsigned_ucast_eq take_bit_eq_mod)
    moreover have "uint v mod 256 = int (unat v mod 256)" unfolding zmod_int by simp
    then have "nat (uint v mod 256) = unat v mod 256" by (simp only: nat_int)
    ultimately show ?thesis using 6 by (simp add: print_value_def debug_putchar_def)
  qed
qed

text \<open>One conversion, and a format.\<close>

lemma get_value_wide:
  assumes "len \<in> {LENGTH_LONG, LENGTH_LONG_LONG, LENGTH_SIZE, LENGTH_INTMAX, LENGTH_PTRDIFF}"
    and "c \<in> set ''diuxXoc''"
  shows "get_value c len (VaLong v # as) = Inr (VNum v, as)"
proof -
  have len: "len \<noteq> LENGTH_INT" using assms(1) by auto
  show ?thesis unfolding get_value_def if_not_P [OF len] if_P [OF assms(1)]
    using assms(2) by auto
qed

lemma render_conv_meaning:
  assumes ok: "directive_ok (Conv fl w ml c)" and c: "c \<noteq> CHR ''%''"
    and m: "arg_meaning (set fl) w ml c a = Some t"
  shows "\<exists>n. render_directive (Conv fl w ml c) (a # as) = Inr (as, t, n)
    \<and> (counted (Conv fl w ml c) \<longrightarrow> n = of_nat (length t))"
proof -
  have fl: "set fl \<subseteq> flag_chars" and w: "w \<le> 256"
    and ml: "ml \<in> {'''', ''h'', ''hh'', ''l'', ''ll'', ''z'', ''j'', ''t''}"
    using ok by (auto simp: flag_chars_def)
  show ?thesis
  proof (cases a)
    case (VaInt x)
    have nw: "\<not> wide ml" and wm: "word_meaning (set fl) w c (sint x) (uint x) = Some t"
      using m VaInt by (auto split: if_splits)
    have c': "c \<in> set ''diuxXoc''" using wm by (auto simp: word_meaning_def split: if_splits)
    then have len: "length_of ml c = LENGTH_INT" using nw ml by (auto simp: wide_def)
    define v :: u64 where "v = (if c \<in> set ''di'' then scast x else ucast x)"
    have "get_value c (length_of ml c) (a # as) = Inr (VNum v, as)"
      unfolding len using c' by (auto simp: get_value_def VaInt v_def)
    moreover have "word_meaning (set fl) w c (sint v) (uint v) = Some t"
    proof (cases "c \<in> set ''di''")
      case True
      have "sint v = sint x" using True by (simp add: v_def sint_up_scast is_up)
      then show ?thesis using wm True by (auto simp: word_meaning_def)
    next
      case False
      have "uint v = uint x" using False by (simp add: v_def uint_up_ucast is_up)
      then show ?thesis using wm False by (simp add: word_meaning_def)
    qed
    ultimately show ?thesis using print_word_meaning [OF _ fl w, of c v t ml]
      by (auto simp del: counted.simps length_of.simps)
  next
    case (VaLong v)
    have nw: "wide ml" and wm: "word_meaning (set fl) w c (sint v) (uint v) = Some t"
      using m VaLong by (auto split: if_splits)
    have c': "c \<in> set ''diuxXoc''" using wm by (auto simp: word_meaning_def split: if_splits)
    have "length_of ml c \<in> {LENGTH_LONG, LENGTH_LONG_LONG, LENGTH_SIZE, LENGTH_INTMAX, LENGTH_PTRDIFF}"
      using nw by (auto simp: wide_def)
    then have "get_value c (length_of ml c) (a # as) = Inr (VNum v, as)"
      unfolding VaLong using c' by (rule get_value_wide)
    then show ?thesis using print_word_meaning [OF wm fl w, of ml]
      by (auto simp del: counted.simps length_of.simps)
  next
    case (VaPtr v)
    have cp: "c = CHR ''p''" and im: "int_meaning (set fl) w 16 True (uint v) = Some t"
      using m VaPtr by (auto split: if_splits)
    have "get_value c (length_of ml c) (a # as) = Inr (VNum v, as)"
      by (simp add: get_value_def VaPtr cp del: length_of.simps)
    moreover have "\<exists>n. print_value c (VNum v) (flag_bits fl) (of_nat w) = Inr (t, n)
        \<and> (counted (Conv fl w ml c) \<longrightarrow> n = of_nat (length t))"
      using print_int_meaning [OF im fl, of 16 False v] w by (auto simp: cp print_value_def)
    ultimately show ?thesis by (auto simp del: counted.simps length_of.simps)
  next
    case (VaStr p)
    have cs: "c = CHR ''s''" and t: "t = (case p of None \<Rightarrow> ''(null)'' | Some str \<Rightarrow> str)"
      using m VaStr by (auto split: if_splits)
    have "get_value c (length_of ml c) (a # as) = Inr (VStr p, as)"
      by (simp add: get_value_def VaStr cs del: length_of.simps)
    then show ?thesis
      by (cases p) (simp_all add: cs t print_value_def debug_print_def del: length_of.simps)
  qed
qed

lemma render_percent:
  "\<exists>n. render_directive (Conv fl w ml (CHR ''%'')) as = Inr (as, ''%'', n)"
  by (simp add: get_value_def print_value_def debug_putchar_def del: length_of.simps)

lemma render_format_text:
  assumes "\<forall>d \<in> set ds. directive_ok d" and "format_text ds as = Some res"
  shows "\<exists>n. render ds as = Inr (res, n) \<and> (list_all counted ds \<longrightarrow> n = of_nat (length res))"
  using assms
proof (induction ds as arbitrary: res rule: format_text.induct)
  case (1 as)
  then show ?case by simp
next
  case (2 c ds as)
  then obtain t where t: "format_text ds as = Some t" "res = c # t" by auto
  obtain n where "render ds as = Inr (t, n)" "list_all counted ds \<longrightarrow> n = of_nat (length t)"
    using 2 t(1) by auto
  then show ?case by (simp add: t(2))
next
  case (3 fl w ml c ds as)
  show ?case
  proof (cases "c = CHR ''%''")
    case True
    then obtain t where t: "format_text ds as = Some t" "res = ''%'' @ t" using 3(4) by auto
    obtain n where "render ds as = Inr (t, n)" using 3(1) 3(3) True t(1) by auto
    then show ?thesis using render_percent [of fl w ml as] True
      by (auto simp: t(2) simp del: render_directive.simps)
  next
    case False
    then obtain a as' t t' where a: "as = a # as'" "arg_meaning (set fl) w ml c a = Some t"
        "format_text ds as' = Some t'" "res = t @ t'"
      using 3(4) by (auto simp: bind_eq_Some_conv split: list.splits)
    obtain n where n: "render_directive (Conv fl w ml c) (a # as') = Inr (as', t, n)"
        "counted (Conv fl w ml c) \<longrightarrow> n = of_nat (length t)"
      using render_conv_meaning [OF _ False a(2), of as'] 3(3) by auto
    obtain n' where n': "render ds as' = Inr (t', n')" "list_all counted ds \<longrightarrow> n' = of_nat (length t')"
      using 3(2) [OF False a(1,2) _ a(3)] 3(3) by auto
    show ?thesis using n n' unfolding a(1,4)
      by (simp del: render_directive.simps counted.simps)
  qed
qed

text \<open>The digits \<^verbatim>\<open>debug_print_int\<close> writes are those of the reversed number modulo \<open>2 ^ 64\<close>.\<close>

lemma emit_digits_value:
  assumes "2 \<le> b" and "b \<le> 16"
  shows "hval b (map digit_value (rev (emit_digits m (if upper then digitsUpper else digitsLower) (of_nat b) w)))
    = unat w mod b ^ m"
proof (induction m arbitrary: w)
  case 0
  then show ?case by simp
next
  case (Suc m)
  have b: "unat (of_nat b :: u64) = b" using assms(2) by (intro unat_of_nat_64) simp
  have u: "unat (w div of_nat b) = unat w div b" "unat (w mod of_nat b) = unat w mod b"
    by (simp_all only: unat_div unat_mod b)
  have "unat w mod b < b" using assms(1) by (intro mod_less_divisor) simp
  then have "unat w mod b < 16" using assms(2) by simp
  then have d: "digit_value ((if upper then digitsUpper else digitsLower) ! unat (w mod of_nat b)) = unat w mod b"
    unfolding u(2) by (rule digit_value_digits)
  show ?case
    unfolding emit_digits.simps rev.simps map_append list.map hval_snoc Suc u(1) d power_Suc
    by (simp add: mod_mult2_eq mult.commute)
qed

lemma emitted_numeral:
  assumes "2 \<le> b" and "b \<le> 16"
  shows "emit_digits (length (lsd b k)) (if upper then digitsUpper else digitsLower) (of_nat b) (of_nat (reversed b k))
      = num_string upper b k \<longleftrightarrow> reversed b k < 2 ^ 64" (is "?e = _ \<longleftrightarrow> _")
proof
  assume eq: "?e = num_string upper b k"
  have lt: "\<forall>d \<in> set (lsd b k). d < 16" using lsd_lt [OF assms(1)] assms(2) by fastforce
  have "map digit_value (rev (num_string upper b k))
      = map (\<lambda>d. digit_value ((if upper then digitsUpper else digitsLower) ! d)) (lsd b k)"
    by (simp only: num_string_def rev_map [symmetric] rev_rev_ident map_map comp_def)
  also have "\<dots> = map id (lsd b k)"
    unfolding map_eq_conv using lt digit_value_digits [where upper = upper] by simp
  finally have "hval b (map digit_value (rev ?e)) = reversed b k"
    unfolding eq by (simp add: reversed_def)
  then have "reversed b k = unat (of_nat (reversed b k) :: u64) mod b ^ length (lsd b k)"
    unfolding emit_digits_value [OF assms] by (rule sym)
  also have "\<dots> \<le> unat (of_nat (reversed b k) :: u64)" by (rule mod_less_eq_dividend)
  also have "\<dots> < 2 ^ 64" using unsigned_less [of "of_nat (reversed b k) :: u64", where ?'a = nat] by simp
  finally show "reversed b k < 2 ^ 64" .
next
  assume "reversed b k < 2 ^ 64"
  then show "?e = num_string upper b k"
    unfolding reversed_def using assms by (intro emit_digits_num_string) simp_all
qed

lemma debug_print_int_plain:
  assumes "base \<in> {8, 10, 16}"
  shows "\<exists>c. debug_print_int n 0 0 base False upper =
    Inr (emit_digits (length (lsd (unat base) (unat n))) (if upper then digitsUpper else digitsLower)
           (of_nat (unat base)) (of_nat (reversed (unat base) (unat n))), c)"
proof -
  note b = cint_base [OF assms]
  have n: "unat n < 2 ^ 64" using unsigned_less [of n, where ?'a = nat] by simp
  have rev: "reverse_digits (scast base) n 0 0 = Some (of_nat (reversed (unat base) (unat n)),
      of_nat (length (lsd (unat base) (unat n))))"
    unfolding b(1) reversed_def using b n by (intro reverse_digits_0) simp_all
  have len: "length (lsd (unat base) (unat n)) < 2 ^ 31" by (rule length_lsd_64 [OF b(2) n])
  have pad: "emit_padding 0 0 (of_nat (length (lsd (unat base) (unat n)))) = []"
    using emit_padding_eq [OF _ len, of 0 0] by simp
  have nb: "\<not> sint base > 16" "\<not> sint base \<le> 0" using b(4,5) by auto
  have no_flags: "has_flag 0 LEFT_ALIGN = False" "int_sign (sint n < 0 \<and> False) 0 = []" "int_prefix base 0 upper = []"
    "(if sint n < 0 \<and> False then - n else n) = n"
    by (simp_all add: has_flag_def int_sign_def int_prefix_def)
  have nm: "\<not> ((sint n < 0 \<and> False) \<and> n = INTMAX_MIN)" by simp
  show ?thesis
    unfolding debug_print_int_def Let_def if_not_P [OF nm] no_flags if_not_P [OF nb(1)] if_not_P [OF nb(2)] b(1) rev [unfolded b(1)]
      option.case prod.case sint_of_nat_cint [OF len] nat_int pad if_False append_Nil append_Nil2
    by (rule exI) (rule refl)
qed

section \<open>Properties\<close>

text \<open>C36: \<^verbatim>\<open>debug_vprintf\<close> implements the format language: a format string that writes down a
  list of directives (literal characters, and conversions with distinct flags, a width of at
  most 256, a length modifier and a conversion character) prints, for arguments of the types
  the conversions ask for, what the directives mean: signed or unsigned decimal, lower or upper
  case hexadecimal and octal numerals of the integer the argument stands for, with sign, prefix
  and padding as the flags and the width say; characters, strings and \<^verbatim>\<open>(null)\<close>. Each
  conversion takes one argument, \<^verbatim>\<open>%%\<close> none. Where every directive is counted the result is
  the number of characters printed.\<close>

theorem debug_vprintf_renders:
  assumes "\<forall>d \<in> set ds. directive_ok d" and "format_text ds as = Some res"
  shows "\<exists>n. debug_vprintf (concat (map show_directive ds)) as = Inr (res, n)
    \<and> (list_all counted ds \<longrightarrow> n = of_nat (length res))"
proof -
  have "debug_vprintf (concat (map show_directive ds)) as = render ds as"
    using vprintf_loop_render [OF assms(1), of "[]" as "[]" 0] by (simp add: debug_vprintf_def)
  then show ?thesis using render_format_text [OF assms] by simp
qed

theorem debug_vprintf_renders_witness:
  "debug_vprintf ''a%lX-%05d%s'' [VaLong 0xCAFE, VaInt (- 42), VaStr (Some ''!'')] = Inr (''aCAFE--00042!'', 13)"
proof -
  let ?ds = "[Lit (CHR ''a''), Conv [] 0 ''l'' (CHR ''X''), Lit (CHR ''-''),
        Conv ''0'' 5 [] (CHR ''d''), Conv [] 0 [] (CHR ''s'')]"
    and ?as = "[VaLong 0xCAFE, VaInt (- 42), VaStr (Some ''!'')]"
  have fmt: "concat (map show_directive ?ds) = ''a%lX-%05d%s''"
    by (simp add: num_string_def lsd.simps digitsLower_def)
  have num: "numeral_text True 16 51966 = ''CAFE''" "numeral_text False 10 42 = ''42''"
    by (simp_all add: numeral_text.simps digit_text_def) code_simp+
  have "reversed 16 51966 = 61356" "reversed 10 42 = 24"
    by (simp_all add: reversed_def lsd.simps hval_def)
  then have "format_text ?ds ?as = Some ''aCAFE--00042!''"
    by (simp add: wide_def word_meaning_def int_meaning_def printable_def num int_text_def sign_text_def
        prefix_text_def padded_def Let_def numeral_3_eq_3)
  then show ?thesis using debug_vprintf_renders [of ?ds ?as "''aCAFE--00042!''"] unfolding fmt by simp
qed

text \<open>C39: what \<^verbatim>\<open>debug_print_int\<close> prints for an unsigned value is its numeral exactly when the
  number with the same digits in reverse order fits in \<^verbatim>\<open>uintmax_t\<close>, in which the code
  collects the digits. In base 16 that is every value; in base 10 and 8 there are values
  of 20 and of 22 digits that are printed as others.\<close>

theorem debug_print_int_exact:
  assumes "base \<in> {8, 10, 16}"
  shows "\<exists>s c. debug_print_int n 0 0 base False upper = Inr (s, c)
    \<and> (s = numeral_text upper (unat base) (unat n) \<longleftrightarrow> reversed (unat base) (unat n) < 2 ^ 64)"
proof -
  have b: "2 \<le> unat base" "unat base \<le> 16" using assms by auto
  show ?thesis
    using debug_print_int_plain [OF assms, of n upper] emitted_numeral [OF b, of "unat n" upper]
    unfolding num_string_text [OF b] by auto
qed

theorem debug_print_int_exact_witness:
  "\<exists>s c. debug_print_int 18446744073709551615 0 0 10 False False = Inr (s, c)
    \<and> s \<noteq> numeral_text False 10 18446744073709551615"
proof -
  have "\<not> reversed 10 18446744073709551615 < 2 ^ 64" by (simp add: reversed_def lsd.simps hval_def)
  then show ?thesis using debug_print_int_exact [of 10 18446744073709551615 False] by auto
qed

text \<open>What a failed assertion prints: the level's prefix, the function, the file and the line
  of the assertion and its message.\<close>

theorem assert_message_prints:
  assumes "line < 2 ^ 31"
  shows "assert_message level msg fn file line =
    Inr (log_prefix level @ ''Assertion failed in '' @ fn @ '' ('' @ file @ '':''
         @ num_string False 10 line @ ''): '' @ msg)"
  using assms by (rule assert_message_text)

theorem assert_message_prints_witness:
  "assert_message LOGLEVEL_FATAL ''out of bounds'' ''pmm_bitmap_set'' ''./mm/pmm.c'' 21
    = Inr ''[ FATAL ] Assertion failed in pmm_bitmap_set (./mm/pmm.c:21): out of bounds''"
  using assert_message_prints [of 21 LOGLEVEL_FATAL "''out of bounds''" "''pmm_bitmap_set''" "''./mm/pmm.c''"]
  by (simp add: num_string_def lsd.simps digitsLower_def log_prefix_def LOGLEVEL_TRACE_def
      LOGLEVEL_DEBUG_def LOGLEVEL_INFO_def LOGLEVEL_WARN_def LOGLEVEL_ERROR_def LOGLEVEL_FATAL_def)

end
