(* ===== verification/Kstate.thy ===== *)
theory Kstate
  imports Format_Spec
begin

text \<open>
  The state of the kernel: the memory it addresses, the text it has printed, and the static
  variables of the memory managers. An operation takes the state last and returns the new
  state, or an error: the machine halted (with everything the console showed), or the
  execution is undefined (a formatted print without its argument, an index outside an array, a
  return to an address that is not the caller's). Memory is indexed by kernel virtual
  addresses; the static variables are not in it, since they live in the kernel image and not
  in memory the managers hand out.
\<close>

datatype kerror =
  Halted string
| Undefined fmt_error
| Out_of_fuel
| Bad_index
| Wild_jump

record kstate =
  mem :: mem
  con :: string
  bitmap :: u64
  bitmapSize :: u64
  kernelPT :: u64
  cr3 :: u64
  blockListStart :: u64
  blockListEnd :: u64
  kheapSize :: u64
  kheapSizeUsable :: u64

definition of_cond :: "bool \<Rightarrow> cint" where
  "of_cond b = (if b then 1 else 0)"

text \<open>\<^verbatim>\<open>debug_log\<close>, \<^verbatim>\<open>debug_panic\<close> and \<^verbatim>\<open>__debug_assert\<close> on the state.\<close>

definition klog :: "cint \<Rightarrow> string \<Rightarrow> vaarg list \<Rightarrow> kstate \<Rightarrow> kerror + kstate" where
  "klog loglevel fmt as s =
     (case debug_log loglevel fmt as of
        Inl e \<Rightarrow> Inl (Undefined e)
      | Inr (out, _) \<Rightarrow> Inr (s\<lparr>con := con s @ out\<rparr>))"

definition kpanic :: "string \<Rightarrow> vaarg list \<Rightarrow> kstate \<Rightarrow> kerror + 'a" where
  "kpanic fmt as s =
     (case panic_message fmt as of
        Inl e \<Rightarrow> Inl (Undefined e)
      | Inr out \<Rightarrow> Inl (Halted (con s @ out)))"

text \<open>
  The condition of \<^verbatim>\<open>assert\<close> is an \<^verbatim>\<open>int\<close> parameter: a 64-bit expression is truncated to 32
  bits when it is passed.
\<close>

definition kassert ::
    "cint \<Rightarrow> string \<Rightarrow> string \<Rightarrow> string \<Rightarrow> nat \<Rightarrow> kstate \<Rightarrow> kerror + kstate" where
  "kassert cond message func file line s =
     (if cond \<noteq> 0 then Inr s
      else (case assert_message LOGLEVEL_FATAL message func file line of
              Inl e \<Rightarrow> Inl (Undefined e)
            | Inr out \<Rightarrow> Inl (Halted (con s @ out))))"

definition kassert_warn ::
    "cint \<Rightarrow> string \<Rightarrow> string \<Rightarrow> string \<Rightarrow> nat \<Rightarrow> kstate \<Rightarrow> kerror + kstate" where
  "kassert_warn cond message func file line s =
     (if cond \<noteq> 0 then Inr s
      else (case assert_message LOGLEVEL_WARN message func file line of
              Inl e \<Rightarrow> Inl (Undefined e)
            | Inr out \<Rightarrow> Inr (s\<lparr>con := con s @ out\<rparr>)))"

lemma of_cond_0 [simp]: "of_cond b = 0 \<longleftrightarrow> \<not> b"
  by (simp add: of_cond_def)

lemma kassert_pass [simp]: "c \<noteq> 0 \<Longrightarrow> kassert c msg fn fl ln s = Inr s"
  by (simp add: kassert_def)

lemma kassert_Inr_iff: "kassert c msg fn fl ln s = Inr s' \<longleftrightarrow> c \<noteq> 0 \<and> s' = s"
  by (auto simp: kassert_def split: sum.splits)

section \<open>Messages without conversions\<close>

lemma vprintf_loop_literal:
  assumes "CHR ''%'' \<notin> set fmt" and "i \<le> length fmt"
  shows "vprintf_loop fmt i as out n = Inr (out @ drop i fmt, n + of_nat (length fmt - i))"
  using assms(2)
proof (induction "length fmt - i" arbitrary: i out n)
  case 0
  then show ?case by (simp add: vprintf_loop.simps)
next
  case (Suc k)
  then have lt: "i < length fmt" by simp
  then have "fmt ! i \<noteq> CHR ''%''" using assms(1) nth_mem by metis
  moreover have "drop i fmt = fmt ! i # drop (Suc i) fmt" using lt by (simp add: Cons_nth_drop_Suc)
  moreover have "length fmt - i = Suc (length fmt - Suc i)" using lt by simp
  ultimately show ?case
    using Suc.hyps(1) [of "Suc i" "out @ [fmt ! i]" "n + 1"] Suc.hyps(2) lt
    by (subst vprintf_loop.simps) (simp add: ac_simps)
qed

lemma debug_vprintf_literal:
  "CHR ''%'' \<notin> set fmt \<Longrightarrow> debug_vprintf fmt as = Inr (fmt, of_nat (length fmt))"
  by (simp add: debug_vprintf_def vprintf_loop_literal)

lemma klog_literal:
  "CHR ''%'' \<notin> set fmt \<Longrightarrow>
   klog level fmt as s = Inr (s\<lparr>con := con s @ log_prefix level @ fmt\<rparr>)"
  by (simp add: klog_def debug_log_def debug_vprintf_literal)

lemma kpanic_literal:
  "CHR ''%'' \<notin> set fmt \<Longrightarrow>
   kpanic fmt as s = Inl (Halted (con s @ log_prefix LOGLEVEL_FATAL @ ''Kernel Panic! '' @ fmt))"
  by (simp add: kpanic_def panic_message_def debug_log_def debug_vprintf_literal)

section \<open>Failed assertions\<close>

definition assert_text :: "string \<Rightarrow> string \<Rightarrow> string \<Rightarrow> nat \<Rightarrow> string" where
  "assert_text message func file line =
     ''[ FATAL ] Assertion failed in '' @ func @ '' ('' @ file @ '':''
       @ num_string False 10 line @ ''): '' @ message"

lemma log_prefix_simps [simp]:
  "log_prefix LOGLEVEL_TRACE = ''[ TRACE ] ''" "log_prefix LOGLEVEL_INFO = ''[ INFO  ] ''"
  "log_prefix LOGLEVEL_WARN = ''[ WARN  ] ''" "log_prefix LOGLEVEL_FATAL = ''[ FATAL ] ''"
  by (simp_all add: log_prefix_def LOGLEVEL_TRACE_def LOGLEVEL_DEBUG_def LOGLEVEL_INFO_def
      LOGLEVEL_WARN_def LOGLEVEL_ERROR_def LOGLEVEL_FATAL_def)

lemma kassert_fail:
  "line < 2 ^ 31 \<Longrightarrow>
   kassert 0 message func file line s = Inl (Halted (con s @ assert_text message func file line))"
  by (simp add: kassert_def assert_message_text assert_text_def)

end
