(* ===== verification/Boot_Proto.thy ===== *)
theory Boot_Proto
  imports Kstate
begin

text \<open>
  \<^verbatim>\<open>symphony/boot_proto.c\<close>: the abstraction layer over the Limine boot protocol. The header
  \<^verbatim>\<open>limine.h\<close> and what the bootloader answers are not part of the sources: they are the
  record \<open>limine\<close>, a parameter of every definition that uses them. Its constants are the
  values of the \<^verbatim>\<open>LIMINE_*\<close> macros.
\<close>

record limine_memmap_entry =
  lim_base :: u64
  lim_length :: u64
  lim_type :: u64

record limine =
  LIMINE_MEMMAP_USABLE :: u64
  LIMINE_MEMMAP_RESERVED :: u64
  LIMINE_MEMMAP_ACPI_RECLAIMABLE :: u64
  LIMINE_MEMMAP_ACPI_NVS :: u64
  LIMINE_MEMMAP_BAD_MEMORY :: u64
  LIMINE_MEMMAP_BOOTLOADER_RECLAIMABLE :: u64
  LIMINE_MEMMAP_KERNEL_AND_MODULES :: u64
  LIMINE_MEMMAP_FRAMEBUFFER :: u64
  LIMINE_FIRMWARE_TYPE_X86BIOS :: u64
  LIMINE_FIRMWARE_TYPE_UEFI32 :: u64
  LIMINE_FIRMWARE_TYPE_UEFI64 :: u64
  lim_supported :: bool
  lim_name :: "string option"
  lim_version :: "string option"
  lim_firmware_type :: u64
  lim_hhdm_offset :: u64
  lim_entries :: "limine_memmap_entry list"
  lim_physical_base :: u64
  lim_virtual_base :: u64
  lim_kernel_size :: u64

record boot_proto_memmap_entry =
  entry_base :: u64
  entry_length :: u64
  entry_type :: u64

definition BOOT_PROTO_FW_UNKNOWN :: u64 where "BOOT_PROTO_FW_UNKNOWN = 0"
definition BOOT_PROTO_FW_X86BIOS :: u64 where "BOOT_PROTO_FW_X86BIOS = 1"
definition BOOT_PROTO_FW_UEFI32 :: u64 where "BOOT_PROTO_FW_UEFI32 = 2"
definition BOOT_PROTO_FW_UEFI64 :: u64 where "BOOT_PROTO_FW_UEFI64 = 3"

definition BOOT_PROTO_MEMMAP_UNKNOWN :: u64 where "BOOT_PROTO_MEMMAP_UNKNOWN = 0"
definition BOOT_PROTO_MEMMAP_USABLE :: u64 where "BOOT_PROTO_MEMMAP_USABLE = 1"
definition BOOT_PROTO_MEMMAP_RESERVED :: u64 where "BOOT_PROTO_MEMMAP_RESERVED = 2"
definition BOOT_PROTO_MEMMAP_ACPI_RECLAIMABLE :: u64 where "BOOT_PROTO_MEMMAP_ACPI_RECLAIMABLE = 3"
definition BOOT_PROTO_MEMMAP_ACPI_NVS :: u64 where "BOOT_PROTO_MEMMAP_ACPI_NVS = 4"
definition BOOT_PROTO_MEMMAP_BAD_MEMORY :: u64 where "BOOT_PROTO_MEMMAP_BAD_MEMORY = 5"
definition BOOT_PROTO_MEMMAP_BOOTLOADER_RECLAIMABLE :: u64
  where "BOOT_PROTO_MEMMAP_BOOTLOADER_RECLAIMABLE = 6"
definition BOOT_PROTO_MEMMAP_KERNEL_AND_MODULES :: u64
  where "BOOT_PROTO_MEMMAP_KERNEL_AND_MODULES = 7"
definition BOOT_PROTO_MEMMAP_FRAMEBUFFER :: u64 where "BOOT_PROTO_MEMMAP_FRAMEBUFFER = 8"

lemmas memmap_type_defs = BOOT_PROTO_MEMMAP_UNKNOWN_def BOOT_PROTO_MEMMAP_USABLE_def
  BOOT_PROTO_MEMMAP_RESERVED_def BOOT_PROTO_MEMMAP_ACPI_RECLAIMABLE_def
  BOOT_PROTO_MEMMAP_ACPI_NVS_def BOOT_PROTO_MEMMAP_BAD_MEMORY_def
  BOOT_PROTO_MEMMAP_BOOTLOADER_RECLAIMABLE_def BOOT_PROTO_MEMMAP_KERNEL_AND_MODULES_def
  BOOT_PROTO_MEMMAP_FRAMEBUFFER_def

section \<open>The accessors\<close>

definition boot_proto_bl_supported :: "limine \<Rightarrow> bool" where
  "boot_proto_bl_supported L = (if \<not> lim_supported L then False else True)"

definition boot_proto_bl_name :: "limine \<Rightarrow> string option" where
  "boot_proto_bl_name L = lim_name L"

definition boot_proto_bl_version :: "limine \<Rightarrow> string option" where
  "boot_proto_bl_version L = lim_version L"

definition boot_proto_firmware_type :: "limine \<Rightarrow> u64" where
  "boot_proto_firmware_type L =
     (let t = lim_firmware_type L in
      if t = LIMINE_FIRMWARE_TYPE_X86BIOS L then BOOT_PROTO_FW_X86BIOS
      else if t = LIMINE_FIRMWARE_TYPE_UEFI32 L then BOOT_PROTO_FW_UEFI32
      else if t = LIMINE_FIRMWARE_TYPE_UEFI64 L then BOOT_PROTO_FW_UEFI64
      else BOOT_PROTO_FW_UEFI64)"

definition boot_proto_hhdm_offset :: "limine \<Rightarrow> u64" where
  "boot_proto_hhdm_offset L = lim_hhdm_offset L"

definition boot_proto_memmap_entry_count :: "limine \<Rightarrow> u64" where
  "boot_proto_memmap_entry_count L = of_nat (length (lim_entries L))"

definition boot_proto_kernel_physical_base :: "limine \<Rightarrow> u64" where
  "boot_proto_kernel_physical_base L = lim_physical_base L"

definition boot_proto_kernel_virtual_base :: "limine \<Rightarrow> u64" where
  "boot_proto_kernel_virtual_base L = lim_virtual_base L"

definition boot_proto_kernel_size :: "limine \<Rightarrow> u64" where
  "boot_proto_kernel_size L = lim_kernel_size L"

section \<open>The memory map\<close>

definition memmap_type :: "limine \<Rightarrow> u64 \<Rightarrow> u64" where
  "memmap_type L t =
     (if t = LIMINE_MEMMAP_USABLE L then BOOT_PROTO_MEMMAP_USABLE
      else if t = LIMINE_MEMMAP_RESERVED L then BOOT_PROTO_MEMMAP_RESERVED
      else if t = LIMINE_MEMMAP_ACPI_RECLAIMABLE L then BOOT_PROTO_MEMMAP_ACPI_RECLAIMABLE
      else if t = LIMINE_MEMMAP_ACPI_NVS L then BOOT_PROTO_MEMMAP_ACPI_NVS
      else if t = LIMINE_MEMMAP_BAD_MEMORY L then BOOT_PROTO_MEMMAP_BAD_MEMORY
      else if t = LIMINE_MEMMAP_BOOTLOADER_RECLAIMABLE L
      then BOOT_PROTO_MEMMAP_BOOTLOADER_RECLAIMABLE
      else if t = LIMINE_MEMMAP_KERNEL_AND_MODULES L then BOOT_PROTO_MEMMAP_KERNEL_AND_MODULES
      else if t = LIMINE_MEMMAP_FRAMEBUFFER L then BOOT_PROTO_MEMMAP_FRAMEBUFFER
      else BOOT_PROTO_MEMMAP_UNKNOWN)"

definition boot_proto_memmap_entry_get ::
    "limine \<Rightarrow> u64 \<Rightarrow> kstate \<Rightarrow> kerror + (boot_proto_memmap_entry \<times> kstate)" where
  "boot_proto_memmap_entry_get L i s =
     bindE (kassert (of_cond (i < boot_proto_memmap_entry_count L))
              ''index greater than the memmap entry count!\<newline>''
              ''boot_proto_memmap_entry_get'' ''./boot_proto.c'' 108 s) (\<lambda>s.
     let blMemmapEntry = lim_entries L ! unat i in
     Inr (\<lparr>entry_base = lim_base blMemmapEntry, entry_length = lim_length blMemmapEntry,
           entry_type = memmap_type L (lim_type blMemmapEntry)\<rparr>, s))"

definition boot_proto_memmap_type_to_str :: "u64 \<Rightarrow> string" where
  "boot_proto_memmap_type_to_str type =
     (if type = BOOT_PROTO_MEMMAP_UNKNOWN then ''Unknown''
      else if type = BOOT_PROTO_MEMMAP_USABLE then ''Usable''
      else if type = BOOT_PROTO_MEMMAP_RESERVED then ''Reserved''
      else if type = BOOT_PROTO_MEMMAP_ACPI_RECLAIMABLE then ''ACPI Reclaimable''
      else if type = BOOT_PROTO_MEMMAP_ACPI_NVS then ''ACPI NVS''
      else if type = BOOT_PROTO_MEMMAP_BAD_MEMORY then ''Bad Memory''
      else if type = BOOT_PROTO_MEMMAP_BOOTLOADER_RECLAIMABLE then ''Bootloader Reclaimable''
      else if type = BOOT_PROTO_MEMMAP_KERNEL_AND_MODULES then ''Kernel and Modules''
      else if type = BOOT_PROTO_MEMMAP_FRAMEBUFFER then ''Framebuffer''
      else ''Undefined Type'')"

text \<open>
  The C compiler refuses two equal \<^verbatim>\<open>case\<close> labels, so the constants of a switch are distinct.
\<close>

definition limine_types :: "limine \<Rightarrow> u64 list" where
  "limine_types L =
     [LIMINE_MEMMAP_USABLE L, LIMINE_MEMMAP_RESERVED L, LIMINE_MEMMAP_ACPI_RECLAIMABLE L,
      LIMINE_MEMMAP_ACPI_NVS L, LIMINE_MEMMAP_BAD_MEMORY L,
      LIMINE_MEMMAP_BOOTLOADER_RECLAIMABLE L, LIMINE_MEMMAP_KERNEL_AND_MODULES L,
      LIMINE_MEMMAP_FRAMEBUFFER L]"

text \<open>An entry as \<^verbatim>\<open>boot_proto_memmap_entry_get\<close> returns it, with no state.\<close>

definition memmap_entry :: "limine \<Rightarrow> nat \<Rightarrow> boot_proto_memmap_entry" where
  "memmap_entry L i =
     (let e = lim_entries L ! i in
      \<lparr>entry_base = lim_base e, entry_length = lim_length e,
       entry_type = memmap_type L (lim_type e)\<rparr>)"

definition entry_count :: "limine \<Rightarrow> nat" where
  "entry_count L = length (lim_entries L)"

lemma unat_entry_count:
  "entry_count L < 2 ^ 64 \<Longrightarrow> unat (boot_proto_memmap_entry_count L) = entry_count L"
  unfolding boot_proto_memmap_entry_count_def entry_count_def by (rule unat_of_nat_64)

lemma memmap_entry_get:
  assumes "i < boot_proto_memmap_entry_count L"
  shows "boot_proto_memmap_entry_get L i s = Inr (memmap_entry L (unat i), s)"
  using assms by (simp add: boot_proto_memmap_entry_get_def memmap_entry_def Let_def)

lemma memmap_type_USABLE_iff:
  "memmap_type L t = BOOT_PROTO_MEMMAP_USABLE \<longleftrightarrow> t = LIMINE_MEMMAP_USABLE L"
  by (simp add: memmap_type_def memmap_type_defs)

section \<open>Properties\<close>

text \<open>
  A machine for the examples: the numeric values of the \<^verbatim>\<open>LIMINE_*\<close> macros of the boot
  protocol's documentation, and a small memory map.
\<close>

definition example_limine :: limine where
  "example_limine =
     \<lparr>LIMINE_MEMMAP_USABLE = 0, LIMINE_MEMMAP_RESERVED = 1, LIMINE_MEMMAP_ACPI_RECLAIMABLE = 2,
      LIMINE_MEMMAP_ACPI_NVS = 3, LIMINE_MEMMAP_BAD_MEMORY = 4,
      LIMINE_MEMMAP_BOOTLOADER_RECLAIMABLE = 5, LIMINE_MEMMAP_KERNEL_AND_MODULES = 6,
      LIMINE_MEMMAP_FRAMEBUFFER = 7, LIMINE_FIRMWARE_TYPE_X86BIOS = 0,
      LIMINE_FIRMWARE_TYPE_UEFI32 = 1, LIMINE_FIRMWARE_TYPE_UEFI64 = 2,
      lim_supported = True, lim_name = Some ''Limine'', lim_version = Some ''8.0.0'',
      lim_firmware_type = 0, lim_hhdm_offset = 0xffff800000000000,
      lim_entries =
        [\<lparr>lim_base = 0x1000, lim_length = 0x9e000, lim_type = 0\<rparr>,
         \<lparr>lim_base = 0xf0000, lim_length = 0x10000, lim_type = 1\<rparr>,
         \<lparr>lim_base = 0x100000, lim_length = 0x40000, lim_type = 0\<rparr>],
      lim_physical_base = 0x120000, lim_virtual_base = 0xffffffff80000000,
      lim_kernel_size = 0x20000\<rparr>"

text \<open>\<^verbatim>\<open>boot_proto_memmap_entry_get\<close> returns the bootloader's entry of that index with its
  type translated, and halts with the assertion's message on every index that is not below the
  entry count; the kernel state does not change.\<close>

theorem memmap_entry_get_checked:
  assumes "length (lim_entries L) < 2 ^ 64"
  shows "boot_proto_memmap_entry_get L i s =
    (if unat i < length (lim_entries L)
     then Inr (\<lparr>entry_base = lim_base (lim_entries L ! unat i),
                entry_length = lim_length (lim_entries L ! unat i),
                entry_type = memmap_type L (lim_type (lim_entries L ! unat i))\<rparr>, s)
     else Inl (Halted (con s @ assert_text ''index greater than the memmap entry count!\<newline>''
            ''boot_proto_memmap_entry_get'' ''./boot_proto.c'' 108)))"
proof -
  have "i < boot_proto_memmap_entry_count L \<longleftrightarrow> unat i < length (lim_entries L)"
    using unat_entry_count [of L] assms by (simp add: entry_count_def word_less_nat_alt)
  then show ?thesis
    by (auto simp: boot_proto_memmap_entry_get_def of_cond_def kassert_fail Let_def)
qed

theorem memmap_entry_get_checked_witness:
  "\<forall>s. boot_proto_memmap_entry_get example_limine 2 s
     = Inr (\<lparr>entry_base = 0x100000, entry_length = 0x40000, entry_type = 1\<rparr>, s)"
  using memmap_entry_get_checked [of example_limine 2]
  by (simp add: example_limine_def memmap_type_def BOOT_PROTO_MEMMAP_USABLE_def)

text \<open>The translation and the naming of the memory types agree: each of the eight types of
  the bootloader (whose constants differ from each other) is named after itself.\<close>

theorem memmap_types_named:
  assumes "distinct (limine_types L)"
  shows "map (\<lambda>t. boot_proto_memmap_type_to_str (memmap_type L t)) (limine_types L) =
    [''Usable'', ''Reserved'', ''ACPI Reclaimable'', ''ACPI NVS'', ''Bad Memory'',
     ''Bootloader Reclaimable'', ''Kernel and Modules'', ''Framebuffer'']"
proof -
  have "distinct (rev (limine_types L))" using assms by simp
  with assms show ?thesis
    by (simp add: limine_types_def memmap_type_def boot_proto_memmap_type_to_str_def memmap_type_defs)
qed

theorem memmap_types_named_witness:
  "boot_proto_memmap_type_to_str (memmap_type example_limine 5) = ''Bootloader Reclaimable''"
  using memmap_types_named [of example_limine] by (simp add: limine_types_def example_limine_def)

end
