(* ===== verification/Allocator.thy ===== *)
theory Allocator
  imports Prelude
begin

text \<open>
  The interface of an allocator of numbered resources (page frames) as its clients use it:
  what an allocation takes, what a release gives back, and what stays true in between. The
  client lemmas are about a ledger of live allocations; the page-frame allocator of theory
  \<open>Pmm\<close> interprets the locale.
\<close>

fun blocks_of :: "('a \<Rightarrow> 'n \<Rightarrow> nat set) \<Rightarrow> ('a \<times> 'n) list \<Rightarrow> nat set" where
  "blocks_of block [] = {}"
| "blocks_of block ((a, n) # live) = block a n \<union> blocks_of block live"

fun apart :: "('a \<Rightarrow> 'n \<Rightarrow> nat set) \<Rightarrow> ('a \<times> 'n) list \<Rightarrow> bool" where
  "apart block [] \<longleftrightarrow> True"
| "apart block ((a, n) # live) \<longleftrightarrow> block a n \<inter> blocks_of block live = {} \<and> apart block live"

lemma blocks_of_append [simp]: "blocks_of block (xs @ ys) = blocks_of block xs \<union> blocks_of block ys"
  by (induction block xs rule: blocks_of.induct) auto

lemma apart_append:
  "apart block (xs @ ys)
    \<longleftrightarrow> apart block xs \<and> apart block ys \<and> blocks_of block xs \<inter> blocks_of block ys = {}"
  by (induction block xs rule: apart.induct) auto

lemma block_in_blocks_of: "(a, n) \<in> set live \<Longrightarrow> block a n \<subseteq> blocks_of block live"
  by (induction block live rule: blocks_of.induct) auto

lemma apart_nth:
  assumes "apart block live" and "i < j" and "j < length live"
    and "live ! i = (a, n)" and "live ! j = (b, k)"
  shows "block a n \<inter> block b k = {}"
proof -
  have "live = take j live @ (b, k) # drop (Suc j) live"
    using assms(3,5) id_take_nth_drop by metis
  then have "apart block (take j live @ (b, k) # drop (Suc j) live)" using assms(1) by simp
  then have "blocks_of block (take j live) \<inter> block b k = {}" by (auto simp: apart_append)
  moreover have "(a, n) \<in> set (take j live)"
    using assms(2-4) by (auto simp: in_set_conv_nth intro!: exI [of _ i])
  ultimately show ?thesis using block_in_blocks_of by fastforce
qed

locale range_allocator =
  fixes alloc :: "'n \<Rightarrow> 's \<Rightarrow> 'e + ('a \<times> 's)"
    and release :: "'a \<Rightarrow> 'n \<Rightarrow> 's \<Rightarrow> 'e + 's"
    and block :: "'a \<Rightarrow> 'n \<Rightarrow> nat set"
    and avail :: "'s \<Rightarrow> nat set"
    and ready :: "'s \<Rightarrow> bool"
    and ok :: "'n \<Rightarrow> bool"
    and well :: "'a \<Rightarrow> bool"
    and managed :: "nat set"
  assumes alloc_law: "\<lbrakk>ready s; ok n; alloc n s = Inr (a, s')\<rbrakk> \<Longrightarrow>
      block a n \<subseteq> avail s \<and> well a \<and> avail s' = avail s - block a n \<and> ready s'"
    and release_law: "\<lbrakk>ready s; ok n; well a; block a n \<subseteq> managed\<rbrakk> \<Longrightarrow>
      \<exists>s'. release a n s = Inr s' \<and> avail s' = avail s \<union> block a n \<and> ready s'"
    and avail_managed: "ready s \<Longrightarrow> avail s \<subseteq> managed"
begin

text \<open>
  The ledger of live allocations agrees with the allocator: the live blocks do not overlap
  each other, and they are exactly the managed resources that are not available.
\<close>

definition ledger :: "'s \<Rightarrow> ('a \<times> 'n) list \<Rightarrow> bool" where
  "ledger s live \<longleftrightarrow> ready s \<and> apart block live \<and> avail s \<union> blocks_of block live = managed
     \<and> avail s \<inter> blocks_of block live = {} \<and> (\<forall>(a, n) \<in> set live. well a \<and> ok n)"

lemma ledger_alloc:
  assumes "ledger s live" and "ok n" and "alloc n s = Inr (a, s')"
  shows "ledger s' ((a, n) # live)"
proof -
  have "ready s" using assms(1) by (simp add: ledger_def)
  from alloc_law [OF this assms(2,3)] show ?thesis
    using assms(1,2) by (auto simp: ledger_def)
qed

lemma ledger_release:
  assumes "ledger s (xs @ (a, n) # ys)"
  shows "\<exists>s'. release a n s = Inr s' \<and> ledger s' (xs @ ys)"
proof -
  have l: "ready s" "ok n" "well a" "block a n \<subseteq> managed"
    using assms by (auto simp: ledger_def)
  from release_law [OF this] obtain s' where s': "release a n s = Inr s'"
      "avail s' = avail s \<union> block a n" "ready s'" by blast
  moreover have "ledger s' (xs @ ys)"
    using assms s'(2,3) by (auto simp: ledger_def apart_append)
  ultimately show ?thesis by blast
qed

lemma release_alloc:
  assumes "ready s" and "ok n" and "alloc n s = Inr (a, s')"
  shows "\<exists>s''. release a n s' = Inr s'' \<and> avail s'' = avail s \<and> ready s''"
proof -
  note al = alloc_law [OF assms]
  then have "block a n \<subseteq> managed" using avail_managed [OF assms(1)] by blast
  then show ?thesis using release_law [of s' n a] al assms(2) by blast
qed

end

end
