(* ===== verification/Pmm.thy ===== *)
theory Pmm
  imports Boot_Proto Allocator
begin

text \<open>
  \<^verbatim>\<open>symphony/mm/pmm.c\<close>: the bitmap page-frame allocator. The bitmap is a byte array in
  memory, at the address \<^verbatim>\<open>bitmap\<close>, one bit per page, the most significant bit of a byte
  first; a set bit is an allocated page. The abstraction \<open>free_pages\<close> is the set of the page
  numbers with a clear bit.
\<close>

section \<open>The operations\<close>

definition bitmap_mask :: "u64 \<Rightarrow> u8" where
  "bitmap_mask page = drop_bit (unat (page mod 8)) 0b10000000"

definition pmm_bitmap_set :: "u64 \<Rightarrow> kstate \<Rightarrow> kerror + kstate" where
  "pmm_bitmap_set page s =
     bindE (kassert (of_cond (page div 8 < bitmapSize s))
              ''PMM bitmap set operation out of bounds!\<newline>''
              ''pmm_bitmap_set'' ''./mm/pmm.c'' 21 s) (\<lambda>s.
     let a = bitmap s + page div 8 in
     Inr (s\<lparr>mem := (mem s)(a := mem s a OR bitmap_mask page)\<rparr>))"

definition pmm_bitmap_clear :: "u64 \<Rightarrow> kstate \<Rightarrow> kerror + kstate" where
  "pmm_bitmap_clear page s =
     bindE (kassert (of_cond (page div 8 < bitmapSize s))
              ''PMM bitmap clear operation out of bounds!\<newline>''
              ''pmm_bitmap_clear'' ''./mm/pmm.c'' 28 s) (\<lambda>s.
     let a = bitmap s + page div 8 in
     Inr (s\<lparr>mem := (mem s)(a := mem s a AND NOT (bitmap_mask page))\<rparr>))"

text \<open>
  The scan for the last usable entry of the memory map: the loop runs from the last index
  down to 1, and returns 0 without looking at entry 0. With an empty map the first index
  wraps around and the lookup's assertion halts.
\<close>

function last_tracked_loop :: "limine \<Rightarrow> u64 \<Rightarrow> kstate \<Rightarrow> kerror + (u64 \<times> kstate)" where
  "last_tracked_loop L i s =
     (if i > 0 then
        bindE (boot_proto_memmap_entry_get L i s) (\<lambda>(entry, s).
          if entry_type entry = BOOT_PROTO_MEMMAP_USABLE
          then Inr ((entry_base entry + entry_length entry) div PAGE_SIZE, s)
          else last_tracked_loop L (i - 1) s)
      else Inr (0, s))"
  by pat_completeness auto
termination
  by (relation "measure (\<lambda>(_, i, _). unat i)") (auto intro: measure_unat simp: word_neq_0_conv)

declare last_tracked_loop.simps [simp del]

definition pmm_bitmap_last_tracked_page :: "limine \<Rightarrow> kstate \<Rightarrow> kerror + (u64 \<times> kstate)" where
  "pmm_bitmap_last_tracked_page L s =
     last_tracked_loop L (boot_proto_memmap_entry_count L - 1) s"

text \<open>
  The first-fit search. \<^verbatim>\<open>basePage\<close> is uninitialised in the code until the first free page of
  a chunk sets it; the initial value here is never read.
\<close>

record scan =
  inChunk :: bool
  pagesFoundInChunk :: cint
  basePage :: u64

definition scan_page :: "cint \<Rightarrow> kstate \<Rightarrow> u64 \<Rightarrow> u8 \<Rightarrow> scan \<Rightarrow> u64 + scan" where
  "scan_page pages s i j sc =
     (if mem s (bitmap s + i) AND drop_bit (unat j) 0b10000000 = 0 then
        (let sc = (if \<not> inChunk sc then sc\<lparr>basePage := i * 8 + ucast j, inChunk := True\<rparr> else sc);
             sc = sc\<lparr>pagesFoundInChunk := pagesFoundInChunk sc + 1\<rparr>
         in if pagesFoundInChunk sc = pages then Inl (basePage sc) else Inr sc)
      else Inr (sc\<lparr>inChunk := False, pagesFoundInChunk := 0\<rparr>))"

definition scan_pages :: "cint \<Rightarrow> kstate \<Rightarrow> u64 + scan" where
  "scan_pages pages s =
     forE 0 (bitmapSize s) (\<lambda>i sc. forE 0 8 (scan_page pages s i) sc)
       \<lparr>inChunk = False, pagesFoundInChunk = 0, basePage = 0\<rparr>"

definition pmm_find_free_pages :: "cint \<Rightarrow> kstate \<Rightarrow> kerror + u64" where
  "pmm_find_free_pages pages s =
     (case scan_pages pages s of
        Inl page \<Rightarrow> Inr page
      | Inr _ \<Rightarrow> kpanic ''Out of Memory!'' [] s)"

definition pmm_alloc :: "cint \<Rightarrow> kstate \<Rightarrow> kerror + (u64 \<times> kstate)" where
  "pmm_alloc pages s =
     bindE (pmm_find_free_pages pages s) (\<lambda>page.
     bindE (forE page (page + scast pages) pmm_bitmap_set s) (\<lambda>s.
     Inr (push_bit 12 page, s)))"

definition pmm_free :: "limine \<Rightarrow> u64 \<Rightarrow> cint \<Rightarrow> kstate \<Rightarrow> kerror + (cint \<times> kstate)" where
  "pmm_free L addr pages s =
     bindE (forE (drop_bit 12 addr) (drop_bit 12 addr + scast pages) pmm_bitmap_clear s) (\<lambda>s.
     Inr (0, s\<lparr>mem := snd (memset (addr + boot_proto_hhdm_offset L) 0xff
                             (scast (4096 * pages)) (mem s))\<rparr>))"

section \<open>Initialisation\<close>

text \<open>Page 0 is cut off an entry that starts there (also in \<^verbatim>\<open>vmm_init\<close>).\<close>

definition skip_page_0 :: "boot_proto_memmap_entry \<Rightarrow> boot_proto_memmap_entry" where
  "skip_page_0 entry =
     (if entry_base entry = 0 then
        entry\<lparr>entry_base := entry_base entry + PAGE_SIZE,
              entry_length := (if entry_length entry \<ge> PAGE_SIZE
                               then entry_length entry - PAGE_SIZE else 0)\<rparr>
      else entry)"

text \<open>
  The loop that places the bitmap: \<^term>\<open>Inl\<close> leaves it, with the state after \<^verbatim>\<open>break\<close> or with
  an error.
\<close>

definition place_bitmap :: "limine \<Rightarrow> u64 \<Rightarrow> kstate \<Rightarrow> (kerror + kstate) + kstate" where
  "place_bitmap L i s =
     (case boot_proto_memmap_entry_get L i s of
        Inl e \<Rightarrow> Inl (Inl e)
      | Inr (entry, s) \<Rightarrow>
          if entry_type entry \<noteq> BOOT_PROTO_MEMMAP_USABLE then Inr s
          else
            (let entry = skip_page_0 entry in
             if entry_length entry \<ge> bitmapSize s
             then Inl (Inr (s\<lparr>bitmap := entry_base entry + boot_proto_hhdm_offset L\<rparr>))
             else Inr s))"

definition clear_usable :: "limine \<Rightarrow> u64 \<Rightarrow> kstate \<Rightarrow> kerror + kstate" where
  "clear_usable L i s =
     bindE (boot_proto_memmap_entry_get L i s) (\<lambda>(entry, s).
       if entry_type entry \<noteq> BOOT_PROTO_MEMMAP_USABLE then Inr s
       else forE (drop_bit 12 (entry_base entry))
              (drop_bit 12 (entry_base entry + entry_length entry)) pmm_bitmap_clear s)"

definition reserve_bitmap :: "limine \<Rightarrow> kstate \<Rightarrow> kerror + kstate" where
  "reserve_bitmap L s =
     (let bitmapPhysAddr = bitmap s - boot_proto_hhdm_offset L;
          last = bitmapPhysAddr + ALIGN_UP (bitmapSize s) PAGE_SIZE
      in for_stepE (stride_fuel bitmapPhysAddr last PAGE_SIZE) Out_of_fuel
           bitmapPhysAddr last PAGE_SIZE (\<lambda>i. pmm_bitmap_set (i div PAGE_SIZE)) s)"

definition pmm_init :: "limine \<Rightarrow> kstate \<Rightarrow> kerror + (cint \<times> kstate)" where
  "pmm_init L s =
     bindE (pmm_bitmap_last_tracked_page L s) (\<lambda>(lastPage, s).
     let s = s\<lparr>bitmapSize := ALIGN_UP lastPage 8 div 8\<rparr> in
     bindE (kassert (ucast (bitmapSize s)) ''Something is wrong with the PMM bitmap size!\<newline>''
              ''pmm_init'' ''./mm/pmm.c'' 81 s) (\<lambda>s.
     bindE (case forE 0 (boot_proto_memmap_entry_count L) (place_bitmap L) s of
              Inl r \<Rightarrow> r | Inr s \<Rightarrow> Inr s) (\<lambda>s.
     bindE (kassert (ucast (bitmap s)) ''Bitmap not properly allocated!\<newline>''
              ''pmm_init'' ''./mm/pmm.c'' 105 s) (\<lambda>s.
     let s = s\<lparr>mem := snd (memset (bitmap s) 0xff (bitmapSize s) (mem s))\<rparr> in
     bindE (forE 0 (boot_proto_memmap_entry_count L) (clear_usable L) s) (\<lambda>s.
     bindE (reserve_bitmap L s) (\<lambda>s.
     bindE (pmm_bitmap_set 0 s) (\<lambda>s.
     bindE (klog LOGLEVEL_INFO ''PMM initialized\<newline>'' [] s) (\<lambda>s.
     Inr (0, s)))))))))"

section \<open>The bitmap as a set of pages\<close>

definition page_used :: "kstate \<Rightarrow> nat \<Rightarrow> bool" where
  "page_used s p \<longleftrightarrow> bit (mem s (bitmap s + of_nat (p div 8))) (7 - p mod 8)"

definition npages :: "kstate \<Rightarrow> nat" where
  "npages s = 8 * unat (bitmapSize s)"

definition free_pages :: "kstate \<Rightarrow> nat set" where
  "free_pages s = {p. p < npages s \<and> \<not> page_used s p}"

text \<open>
  The effect of a bitmap operation: only bytes of the bitmap change, and afterwards the
  pages in use are those of \<open>U\<close>.
\<close>

definition bitmap_now :: "kstate \<Rightarrow> (nat \<Rightarrow> bool) \<Rightarrow> kstate \<Rightarrow> bool" where
  "bitmap_now s U s' \<longleftrightarrow>
     (\<exists>m. s' = s\<lparr>mem := m\<rparr>
       \<and> (\<forall>x. \<not> in_rng (bitmap s) (unat (bitmapSize s)) x \<longrightarrow> m x = mem s x)
       \<and> (\<forall>q < npages s. page_used s' q = U q))"

lemma bitmap_now_refl [simp]: "bitmap_now s (page_used s) s"
  by (auto simp: bitmap_now_def intro: exI [of _ "mem s"])

lemma bitmap_now_fields:
  assumes "bitmap_now s U s'"
  shows "bitmap s' = bitmap s" "bitmapSize s' = bitmapSize s" "con s' = con s"
    "npages s' = npages s" "s' = s\<lparr>mem := mem s'\<rparr>"
  using assms by (auto simp: bitmap_now_def npages_def)

lemma bitmap_now_frame:
  "bitmap_now s U s' \<Longrightarrow> \<not> in_rng (bitmap s) (unat (bitmapSize s)) x \<Longrightarrow> mem s' x = mem s x"
  by (auto simp: bitmap_now_def)

lemma bitmap_now_used: "bitmap_now s U s' \<Longrightarrow> q < npages s \<Longrightarrow> page_used s' q = U q"
  by (auto simp: bitmap_now_def)

lemma bitmap_now_trans:
  assumes "bitmap_now s U s1" and "bitmap_now s1 V s2"
  shows "bitmap_now s V s2"
proof -
  obtain m1 where m1: "s1 = s\<lparr>mem := m1\<rparr>" using assms(1) by (auto simp: bitmap_now_def)
  obtain m2 where m2: "s2 = s1\<lparr>mem := m2\<rparr>" using assms(2) by (auto simp: bitmap_now_def)
  have "s2 = s\<lparr>mem := m2\<rparr>" by (simp add: m1 m2)
  moreover have "m2 x = mem s x" if "\<not> in_rng (bitmap s) (unat (bitmapSize s)) x" for x
    using bitmap_now_frame [OF assms(1), of x] bitmap_now_frame [OF assms(2), of x] that
    by (simp add: m1 m2)
  moreover have "page_used s2 q = V q" if "q < npages s" for q
    using bitmap_now_used [OF assms(2)] bitmap_now_fields(4) [OF assms(1)] that by simp
  ultimately show ?thesis unfolding bitmap_now_def by blast
qed

lemma bitmap_now_cong:
  "bitmap_now s U s' \<Longrightarrow> (\<And>q. q < npages s \<Longrightarrow> U q = V q) \<Longrightarrow> bitmap_now s V s'"
  unfolding bitmap_now_def by fastforce

lemma free_pages_now: "bitmap_now s U s' \<Longrightarrow> free_pages s' = {q. q < npages s \<and> \<not> U q}"
  using bitmap_now_fields(4) [of s U s'] bitmap_now_used [of s U s'] by (auto simp: free_pages_def)

lemma bit_shifted_80:
  assumes "k < 8"
  shows "bit (drop_bit k (0b10000000 :: u8)) n \<longleftrightarrow> n = 7 - k"
proof -
  have "(0b10000000 :: u8) = push_bit 7 1" by simp
  then have "bit (drop_bit k (0b10000000 :: u8)) n \<longleftrightarrow> k + n = 7"
    by (simp only: bit_drop_bit_eq comp_apply bit_push_bit_iff bit_1_iff) auto
  with assms show ?thesis by auto
qed

lemma mask_AND_eq_0:
  assumes "k < 8"
  shows "x AND drop_bit k (0b10000000 :: u8) = 0 \<longleftrightarrow> \<not> bit x (7 - k)"
proof
  assume 0: "x AND drop_bit k (0b10000000 :: u8) = 0"
  have "\<not> bit (x AND drop_bit k (0b10000000 :: u8)) (7 - k)" unfolding 0 by simp
  then show "\<not> bit x (7 - k)" by (simp only: bit_and_iff bit_shifted_80 [OF assms]) simp
next
  assume "\<not> bit x (7 - k)"
  then show "x AND drop_bit k (0b10000000 :: u8) = 0"
    by (intro bit_word_eqI) (simp only: bit_and_iff bit_shifted_80 [OF assms], auto)
qed

lemma of_nat_div8: "of_nat (unat page div 8) = page div (8 :: u64)"
proof -
  have "unat (page div 8) = unat page div 8" by (simp add: unat_div)
  then show ?thesis by (metis of_nat_unat ucast_id)
qed

lemma div8_inj:
  assumes "q div 8 < 2 ^ 64"
  shows "a + of_nat (q div 8) = a + page div (8 :: u64) \<longleftrightarrow> q div 8 = unat page div 8"
proof -
  have "unat page div 8 < 2 ^ 64"     by (rule order.strict_trans1 [OF div_le_dividend]) simp
  then show ?thesis
    using assms unfolding of_nat_div8 [of page, symmetric] add_left_cancel
    by (metis unat_of_nat_64)
qed

lemma page_in_bitmap:
  assumes "unat page < npages s"
  shows "page div 8 < bitmapSize s" and "in_rng (bitmap s) (unat (bitmapSize s)) (bitmap s + page div 8)"
  using assms by (simp_all add: npages_def word_less_nat_alt unat_div less_mult_imp_div_less)

lemma page_used_update:
  assumes "q < npages s" and "unat page < npages s"
  shows "page_used (s\<lparr>mem := (mem s)(bitmap s + page div 8 := v)\<rparr>) q
    \<longleftrightarrow> (if q div 8 = unat page div 8 then bit v (7 - q mod 8) else page_used s q)"
proof -
  have "q div 8 < unat (bitmapSize s)" using assms(1) by (auto simp: npages_def)
  then have "q div 8 < 2 ^ 64" by (rule less_unat_64)
  have f: "mem (s\<lparr>mem := m\<rparr>) = m" "bitmap (s\<lparr>mem := m\<rparr>) = bitmap s" for m by simp_all
  from div8_inj [OF \<open>q div 8 < 2 ^ 64\<close>, of "bitmap s" page] show ?thesis
    by (simp only: page_used_def f fun_upd_apply split: if_split) simp
qed

lemma mod8_inj:
  assumes "q div 8 = p div 8"
  shows "7 - q mod 8 = 7 - p mod 8 \<longleftrightarrow> q = (p :: nat)"
proof -
  have "q mod 8 < 8" "p mod 8 < 8" by simp_all
  then have "7 - q mod 8 = 7 - p mod 8 \<longleftrightarrow> q mod 8 = p mod 8" by arith
  then show ?thesis using assms by (metis div_mult_mod_eq)
qed

lemma page_used_byte:
  "q div 8 = unat page div 8 \<Longrightarrow> page_used s q \<longleftrightarrow> bit (mem s (bitmap s + page div 8)) (7 - q mod 8)"
  unfolding page_used_def of_nat_div8 [symmetric] by simp

lemma bit_bitmap_mask: "bit (bitmap_mask page) n \<longleftrightarrow> n = 7 - unat page mod 8"
  unfolding bitmap_mask_def by (subst bit_shifted_80) (simp_all add: unat_mod)

lemma bitmap_now_byteI:
  assumes "in_rng (bitmap s) (unat (bitmapSize s)) a"
    and "\<And>q. q < npages s \<Longrightarrow> page_used (s\<lparr>mem := (mem s)(a := v)\<rparr>) q = U q"
  shows "bitmap_now s U (s\<lparr>mem := (mem s)(a := v)\<rparr>)"
  unfolding bitmap_now_def using assms by (intro exI [of _ "(mem s)(a := v)"]) auto

lemma pmm_bitmap_set_ok:
  assumes "unat page < npages s"
  shows "\<exists>s'. pmm_bitmap_set page s = Inr s' \<and> bitmap_now s (\<lambda>q. q = unat page \<or> page_used s q) s'"
proof -
  let ?a = "bitmap s + page div 8"
  let ?s = "s\<lparr>mem := (mem s)(?a := mem s ?a OR bitmap_mask page)\<rparr>"
  have "pmm_bitmap_set page s = Inr ?s"
    using page_in_bitmap [OF assms] by (simp add: pmm_bitmap_set_def Let_def)
  moreover have "page_used ?s q \<longleftrightarrow> q = unat page \<or> page_used s q" if "q < npages s" for q
    unfolding page_used_update [OF that assms]
    by (auto simp: bit_or_iff bit_bitmap_mask mod8_inj page_used_byte)
  ultimately show ?thesis
    using page_in_bitmap(2) [OF assms] by (blast intro: bitmap_now_byteI)
qed

lemma pmm_bitmap_clear_ok:
  assumes "unat page < npages s"
  shows "\<exists>s'. pmm_bitmap_clear page s = Inr s' \<and> bitmap_now s (\<lambda>q. q \<noteq> unat page \<and> page_used s q) s'"
proof -
  let ?a = "bitmap s + page div 8"
  let ?s = "s\<lparr>mem := (mem s)(?a := mem s ?a AND NOT (bitmap_mask page))\<rparr>"
  have "pmm_bitmap_clear page s = Inr ?s"
    using page_in_bitmap [OF assms] by (simp add: pmm_bitmap_clear_def Let_def)
  moreover have "page_used ?s q \<longleftrightarrow> q \<noteq> unat page \<and> page_used s q" if "q < npages s" for q
    unfolding page_used_update [OF that assms]
    by (auto simp: bit_and_iff bit_not_iff bit_bitmap_mask mod8_inj page_used_byte)
  ultimately show ?thesis
    using page_in_bitmap(2) [OF assms] by (blast intro: bitmap_now_byteI)
qed


section \<open>Ranges of pages\<close>

lemma set_range_ok:
  assumes "lo \<le> hi" and "unat hi \<le> npages s"
  shows "\<exists>s'. forE lo hi pmm_bitmap_set s = Inr s'
     \<and> bitmap_now s (\<lambda>q. (unat lo \<le> q \<and> q < unat hi) \<or> page_used s q) s'"
  using assms(1)
proof (rule forE_total_rule)
  show "bitmap_now s (\<lambda>q. (unat lo \<le> q \<and> q < unat lo) \<or> page_used s q) s"
    by (rule bitmap_now_cong [OF bitmap_now_refl]) auto
next
  fix k s1
  assume k: "lo \<le> k" "k < hi"
    and now: "bitmap_now s (\<lambda>q. (unat lo \<le> q \<and> q < unat k) \<or> page_used s q) s1"
  have "unat k < npages s1"
    using k(2) assms(2) bitmap_now_fields(4) [OF now] by (simp add: word_less_nat_alt)
  then obtain s2 where s2: "pmm_bitmap_set k s1 = Inr s2"
      "bitmap_now s1 (\<lambda>q. q = unat k \<or> page_used s1 q) s2"
    using pmm_bitmap_set_ok by blast
  have "bitmap_now s (\<lambda>q. (unat lo \<le> q \<and> q < Suc (unat k)) \<or> page_used s q) s2"
    by (rule bitmap_now_cong [OF bitmap_now_trans [OF now s2(2)]])
      (use k(1) bitmap_now_used [OF now] in \<open>auto simp: less_Suc_eq word_le_nat_alt\<close>)
  with s2(1) show "\<exists>s'. pmm_bitmap_set k s1 = Inr s'
      \<and> bitmap_now s (\<lambda>q. (unat lo \<le> q \<and> q < Suc (unat k)) \<or> page_used s q) s'"
    by blast
qed

lemma clear_range_ok:
  assumes "lo \<le> hi" and "unat hi \<le> npages s"
  shows "\<exists>s'. forE lo hi pmm_bitmap_clear s = Inr s'
     \<and> bitmap_now s (\<lambda>q. \<not> (unat lo \<le> q \<and> q < unat hi) \<and> page_used s q) s'"
  using assms(1)
proof (rule forE_total_rule)
  show "bitmap_now s (\<lambda>q. \<not> (unat lo \<le> q \<and> q < unat lo) \<and> page_used s q) s"
    by (rule bitmap_now_cong [OF bitmap_now_refl]) auto
next
  fix k s1
  assume k: "lo \<le> k" "k < hi"
    and now: "bitmap_now s (\<lambda>q. \<not> (unat lo \<le> q \<and> q < unat k) \<and> page_used s q) s1"
  have "unat k < npages s1"
    using k(2) assms(2) bitmap_now_fields(4) [OF now] by (simp add: word_less_nat_alt)
  then obtain s2 where s2: "pmm_bitmap_clear k s1 = Inr s2"
      "bitmap_now s1 (\<lambda>q. q \<noteq> unat k \<and> page_used s1 q) s2"
    using pmm_bitmap_clear_ok by blast
  have "bitmap_now s (\<lambda>q. \<not> (unat lo \<le> q \<and> q < Suc (unat k)) \<and> page_used s q) s2"
    by (rule bitmap_now_cong [OF bitmap_now_trans [OF now s2(2)]])
      (use k(1) bitmap_now_used [OF now] in \<open>auto simp: less_Suc_eq word_le_nat_alt\<close>)
  with s2(1) show "\<exists>s'. pmm_bitmap_clear k s1 = Inr s'
      \<and> bitmap_now s (\<lambda>q. \<not> (unat lo \<le> q \<and> q < Suc (unat k)) \<and> page_used s q) s'"
    by blast
qed

section \<open>The first-fit search\<close>

text \<open>A run of \<open>n\<close> free pages from \<open>b\<close> on, and the invariant of the scan before page \<open>p\<close>.\<close>

definition free_run :: "kstate \<Rightarrow> nat \<Rightarrow> nat \<Rightarrow> bool" where
  "free_run s b n \<longleftrightarrow> {b..<b + n} \<subseteq> free_pages s"

definition scan_inv :: "kstate \<Rightarrow> nat \<Rightarrow> nat \<Rightarrow> scan \<Rightarrow> bool" where
  "scan_inv s n p sc \<longleftrightarrow>
     (\<exists>k. k < n \<and> k \<le> p \<and> pagesFoundInChunk sc = of_nat k \<and> (inChunk sc \<longleftrightarrow> 0 < k)
       \<and> (0 < k \<longrightarrow> basePage sc = of_nat (p - k))
       \<and> (\<forall>q. p - k \<le> q \<and> q < p \<longrightarrow> \<not> page_used s q)
       \<and> (k < p \<longrightarrow> page_used s (p - k - 1))
       \<and> (\<forall>b. b + n \<le> p \<longrightarrow> (\<exists>q. b \<le> q \<and> q < b + n \<and> page_used s q)))"

lemma scan_page_step:
  assumes inv: "scan_inv s n (8 * unat i + unat j) sc" and j: "j < 8"
    and pages: "pages = of_nat n" and n: "n < 2 ^ 31"
  shows "case scan_page pages s i j sc of
      Inl b \<Rightarrow> \<exists>p. b = of_nat p \<and> p + n = Suc (8 * unat i + unat j)
        \<and> (\<forall>q. p \<le> q \<and> q < p + n \<longrightarrow> \<not> page_used s q)
        \<and> (\<forall>b<p. \<exists>q. b \<le> q \<and> q < b + n \<and> page_used s q)
    | Inr sc' \<Rightarrow> scan_inv s n (Suc (8 * unat i + unat j)) sc'"
proof -
  define p where "p = 8 * unat i + unat j"
  have uj: "unat j < 8" using j by (simp add: word_less_nat_alt)
  have pd: "p div 8 = unat i" "p mod 8 = unat j" using uj by (simp_all add: p_def)
  have used: "mem s (bitmap s + i) AND drop_bit (unat j) 0b10000000 = 0 \<longleftrightarrow> \<not> page_used s p"
    using mask_AND_eq_0 [OF uj] by (simp add: page_used_def pd)
  have w: "i * 8 + ucast j = (of_nat p :: u64)"
  proof -
    have "(of_nat (unat j) :: u64) = ucast j" by simp
    then show ?thesis by (simp add: p_def mult.commute)
  qed
  obtain k where k: "k < n" "k \<le> p" "pagesFoundInChunk sc = of_nat k" "inChunk sc \<longleftrightarrow> 0 < k"
      "0 < k \<longrightarrow> basePage sc = of_nat (p - k)"
      "\<forall>q. p - k \<le> q \<and> q < p \<longrightarrow> \<not> page_used s q"
      "k < p \<longrightarrow> page_used s (p - k - 1)"
      "\<forall>b. b + n \<le> p \<longrightarrow> (\<exists>q. b \<le> q \<and> q < b + n \<and> page_used s q)"
    using inv unfolding scan_inv_def p_def [symmetric] by blast
  have eqn: "(of_nat k + 1 :: cint) = pages \<longleftrightarrow> Suc k = n"
  proof -
    have "(of_nat (Suc k) :: cint) = of_nat n \<longleftrightarrow> Suc k = n"
      using k(1) n by (metis sint_of_nat_cint Suc_lessI less_trans of_nat_eq_iff)
    then show ?thesis by (simp add: pages ac_simps)
  qed
  show ?thesis
    unfolding p_def [symmetric]
  proof (cases "page_used s p")
    case True
    have "\<exists>q. b \<le> q \<and> q < b + n \<and> page_used s q" if "b + n \<le> Suc p" for b
    proof (cases "b + n = Suc p")
      case True
      then show ?thesis using \<open>page_used s p\<close> k(1) by (intro exI [of _ p]) auto
    qed (use that k(8) in auto)
    then have "scan_inv s n (Suc p) (sc\<lparr>inChunk := False, pagesFoundInChunk := 0\<rparr>)"
      unfolding scan_inv_def using True k(1) by (intro exI [of _ 0]) auto
    then show "case scan_page pages s i j sc of
      Inl b \<Rightarrow> \<exists>p'. b = of_nat p' \<and> p' + n = Suc p
        \<and> (\<forall>q. p' \<le> q \<and> q < p' + n \<longrightarrow> \<not> page_used s q)
        \<and> (\<forall>b<p'. \<exists>q. b \<le> q \<and> q < b + n \<and> page_used s q)
      | Inr sc' \<Rightarrow> scan_inv s n (Suc p) sc'"
      using True used by (simp add: scan_page_def)
  next
    case False
    define sc1 where "sc1 = (if \<not> inChunk sc then sc\<lparr>basePage := of_nat p, inChunk := True\<rparr> else sc)
        \<lparr>pagesFoundInChunk := of_nat k + 1\<rparr>"
    have sc1: "basePage sc1 = of_nat (p - k)" "inChunk sc1"
      using k(4,5) by (auto simp: sc1_def)
    have step: "scan_page pages s i j sc = (if Suc k = n then Inl (of_nat (p - k)) else Inr sc1)"
    proof -
      have "scan_page pages s i j sc = (if pagesFoundInChunk sc1 = pages then Inl (basePage sc1) else Inr sc1)"
        using False used k(3) by (simp add: scan_page_def Let_def sc1_def w)
      moreover have "pagesFoundInChunk sc1 = of_nat k + 1" by (simp add: sc1_def)
      ultimately show ?thesis using eqn sc1(1) by simp
    qed
    show "case scan_page pages s i j sc of
      Inl b \<Rightarrow> \<exists>p'. b = of_nat p' \<and> p' + n = Suc p
        \<and> (\<forall>q. p' \<le> q \<and> q < p' + n \<longrightarrow> \<not> page_used s q)
        \<and> (\<forall>b<p'. \<exists>q. b \<le> q \<and> q < b + n \<and> page_used s q)
      | Inr sc' \<Rightarrow> scan_inv s n (Suc p) sc'"
    proof (cases "Suc k = n")
      case True
      have early: "\<exists>q. b \<le> q \<and> q < b + n \<and> page_used s q" if "b < p - k" for b
      proof (cases "b + n \<le> p")
        case True
        then show ?thesis using k(8) by blast
      next
        case False
        with that k(2,7) \<open>Suc k = n\<close> show ?thesis by (intro exI [of _ "p - k - 1"]) auto
      qed
      have end_eq: "p - k + n = Suc p" using True k(2) by simp
      have free: "\<forall>q. p - k \<le> q \<and> q < p - k + n \<longrightarrow> \<not> page_used s q"
        unfolding end_eq using k(6) False by (auto simp: less_Suc_eq)
      show ?thesis
        unfolding step if_P [OF True] sum.case
        using early end_eq free by (intro exI [of _ "p - k"] conjI refl) auto
    next
      case ne: False
      have "scan_inv s n (Suc p) sc1"
        unfolding scan_inv_def
      proof (intro exI [of _ "Suc k"] conjI)
        show "\<forall>b. b + n \<le> Suc p \<longrightarrow> (\<exists>q. b \<le> q \<and> q < b + n \<and> page_used s q)"
        proof (intro allI impI)
          fix b
          assume b: "b + n \<le> Suc p"
          show "\<exists>q. b \<le> q \<and> q < b + n \<and> page_used s q"
          proof (cases "b + n \<le> p")
            case True
            then show ?thesis using k(8) by blast
          next
            case False
            with b k(1,2,7) ne show ?thesis by (intro exI [of _ "p - k - 1"]) auto
          qed
        qed
      qed (use k sc1 ne False in \<open>auto simp: sc1_def less_Suc_eq\<close>)
      then show ?thesis using step ne by simp
    qed
  qed
qed


lemma scan_pages_spec:
  assumes pages: "pages = of_nat n" and n: "0 < n" "n < 2 ^ 31"
  shows "case scan_pages pages s of
      Inl b \<Rightarrow> \<exists>p. b = of_nat p \<and> free_run s p n \<and> p + n \<le> npages s \<and> (\<forall>b<p. \<not> free_run s b n)
    | Inr _ \<Rightarrow> \<forall>b. \<not> free_run s b n"
proof -
  let ?Q = "\<lambda>b. \<exists>p. b = of_nat p \<and> p + n \<le> npages s
      \<and> (\<forall>q. p \<le> q \<and> q < p + n \<longrightarrow> \<not> page_used s q)
      \<and> (\<forall>b<p. \<exists>q. b \<le> q \<and> q < b + n \<and> page_used s q)"
  have "case scan_pages pages s of Inl b \<Rightarrow> ?Q b
    | Inr sc \<Rightarrow> scan_inv s n (8 * unat (bitmapSize s)) sc"
    unfolding scan_pages_def
  proof (rule forE_rule [where P = "\<lambda>k. scan_inv s n (8 * k)"])
    show "scan_inv s n (8 * unat (0 :: u64)) \<lparr>inChunk = False, pagesFoundInChunk = 0, basePage = 0\<rparr>"
      using n(1) by (auto simp: scan_inv_def)
  next
    fix i sc
    assume i: "i < bitmapSize s" and inv: "scan_inv s n (8 * unat i) sc"
    have "case forE 0 8 (scan_page pages s i) sc of Inl b \<Rightarrow> ?Q b
      | Inr sc' \<Rightarrow> scan_inv s n (8 * unat i + unat (8 :: u8)) sc'"
    proof (rule forE_rule [where P = "\<lambda>k. scan_inv s n (8 * unat i + k)"])
      fix j :: u8 and sc1
      assume j: "j < 8" and inv: "scan_inv s n (8 * unat i + unat j) sc1"
      have "Suc (8 * unat i + unat j) \<le> npages s"
        using i j by (simp add: npages_def word_less_nat_alt)
      then show "case scan_page pages s i j sc1 of Inl b \<Rightarrow> ?Q b
        | Inr sc' \<Rightarrow> scan_inv s n (8 * unat i + Suc (unat j)) sc'"
        using scan_page_step [OF inv j pages n(2)] by (auto split: sum.splits)
    qed (use inv in simp_all)
    moreover have "8 * unat i + unat (8 :: u8) = 8 * Suc (unat i)" by simp
    ultimately show "case forE 0 8 (scan_page pages s i) sc of Inl b \<Rightarrow> ?Q b
      | Inr sc' \<Rightarrow> scan_inv s n (8 * Suc (unat i)) sc'"
      by (simp only:)
  qed simp
  then show ?thesis
  proof (cases "scan_pages pages s")
    case (Inl b)
    have run: "free_run s p n \<longleftrightarrow> (\<forall>q. p \<le> q \<and> q < p + n \<longrightarrow> \<not> page_used s q)"
      if "p + n \<le> npages s" for p
      using that by (auto simp: free_run_def free_pages_def)
    have no: "\<not> free_run s b n" if "\<exists>q. b \<le> q \<and> q < b + n \<and> page_used s q" for b
      using that by (auto simp: free_run_def free_pages_def)
    show ?thesis
      using \<open>case scan_pages pages s of Inl b \<Rightarrow> ?Q b | Inr sc \<Rightarrow> _ sc\<close> Inl run no by force
  next
    case (Inr sc)
    then have inv: "scan_inv s n (npages s) sc"
      using \<open>case scan_pages pages s of Inl b \<Rightarrow> ?Q b | Inr sc \<Rightarrow> _ sc\<close> by (simp add: npages_def)
    have "\<not> free_run s b n" for b
    proof
      assume r: "free_run s b n"
      then have "b + n - 1 \<in> free_pages s" using n(1) by (auto simp: free_run_def)
      then have "b + n \<le> npages s" by (auto simp: free_pages_def)
      then obtain q where "b \<le> q" "q < b + n" "page_used s q"
        using inv unfolding scan_inv_def by blast
      then show False using r by (auto simp: free_run_def free_pages_def)
    qed
    with Inr show ?thesis by simp
  qed
qed

lemma cint_of_nat:
  assumes "0 < sint pages"
  shows "(pages :: cint) = of_nat (nat (sint pages))" and "nat (sint pages) < 2 ^ 31"
    and "(scast pages :: u64) = of_nat (nat (sint pages))"
proof -
  have "sint pages < 2 ^ 31" using sint_lt [of pages] by simp
  then show "nat (sint pages) < 2 ^ 31" using assms by simp
  have e: "int (nat (sint pages)) = sint pages" using assms by simp
  have "pages = word_of_int (sint pages)" by simp
  also have "\<dots> = word_of_int (int (nat (sint pages)))" by (simp only: e)
  also have "\<dots> = of_nat (nat (sint pages))" by (rule of_int_of_nat_eq)
  finally show "pages = of_nat (nat (sint pages))" .
  have "(scast pages :: u64) = word_of_int (sint pages)" by (rule scast_eq)
  also have "\<dots> = word_of_int (int (nat (sint pages)))" by (simp only: e)
  also have "\<dots> = of_nat (nat (sint pages))" by (rule of_int_of_nat_eq)
  finally show "(scast pages :: u64) = of_nat (nat (sint pages))" .
qed

definition oom_message :: string where
  "oom_message = log_prefix LOGLEVEL_FATAL @ ''Kernel Panic! '' @ ''Out of Memory!''"

lemma pmm_find_spec:
  assumes "0 < sint pages"
  defines "n \<equiv> nat (sint pages)"
  shows "case pmm_find_free_pages pages s of
      Inr b \<Rightarrow> \<exists>p. b = of_nat p \<and> free_run s p n \<and> p + n \<le> npages s \<and> (\<forall>b<p. \<not> free_run s b n)
    | Inl e \<Rightarrow> e = Halted (con s @ oom_message) \<and> (\<forall>b. \<not> free_run s b n)"
proof -
  have "pages = of_nat n" "0 < n" "n < 2 ^ 31"
    using cint_of_nat(1,2) [OF assms(1)] assms(1) unfolding n_def by simp_all
  from scan_pages_spec [OF this, of s] show ?thesis
    unfolding pmm_find_free_pages_def
    by (cases "scan_pages pages s") (simp_all add: kpanic_literal oom_message_def)
qed

text \<open>
  Page numbers below \<open>2 ^ 52\<close>: the physical addresses of the tracked pages are 64-bit
  numbers, so the shift by 12 loses nothing.
\<close>

definition pmm_wf :: "kstate \<Rightarrow> bool" where
  "pmm_wf s \<longleftrightarrow> npages s \<le> 2 ^ 52"

lemma pmm_alloc_spec:
  assumes "0 < sint pages" and wf: "pmm_wf s"
  defines "n \<equiv> nat (sint pages)"
  shows "case pmm_alloc pages s of
      Inr (a, s') \<Rightarrow> \<exists>p. a = of_nat (p * 4096) \<and> p + n \<le> npages s
        \<and> free_run s p n \<and> (\<forall>b<p. \<not> free_run s b n)
        \<and> bitmap_now s (\<lambda>q. (p \<le> q \<and> q < p + n) \<or> page_used s q) s'
    | Inl e \<Rightarrow> e = Halted (con s @ oom_message) \<and> (\<forall>b. \<not> free_run s b n)"
proof (cases "pmm_find_free_pages pages s")
  case (Inl e)
  then show ?thesis
    using pmm_find_spec [OF assms(1), of s] by (simp add: pmm_alloc_def n_def)
next
  case (Inr b)
  then obtain p where p: "b = of_nat p" "free_run s p n" "p + n \<le> npages s"
      "\<forall>b<p. \<not> free_run s b n"
    using pmm_find_spec [OF assms(1), of s] by (auto simp: n_def)
  have small: "p + n \<le> 2 ^ 52" using p(3) wf by (simp add: pmm_wf_def)
  then have "p < 2 ^ 64" "p + n < 2 ^ 64" by simp_all
  note up = this [THEN unat_of_nat_64]
  have hi: "of_nat p + scast pages = (of_nat (p + n) :: u64)"
    using cint_of_nat(3) [OF assms(1)] by (simp add: n_def)
  have "\<exists>s'. forE (of_nat p) (of_nat (p + n)) pmm_bitmap_set s = Inr s'
     \<and> bitmap_now s (\<lambda>q. (unat (of_nat p :: u64) \<le> q \<and> q < unat (of_nat (p + n) :: u64)) \<or> page_used s q) s'"
    by (rule set_range_ok) (simp_all only: word_le_nat_alt up p(3) le_add1)
  then obtain s' where s': "forE (of_nat p) (of_nat (p + n)) pmm_bitmap_set s = Inr s'"
      "bitmap_now s (\<lambda>q. (p \<le> q \<and> q < p + n) \<or> page_used s q) s'"
    unfolding up by blast
  have "pmm_alloc pages s = Inr (push_bit 12 (of_nat p), s')"
    unfolding pmm_alloc_def Inr bindE.simps p(1) hi s'(1) ..
  moreover have "push_bit 12 (of_nat p :: u64) = of_nat (p * 4096)"
    by (simp add: push_bit_eq_mult)
  ultimately show ?thesis using p s'(2) by auto
qed

section \<open>Freeing\<close>

text \<open>The page of a kernel virtual address, through the direct map.\<close>

definition page_of :: "limine \<Rightarrow> u64 \<Rightarrow> nat" where
  "page_of L x = unat (x - boot_proto_hhdm_offset L) div 4096"

lemma page_of_lt: "page_of L x < 2 ^ 52"
  unfolding page_of_def by (rule less_mult_imp_div_less) simp

lemma in_rng_pages:
  assumes "p + n \<le> 2 ^ 52"
  shows "in_rng (of_nat (p * 4096) + boot_proto_hhdm_offset L) (n * 4096) x
    \<longleftrightarrow> p \<le> page_of L x \<and> page_of L x < p + n"
proof (cases "p < 2 ^ 52")
  case True
  let ?h = "boot_proto_hhdm_offset L" and ?a = "of_nat (p * 4096) :: u64"
  have ua: "unat ?a = p * 4096" using True by (intro unat_of_nat_64) simp
  have nw: "no_wrap ?a (n * 4096)" unfolding no_wrap_def ua using assms by simp
  have "in_rng (?a + ?h) (n * 4096) x \<longleftrightarrow> in_rng ?a (n * 4096) (x - ?h)"
    unfolding in_rng_def by (simp add: algebra_simps)
  also have "\<dots> \<longleftrightarrow> p * 4096 \<le> unat (x - ?h) \<and> unat (x - ?h) < p * 4096 + n * 4096"
    unfolding in_rng_nat [OF nw] ua ..
  also have "\<dots> \<longleftrightarrow> p \<le> page_of L x \<and> page_of L x < p + n"
    unfolding page_of_def
    by (simp add: less_eq_div_iff_mult_less_eq div_less_iff_less_mult algebra_simps)
  finally show ?thesis .
next
  case False
  then have "n = 0" and "\<not> p \<le> page_of L x" using assms page_of_lt [of L x] by auto
  then show ?thesis by (simp add: in_rng_def)
qed

lemma page_used_frame:
  assumes "\<And>x. in_rng (bitmap s) (unat (bitmapSize s)) x \<Longrightarrow> m x = mem s x" and "q < npages s"
  shows "page_used (s\<lparr>mem := m\<rparr>) q = page_used s q"
proof -
  have "q div 8 < unat (bitmapSize s)" using assms(2) by (auto simp: npages_def)
  then have "m (bitmap s + of_nat (q div 8)) = mem s (bitmap s + of_nat (q div 8))"
    using less_unat_64 by (intro assms(1) in_rng_offset) auto
  then show ?thesis by (simp add: page_used_def)
qed

lemma free_size:
  fixes pages :: cint
  assumes "0 < sint pages" and "nat (sint pages) < 2 ^ 19"
  shows "unat (scast (4096 * pages) :: u64) = nat (sint pages) * 4096"
proof -
  let ?n = "nat (sint pages)"
  have "4096 * pages = of_nat (?n * 4096)"
    using cint_of_nat(1) [OF assms(1)] by (metis mult.commute of_nat_mult of_nat_numeral)
  moreover have lt: "?n * 4096 < 2 ^ 31" using assms(2) by simp
  ultimately have s: "sint (4096 * pages) = int (?n * 4096)" using sint_of_nat_cint by metis
  then have "0 < sint (4096 * pages)" using assms(1) by simp
  then have "(scast (4096 * pages) :: u64) = of_nat (nat (sint (4096 * pages)))"
    by (rule cint_of_nat(3))
  then have "(scast (4096 * pages) :: u64) = of_nat (?n * 4096)"
    unfolding s nat_int .
  moreover have "unat (of_nat (?n * 4096) :: u64) = ?n * 4096"
    using lt by (intro unat_of_nat_64) simp
  ultimately show ?thesis by metis
qed

lemma pmm_free_spec:
  assumes wf: "pmm_wf s" and n0: "0 < sint pages" and "nat (sint pages) < 2 ^ 19"
  defines "n \<equiv> nat (sint pages)"
  assumes range: "p + n \<le> npages s"
    and safe: "\<And>x. in_rng (bitmap s) (unat (bitmapSize s)) x \<Longrightarrow> page_of L x \<notin> {p..<p + n}"
  shows "\<exists>s'. pmm_free L (of_nat (p * 4096)) pages s = Inr (0, s')
     \<and> s' = s\<lparr>mem := mem s'\<rparr> \<and> free_pages s' = free_pages s \<union> {p..<p + n}
     \<and> (\<forall>x. mem s' x = (if page_of L x \<in> {p..<p + n} then 0xff
            else if in_rng (bitmap s) (unat (bitmapSize s)) x then mem s' x else mem s x))"
proof -
  have small: "p + n \<le> 2 ^ 52" using range wf by (simp add: pmm_wf_def)
  have "0 < n" using n0 by (simp add: n_def)
  then have lts: "p < 2 ^ 64" "p + n < 2 ^ 64" "p * 4096 < 2 ^ 64" using small by simp_all
  note up = lts [THEN unat_of_nat_64]
  have lo: "drop_bit 12 (of_nat (p * 4096)) = (of_nat p :: u64)"
    unfolding word_unat_eq_iff by (simp only: unat_drop_bit_eq up) (simp add: drop_bit_eq_div)
  have hi: "of_nat p + scast pages = (of_nat (p + n) :: u64)"
    using cint_of_nat(3) [OF n0] by (simp add: n_def)
  have "\<exists>s1. forE (of_nat p) (of_nat (p + n)) pmm_bitmap_clear s = Inr s1
     \<and> bitmap_now s (\<lambda>q. \<not> (unat (of_nat p :: u64) \<le> q \<and> q < unat (of_nat (p + n) :: u64))
          \<and> page_used s q) s1"
    by (rule clear_range_ok) (simp_all only: word_le_nat_alt up range le_add1)
  then obtain s1 where s1: "forE (of_nat p) (of_nat (p + n)) pmm_bitmap_clear s = Inr s1"
      and now: "bitmap_now s (\<lambda>q. \<not> (p \<le> q \<and> q < p + n) \<and> page_used s q) s1"
    unfolding up by blast
  define m where "m = snd (memset (of_nat (p * 4096) + boot_proto_hhdm_offset L) 0xff
               (scast (4096 * pages)) (mem s1))"
  have m: "m x = (if page_of L x \<in> {p..<p + n} then 0xff else mem s1 x)" for x
    using in_rng_pages [OF small, of L x] free_size [OF n0 assms(3)]
    unfolding m_def memset_apply by (simp add: n_def)
  note fields = bitmap_now_fields [OF now]
  have used: "page_used (s1\<lparr>mem := m\<rparr>) q = page_used s1 q" if "q < npages s1" for q
    using that safe by (intro page_used_frame) (auto simp: m fields(1-4))
  have "free_pages (s1\<lparr>mem := m\<rparr>) = free_pages s1"
    using used by (auto simp: free_pages_def npages_def)
  also have "\<dots> = free_pages s \<union> {p..<p + n}"
    using range unfolding free_pages_now [OF now] by (auto simp: free_pages_def)
  finally have fp: "free_pages (s1\<lparr>mem := m\<rparr>) = free_pages s \<union> {p..<p + n}" .
  have "pmm_free L (of_nat (p * 4096)) pages s = Inr (0, s1\<lparr>mem := m\<rparr>)"
    by (simp only: pmm_free_def lo hi s1 bindE.simps m_def)
  moreover have "s1\<lparr>mem := m\<rparr> = s\<lparr>mem := m\<rparr>" by (subst fields(5)) simp
  ultimately show ?thesis
    using fp bitmap_now_frame [OF now] by (intro exI [of _ "s1\<lparr>mem := m\<rparr>"]) (auto simp: m)
qed

section \<open>The allocator interface\<close>

text \<open>
  The state between operations, for a set \<open>M\<close> of managed pages: every free page is managed,
  managed pages are tracked by the bitmap, and no byte of the bitmap lies in one.
\<close>

definition pmm_ready :: "limine \<Rightarrow> nat set \<Rightarrow> kstate \<Rightarrow> bool" where
  "pmm_ready L M s \<longleftrightarrow> pmm_wf s \<and> free_pages s \<subseteq> M \<and> M \<subseteq> {..<npages s}
     \<and> (\<forall>x. in_rng (bitmap s) (unat (bitmapSize s)) x \<longrightarrow> page_of L x \<notin> M)"

definition frames :: "u64 \<Rightarrow> cint \<Rightarrow> nat set" where
  "frames addr pages = {unat addr div 4096 ..< unat addr div 4096 + nat (sint pages)}"

definition page_aligned :: "u64 \<Rightarrow> bool" where
  "page_aligned addr \<longleftrightarrow> unat addr mod 4096 = 0"

definition small_request :: "cint \<Rightarrow> bool" where
  "small_request pages \<longleftrightarrow> 0 < sint pages \<and> nat (sint pages) < 2 ^ 19"

definition pmm_release :: "limine \<Rightarrow> u64 \<Rightarrow> cint \<Rightarrow> kstate \<Rightarrow> kerror + kstate" where
  "pmm_release L addr pages s = bindE (pmm_free L addr pages s) (\<lambda>(_, s). Inr s)"

lemma frames_of_page:
  assumes "p < 2 ^ 52"
  shows "unat (of_nat (p * 4096) :: u64) = p * 4096" and "page_aligned (of_nat (p * 4096))"
    and "frames (of_nat (p * 4096)) pages = {p..<p + nat (sint pages)}"
proof -
  show u: "unat (of_nat (p * 4096) :: u64) = p * 4096"
    using assms by (intro unat_of_nat_64) simp
  show "page_aligned (of_nat (p * 4096))" unfolding page_aligned_def u by simp
  show "frames (of_nat (p * 4096)) pages = {p..<p + nat (sint pages)}"
    unfolding frames_def u by simp
qed

lemma page_aligned_of_nat:
  assumes "page_aligned a"
  shows "a = of_nat (unat a div 4096 * 4096)"
proof -
  have "unat a div 4096 * 4096 = unat a"
    using assms div_mult_mod_eq [of "unat a" 4096] by (simp only: page_aligned_def add_0_right)
  then show ?thesis by (simp only: of_nat_unat ucast_id)
qed

lemma pmm_alloc_law:
  assumes ready: "pmm_ready L M s" and ok: "small_request pages"
    and eq: "pmm_alloc pages s = Inr (a, s')"
  shows "frames a pages \<subseteq> free_pages s \<and> page_aligned a
     \<and> free_pages s' = free_pages s - frames a pages \<and> pmm_ready L M s'"
proof -
  let ?n = "nat (sint pages)"
  have wf: "pmm_wf s" and pos: "0 < sint pages"
    using ready ok by (auto simp: pmm_ready_def small_request_def)
  obtain p where p: "a = of_nat (p * 4096)" "p + ?n \<le> npages s" "free_run s p ?n"
      "bitmap_now s (\<lambda>q. (p \<le> q \<and> q < p + ?n) \<or> page_used s q) s'"
    using pmm_alloc_spec [OF pos wf] eq by auto
  have "p < 2 ^ 52" using p(2) pos wf by (simp add: pmm_wf_def)
  note fr = frames_of_page [OF this]
  have fp: "free_pages s' = free_pages s - frames a pages"
    unfolding free_pages_now [OF p(4)] p(1) fr(3) by (auto simp: free_pages_def)
  then show ?thesis
    using p(3) fr ready bitmap_now_fields [OF p(4)]
    by (auto simp: p(1) free_run_def pmm_ready_def pmm_wf_def simp del: of_nat_mult)
qed

lemma pmm_release_law:
  assumes ready: "pmm_ready L M s" and ok: "small_request pages"
    and al: "page_aligned a" and sub: "frames a pages \<subseteq> M"
  shows "\<exists>s'. pmm_release L a pages s = Inr s'
     \<and> free_pages s' = free_pages s \<union> frames a pages \<and> pmm_ready L M s'"
proof -
  let ?n = "nat (sint pages)" and ?p = "unat a div 4096"
  have wf: "pmm_wf s" and pos: "0 < sint pages" and n: "?n < 2 ^ 19"
    using ready ok by (auto simp: pmm_ready_def small_request_def)
  have "?p + ?n - 1 \<in> M" using sub pos by (auto simp: frames_def)
  then have range: "?p + ?n \<le> npages s" using ready pos by (auto simp: pmm_ready_def)
  have safe: "page_of L x \<notin> {?p..<?p + ?n}"
    if "in_rng (bitmap s) (unat (bitmapSize s)) x" for x
    using that ready sub by (auto simp: pmm_ready_def frames_def)
  obtain s' where s': "pmm_free L a pages s = Inr (0, s')" "s' = s\<lparr>mem := mem s'\<rparr>"
      "free_pages s' = free_pages s \<union> {?p..<?p + ?n}"
    using pmm_free_spec [OF wf pos n range safe] page_aligned_of_nat [OF al] by metis
  have f: "bitmap s' = bitmap s" "bitmapSize s' = bitmapSize s"
    by (subst s'(2), simp)+
  then have "pmm_ready L M s'"
    using ready s'(3) sub by (auto simp: pmm_ready_def pmm_wf_def npages_def frames_def)
  then show ?thesis using s'(1,3) by (auto simp: pmm_release_def frames_def)
qed

interpretation frame_alloc:
    range_allocator pmm_alloc "pmm_release L" frames free_pages "pmm_ready L M" small_request page_aligned M
  for L :: limine and M :: "nat set"
proof (unfold_locales, goal_cases)
  case (1 s n a s')
  then show ?case by (rule pmm_alloc_law)
next
  case (2 s n a)
  then show ?case by (rule pmm_release_law)
next
  case (3 s)
  then show ?case by (simp add: pmm_ready_def)
qed

section \<open>Clients of the allocator\<close>

text \<open>
  The steps of the allocator and the rest of the kernel: an allocation (of less than 2 GiB), a
  release of a live allocation, and any other code, which may change all of the state but the
  allocator's variables and the bytes of its bitmap. The ledger lists the live allocations.
\<close>

inductive pmm_step :: "limine \<Rightarrow> kstate \<times> (u64 \<times> cint) list \<Rightarrow> kstate \<times> (u64 \<times> cint) list \<Rightarrow> bool"
  for L :: limine where
  step_alloc: "small_request pages \<Longrightarrow> pmm_alloc pages s = Inr (a, s') \<Longrightarrow>
     pmm_step L (s, live) (s', (a, pages) # live)"
| step_free: "pmm_free L a pages s = Inr (r, s') \<Longrightarrow>
     pmm_step L (s, xs @ (a, pages) # ys) (s', xs @ ys)"
| step_other: "bitmap s' = bitmap s \<Longrightarrow> bitmapSize s' = bitmapSize s \<Longrightarrow>
     (\<And>x. in_rng (bitmap s) (unat (bitmapSize s)) x \<Longrightarrow> mem s' x = mem s x) \<Longrightarrow>
     pmm_step L (s, live) (s', live)"

inductive pmm_reachable :: "limine \<Rightarrow> kstate \<Rightarrow> kstate \<times> (u64 \<times> cint) list \<Rightarrow> bool"
  for L :: limine and s0 :: kstate where
  reach_start: "pmm_reachable L s0 (s0, [])"
| reach_step: "pmm_reachable L s0 c \<Longrightarrow> pmm_step L c c' \<Longrightarrow> pmm_reachable L s0 c'"

lemma pmm_ready_other:
  assumes "bitmap s' = bitmap s" and "bitmapSize s' = bitmapSize s"
    and "\<And>x. in_rng (bitmap s) (unat (bitmapSize s)) x \<Longrightarrow> mem s' x = mem s x"
  shows "free_pages s' = free_pages s" and "pmm_ready L M s' \<longleftrightarrow> pmm_ready L M s"
proof -
  have "page_used s' q = page_used s q" if "q < npages s" for q
    using page_used_frame [OF assms(3) that] assms(1) by (simp add: page_used_def)
  then show "free_pages s' = free_pages s" using assms(2) by (auto simp: free_pages_def npages_def)
  then show "pmm_ready L M s' \<longleftrightarrow> pmm_ready L M s"
    using assms(1,2) by (simp add: pmm_ready_def pmm_wf_def npages_def)
qed

lemma pmm_step_ledger:
  "pmm_step L c c' \<Longrightarrow> frame_alloc.ledger L M (fst c) (snd c) \<Longrightarrow> frame_alloc.ledger L M (fst c') (snd c')"
proof (induction rule: pmm_step.induct)
  case (step_alloc pages s a s' live)
  then show ?case using frame_alloc.ledger_alloc [of L M s live pages a s'] by simp
next
  case (step_free a pages s r s' xs ys)
  then have "pmm_release L a pages s = Inr s'" by (simp add: pmm_release_def)
  then show ?case using frame_alloc.ledger_release [of L M s xs a pages ys] step_free.prems by auto
next
  case (step_other s' s live)
  then show ?case
    using pmm_ready_other(1) [of s' s] pmm_ready_other(2) [of s' s L M]
    by (simp add: frame_alloc.ledger_def)
qed

lemma pmm_reachable_ledger:
  assumes "pmm_ready L M s0" and "free_pages s0 = M"
  shows "pmm_reachable L s0 c \<Longrightarrow> frame_alloc.ledger L M (fst c) (snd c)"
proof (induction rule: pmm_reachable.induct)
  case reach_start
  then show ?case using assms by (simp add: frame_alloc.ledger_def)
next
  case (reach_step c c')
  then show ?case by (blast intro: pmm_step_ledger)
qed

end
