(* ===== verification/Pmm_Init.thy ===== *)
theory Pmm_Init
  imports Pmm
begin

text \<open>
  What \<^verbatim>\<open>pmm_init\<close> establishes. The memory map is described by natural numbers; the
  well-formedness it needs is what the boot protocol documents for usable entries (page
  aligned, sorted, not overlapping), and that the direct map does not wrap around.
\<close>

definition usable :: "limine \<Rightarrow> nat \<Rightarrow> bool" where
  "usable L i \<longleftrightarrow> i < entry_count L \<and> entry_type (memmap_entry L i) = BOOT_PROTO_MEMMAP_USABLE"

definition ebase :: "limine \<Rightarrow> nat \<Rightarrow> nat" where
  "ebase L i = unat (entry_base (memmap_entry L i))"

definition elen :: "limine \<Rightarrow> nat \<Rightarrow> nat" where
  "elen L i = unat (entry_length (memmap_entry L i))"

definition entry_pages :: "limine \<Rightarrow> nat \<Rightarrow> nat set" where
  "entry_pages L i = {ebase L i div 4096 ..< (ebase L i + elen L i) div 4096}"

definition usable_pages :: "limine \<Rightarrow> nat set" where
  "usable_pages L = (\<Union>i \<in> {i. usable L i}. entry_pages L i)"

definition memmap_ok :: "limine \<Rightarrow> bool" where
  "memmap_ok L \<longleftrightarrow> 0 < entry_count L \<and> entry_count L < 2 ^ 64
     \<and> (\<forall>i. usable L i \<longrightarrow> ebase L i mod 4096 = 0 \<and> elen L i mod 4096 = 0
          \<and> ebase L i + elen L i + unat (boot_proto_hhdm_offset L) < 2 ^ 64)
     \<and> (\<forall>i j. i < j \<longrightarrow> usable L i \<longrightarrow> usable L j \<longrightarrow> ebase L i + elen L i \<le> ebase L j)"

text \<open>The last usable entry (never entry 0), the size of the bitmap, the entry it is placed in.\<close>

definition is_last_usable :: "limine \<Rightarrow> nat \<Rightarrow> bool" where
  "is_last_usable L k \<longleftrightarrow> 0 < k \<and> usable L k \<and> (\<forall>i. k < i \<longrightarrow> \<not> usable L i)"

definition bitmap_bytes :: "limine \<Rightarrow> nat \<Rightarrow> nat" where
  "bitmap_bytes L k = ((ebase L k + elen L k) div 4096 + 7) div 8"

definition skip_base :: "limine \<Rightarrow> nat \<Rightarrow> nat" where
  "skip_base L i = (if ebase L i = 0 then 4096 else ebase L i)"

definition skip_len :: "limine \<Rightarrow> nat \<Rightarrow> nat" where
  "skip_len L i = (if ebase L i = 0 then elen L i - 4096 else elen L i)"

definition is_bitmap_entry :: "limine \<Rightarrow> nat \<Rightarrow> nat \<Rightarrow> bool" where
  "is_bitmap_entry L bsize i \<longleftrightarrow> usable L i \<and> bsize \<le> skip_len L i
     \<and> (\<forall>j<i. usable L j \<longrightarrow> skip_len L j < bsize)"

definition bitmap_pages :: "limine \<Rightarrow> nat \<Rightarrow> nat \<Rightarrow> nat set" where
  "bitmap_pages L bsize i = {skip_base L i div 4096 ..< skip_base L i div 4096 + (bsize + 4095) div 4096}"

section \<open>Entries\<close>

lemma get_entry:
  assumes "memmap_ok L" and "i < entry_count L"
  shows "boot_proto_memmap_entry_get L (of_nat i) s = Inr (memmap_entry L i, s)"
proof -
  have lt: "entry_count L < 2 ^ 64" using assms(1) by (simp add: memmap_ok_def)
  then have i: "unat (of_nat i :: u64) = i" using assms(2) by (intro unat_of_nat_64) simp
  then have "of_nat i < boot_proto_memmap_entry_count L"
    using assms(2) unat_entry_count [OF lt] by (simp add: word_less_nat_alt)
  then show ?thesis using memmap_entry_get [of "of_nat i" L s] i by simp
qed

lemma get_entry_word:
  assumes "memmap_ok L" and "i < boot_proto_memmap_entry_count L"
  shows "boot_proto_memmap_entry_get L i s = Inr (memmap_entry L (unat i), s)"
    and "unat i < entry_count L"
  using assms memmap_entry_get unat_entry_count [of L]
  by (auto simp: memmap_ok_def word_less_nat_alt)

lemma usable_facts:
  assumes "memmap_ok L" and "usable L i"
  shows "ebase L i mod 4096 = 0" "elen L i mod 4096 = 0"
    "ebase L i + elen L i + unat (boot_proto_hhdm_offset L) < 2 ^ 64" "i < entry_count L"
    "unat (entry_base (memmap_entry L i) + entry_length (memmap_entry L i)) = ebase L i + elen L i"
proof -
  show f: "ebase L i mod 4096 = 0" "elen L i mod 4096 = 0" "i < entry_count L"
    "ebase L i + elen L i + unat (boot_proto_hhdm_offset L) < 2 ^ 64"
    using assms by (auto simp: memmap_ok_def usable_def)
  have "ebase L i + elen L i < 2 ^ 64" using f(4) by simp
  then show "unat (entry_base (memmap_entry L i) + entry_length (memmap_entry L i)) = ebase L i + elen L i"
    unfolding ebase_def elen_def by (rule unat_add_no_wrap)
qed

lemma usable_end_le:
  assumes "memmap_ok L" and "is_last_usable L k" and "usable L i"
  shows "ebase L i + elen L i \<le> ebase L k + elen L k"
proof (cases "i < k")
  case True
  then have "ebase L i + elen L i \<le> ebase L k"
    using assms by (auto simp: memmap_ok_def is_last_usable_def)
  then show ?thesis by simp
next
  case False
  then have "i = k" using assms(2,3) by (auto simp: is_last_usable_def not_less le_less)
  then show ?thesis by simp
qed

lemma skip_page_0_nat:
  assumes "memmap_ok L" and "usable L i"
  shows "unat (entry_base (skip_page_0 (memmap_entry L i))) = skip_base L i"
    and "unat (entry_length (skip_page_0 (memmap_entry L i))) = skip_len L i"
proof -
  let ?e = "memmap_entry L i"
  have z: "entry_base ?e = 0 \<longleftrightarrow> ebase L i = 0" by (simp add: ebase_def unat_eq_zero)
  have ps: "unat (0 + PAGE_SIZE) = 4096" by simp
  show "unat (entry_base (skip_page_0 ?e)) = skip_base L i"
    using z ps by (auto simp: skip_page_0_def skip_base_def ebase_def)
  show "unat (entry_length (skip_page_0 ?e)) = skip_len L i"
    using z by (auto simp: skip_page_0_def skip_len_def elen_def word_le_nat_alt unat_sub_le)
qed

lemma skip_in_entry:
  assumes "memmap_ok L" and "usable L i" and "0 < skip_len L i"
  shows "skip_base L i mod 4096 = 0" "skip_len L i mod 4096 = 0"
    "ebase L i \<le> skip_base L i" "skip_base L i + skip_len L i = ebase L i + elen L i"
proof -
  note f = usable_facts [OF assms(1,2)]
  show "skip_base L i mod 4096 = 0" "ebase L i \<le> skip_base L i"
    "skip_base L i + skip_len L i = ebase L i + elen L i"
    using f assms(3) by (auto simp: skip_base_def skip_len_def split: if_splits)
  have "(elen L i - 4096) mod 4096 = 0" using f(2) by (cases "4096 \<le> elen L i") (auto simp: le_mod_geq)
  then show "skip_len L i mod 4096 = 0" using f(2) by (simp add: skip_len_def)
qed

section \<open>The steps of the initialisation\<close>

lemma last_tracked_loop_eq:
  assumes ok: "memmap_ok L" and k: "is_last_usable L k" and "k \<le> i" and "i < entry_count L"
  shows "last_tracked_loop L (of_nat i) s = Inr (of_nat ((ebase L k + elen L k) div 4096), s)"
  using assms(3,4)
proof (induction i)
  case 0
  then show ?case using k by (simp add: is_last_usable_def)
next
  case (Suc i)
  have "Suc i < 2 ^ 64" using Suc.prems ok by (simp add: memmap_ok_def)
  then have "unat (of_nat (Suc i) :: u64) = Suc i" by (rule unat_of_nat_64)
  then have pos: "(of_nat (Suc i) :: u64) > 0" by (simp only: word_less_nat_alt) simp
  have prev: "(of_nat (Suc i) :: u64) - 1 = of_nat i" by simp
  note get = get_entry [OF ok Suc.prems(2), of s]
  show ?case
  proof (cases "k = Suc i")
    case True
    have u: "usable L (Suc i)" using k True by (simp add: is_last_usable_def)
    let ?e = "memmap_entry L (Suc i)"
    have "unat ((entry_base ?e + entry_length ?e) div PAGE_SIZE) = (ebase L k + elen L k) div 4096"
      using usable_facts(5) [OF ok u] True by (simp add: unat_div)
    then have "(entry_base ?e + entry_length ?e) div PAGE_SIZE = of_nat ((ebase L k + elen L k) div 4096)"
      by (metis of_nat_unat ucast_id)
    then show ?thesis
      using u by (subst last_tracked_loop.simps) (simp only: pos get if_True bindE.simps prod.case usable_def, simp)
  next
    case False
    then have "\<not> usable L (Suc i)" "k \<le> i" using k Suc.prems by (auto simp: is_last_usable_def)
    then have nu: "entry_type (memmap_entry L (Suc i)) \<noteq> BOOT_PROTO_MEMMAP_USABLE"
      using Suc.prems by (simp add: usable_def)
    have "last_tracked_loop L (of_nat i) s = Inr (of_nat ((ebase L k + elen L k) div 4096), s)"
      using Suc \<open>k \<le> i\<close> by simp
    then show ?thesis
      using nu by (subst last_tracked_loop.simps) (simp only: pos get if_True if_False bindE.simps prod.case prev)
  qed
qed

lemma last_tracked_page_eq:
  assumes "memmap_ok L" and "is_last_usable L k"
  shows "pmm_bitmap_last_tracked_page L s = Inr (of_nat ((ebase L k + elen L k) div 4096), s)"
proof -
  have n: "0 < entry_count L" "k < entry_count L"
    using assms by (auto simp: memmap_ok_def is_last_usable_def usable_def)
  then have "boot_proto_memmap_entry_count L - 1 = of_nat (entry_count L - 1)"
    by (simp add: boot_proto_memmap_entry_count_def entry_count_def of_nat_diff)
  then show ?thesis
    using last_tracked_loop_eq [OF assms, of "entry_count L - 1" s] n
    by (simp add: pmm_bitmap_last_tracked_page_def)
qed

lemma bitmap_size_eq:
  assumes "memmap_ok L" and "is_last_usable L k"
  shows "ALIGN_UP (of_nat ((ebase L k + elen L k) div 4096)) 8 div 8 = of_nat (bitmap_bytes L k)"
    and "bitmap_bytes L k \<le> 2 ^ 49"
proof -
  let ?t = "(ebase L k + elen L k) div 4096"
  have "usable L k" using assms(2) by (simp add: is_last_usable_def)
  from usable_facts(3) [OF assms(1) this] have t: "?t < 2 ^ 52"
    by (intro less_mult_imp_div_less) simp
  then have ut: "unat (of_nat ?t :: u64) = ?t" by (intro unat_of_nat_64) simp
  have "(?t + 7) div 8 < 2 ^ 49 + 1" using t by (intro less_mult_imp_div_less) simp
  then show b: "bitmap_bytes L k \<le> 2 ^ 49" by (simp add: bitmap_bytes_def)
  have "unat (ALIGN_UP (of_nat ?t) 8) = (?t + 8 - 1) div 8 * 8"
    using ALIGN_UP_nat [of 8 "of_nat ?t"] t unfolding ut by simp
  then have "unat (ALIGN_UP (of_nat ?t) 8 div 8) = bitmap_bytes L k"
    by (simp add: unat_div bitmap_bytes_def)
  then show "ALIGN_UP (of_nat ?t) 8 div 8 = of_nat (bitmap_bytes L k)"
    by (metis of_nat_unat ucast_id)
qed
lemma place_bitmap_eq:
  assumes ok: "memmap_ok L" and i: "is_bitmap_entry L (unat (bitmapSize s)) i"
  shows "forE 0 (boot_proto_memmap_entry_count L) (place_bitmap L) s
    = Inl (Inr (s\<lparr>bitmap := of_nat (skip_base L i) + boot_proto_hhdm_offset L\<rparr>))"
proof -
  let ?r = "Inr (s\<lparr>bitmap := of_nat (skip_base L i) + boot_proto_hhdm_offset L\<rparr>) :: kerror + kstate"
  let ?N = "boot_proto_memmap_entry_count L"
  have n: "unat ?N = entry_count L"
    using ok by (intro unat_entry_count) (simp add: memmap_ok_def)
  have iu: "usable L i" "i < entry_count L" using i by (auto simp: is_bitmap_entry_def usable_def)
  have "case forE 0 ?N (place_bitmap L) s of Inl r \<Rightarrow> r = ?r
    | Inr s' \<Rightarrow> s' = s \<and> unat ?N \<le> i"
  proof (rule forE_rule [where P = "\<lambda>j s'. s' = s \<and> j \<le> i"])
    fix j s'
    assume j: "j < ?N" and "s' = s \<and> unat j \<le> i"
    then have le: "unat j \<le> i" and s': "s' = s" by auto
    note get = get_entry_word [OF ok j]
    let ?e = "memmap_entry L (unat j)"
    show "case place_bitmap L j s' of Inl r \<Rightarrow> r = ?r | Inr s' \<Rightarrow> s' = s \<and> Suc (unat j) \<le> i"
    proof (cases "usable L (unat j)")
      case False
      then have "unat j \<noteq> i" using iu by auto
      with False le show ?thesis using get s' by (simp add: place_bitmap_def usable_def)
    next
      case True
      then have ty: "entry_type ?e = BOOT_PROTO_MEMMAP_USABLE" by (simp add: usable_def)
      note sk = skip_page_0_nat [OF ok True]
      have fits: "entry_length (skip_page_0 ?e) \<ge> bitmapSize s
          \<longleftrightarrow> unat (bitmapSize s) \<le> skip_len L (unat j)"
        by (simp add: word_le_nat_alt sk)
      show ?thesis
      proof (cases "unat j = i")
        case True
        have "entry_base (skip_page_0 ?e) = of_nat (skip_base L i)"
          using sk(1) True by (metis of_nat_unat ucast_id)
        then show ?thesis
          using True i get ty fits s' by (simp add: place_bitmap_def is_bitmap_entry_def Let_def)
      next
        case False
        then have "\<not> unat (bitmapSize s) \<le> skip_len L (unat j)"
          using i le True by (auto simp: is_bitmap_entry_def not_le)
        then show ?thesis
          using False le get ty fits s' by (simp add: place_bitmap_def Let_def)
      qed
    qed
  qed simp_all
  then show ?thesis using iu(2) n by (auto split: sum.splits)
qed

lemma clear_usable_ok:
  assumes ok: "memmap_ok L" and j: "j < boot_proto_memmap_entry_count L"
    and top: "\<And>i. usable L i \<Longrightarrow> (ebase L i + elen L i) div 4096 \<le> npages s"
  shows "\<exists>s'. clear_usable L j s = Inr s'
    \<and> bitmap_now s (\<lambda>q. \<not> (usable L (unat j) \<and> q \<in> entry_pages L (unat j)) \<and> page_used s q) s'"
proof (cases "usable L (unat j)")
  case False
  then have "clear_usable L j s = Inr s"
    using get_entry_word [OF ok j] by (simp add: clear_usable_def usable_def)
  then show ?thesis using False bitmap_now_refl [of s] by auto
next
  case True
  let ?e = "memmap_entry L (unat j)"
  let ?lo = "drop_bit 12 (entry_base ?e)" and ?hi = "drop_bit 12 (entry_base ?e + entry_length ?e)"
  note f = usable_facts [OF ok True]
  have u: "unat ?lo = ebase L (unat j) div 4096"
    "unat ?hi = (ebase L (unat j) + elen L (unat j)) div 4096"
    using f(5) by (simp_all only: unat_shift_12 ebase_def)
  have "\<exists>s'. forE ?lo ?hi pmm_bitmap_clear s = Inr s'
     \<and> bitmap_now s (\<lambda>q. \<not> (unat ?lo \<le> q \<and> q < unat ?hi) \<and> page_used s q) s'"
    using top [OF True] by (intro clear_range_ok) (simp_all add: word_le_nat_alt u div_le_mono)
  moreover have "clear_usable L j s = forE ?lo ?hi pmm_bitmap_clear s"
    using get_entry_word [OF ok j] True by (simp add: clear_usable_def usable_def)
  ultimately show ?thesis using True by (simp add: entry_pages_def u)
qed

lemma clear_all_usable_ok:
  assumes ok: "memmap_ok L"
    and top: "\<And>i. usable L i \<Longrightarrow> (ebase L i + elen L i) div 4096 \<le> npages s"
  shows "\<exists>s'. forE 0 (boot_proto_memmap_entry_count L) (clear_usable L) s = Inr s'
    \<and> bitmap_now s (\<lambda>q. q \<notin> usable_pages L \<and> page_used s q) s'"
proof -
  let ?N = "boot_proto_memmap_entry_count L"
  let ?U = "\<lambda>j q. \<not> (\<exists>i<j. usable L i \<and> q \<in> entry_pages L i) \<and> page_used s q"
  have n: "unat ?N = entry_count L"
    using ok by (intro unat_entry_count) (simp add: memmap_ok_def)
  have "\<exists>s'. forE 0 ?N (clear_usable L) s = Inr s' \<and> bitmap_now s (?U (unat ?N)) s'"
  proof (rule forE_total_rule [where P = "\<lambda>j. bitmap_now s (?U j)"])
    fix j s1
    assume j: "j < ?N" and now: "bitmap_now s (?U (unat j)) s1"
    have "\<exists>s2. clear_usable L j s1 = Inr s2
      \<and> bitmap_now s1 (\<lambda>q. \<not> (usable L (unat j) \<and> q \<in> entry_pages L (unat j)) \<and> page_used s1 q) s2"
      using top bitmap_now_fields(4) [OF now] by (intro clear_usable_ok [OF ok j]) simp
    then obtain s2 where s2: "clear_usable L j s1 = Inr s2"
      "bitmap_now s1 (\<lambda>q. \<not> (usable L (unat j) \<and> q \<in> entry_pages L (unat j)) \<and> page_used s1 q) s2"
      by blast
    have "bitmap_now s (?U (Suc (unat j))) s2"
      by (rule bitmap_now_cong [OF bitmap_now_trans [OF now s2(2)]])
        (use bitmap_now_used [OF now] in \<open>auto simp: less_Suc_eq\<close>)
    with s2(1) show "\<exists>s'. clear_usable L j s1 = Inr s' \<and> bitmap_now s (?U (Suc (unat j))) s'" by blast
  qed simp_all
  then obtain s' where "forE 0 ?N (clear_usable L) s = Inr s'" "bitmap_now s (?U (unat ?N)) s'"
    by blast
  moreover have "?U (unat ?N) q = (q \<notin> usable_pages L \<and> page_used s q)" for q
    unfolding n by (auto simp: usable_pages_def usable_def)
  ultimately show ?thesis by simp
qed

lemma reserve_bitmap_ok:
  assumes phys: "bitmap s - boot_proto_hhdm_offset L = of_nat (b * 4096)"
    and "0 < unat (bitmapSize s)"
    and fit: "b + (unat (bitmapSize s) + 4095) div 4096 \<le> npages s" and "npages s \<le> 2 ^ 52 - 1"
  shows "\<exists>s'. reserve_bitmap L s = Inr s'
    \<and> bitmap_now s (\<lambda>q. (b \<le> q \<and> q < b + (unat (bitmapSize s) + 4095) div 4096) \<or> page_used s q) s'"
proof -
  let ?n = "(unat (bitmapSize s) + 4095) div 4096"
  let ?lo = "of_nat (b * 4096) :: u64"
  let ?hi = "?lo + ALIGN_UP (bitmapSize s) PAGE_SIZE"
  have bn: "b + ?n \<le> 2 ^ 52 - 1" using fit assms(4) by simp
  have lo: "unat ?lo = b * 4096" using bn by (intro unat_of_nat_64) simp
  have bs: "unat (bitmapSize s) + 4096 \<le> 2 ^ 64" using assms(4) by (simp add: npages_def)
  have al: "unat (ALIGN_UP (bitmapSize s) PAGE_SIZE) = ?n * 4096"
    using ALIGN_UP_nat [of PAGE_SIZE "bitmapSize s"] bs by simp
  have "unat ?lo + unat (ALIGN_UP (bitmapSize s) PAGE_SIZE) < 2 ^ 64"
    unfolding lo al using bn by simp
  then have hi: "unat ?hi = (b + ?n) * 4096"
    using lo al by (subst unat_add_no_wrap) simp_all
  have "\<exists>s'. for_stepE (stride_fuel ?lo ?hi PAGE_SIZE) Out_of_fuel ?lo ?hi PAGE_SIZE
      (\<lambda>i. pmm_bitmap_set (i div PAGE_SIZE)) s = Inr s'
    \<and> bitmap_now s (\<lambda>q. (b \<le> q \<and> q < b + ?n) \<or> page_used s q) s'"
  proof (rule for_stepE_rule [where n = ?n
        and P = "\<lambda>k. bitmap_now s (\<lambda>q. (b \<le> q \<and> q < b + k) \<or> page_used s q)"])
    show "?n \<le> stride_fuel ?lo ?hi PAGE_SIZE"
      by (simp only: stride_fuel_def lo hi unat_PAGE_SIZE) simp
    show "unat ?lo + ?n * unat PAGE_SIZE < 2 ^ 64" unfolding lo using bn by simp
    show "unat ?hi \<le> unat ?lo + ?n * unat PAGE_SIZE" unfolding lo hi by simp
    show "unat ?lo + k * unat PAGE_SIZE < unat ?hi" if "k < ?n" for k
      unfolding lo hi using that by simp
    show "bitmap_now s (\<lambda>q. (b \<le> q \<and> q < b + 0) \<or> page_used s q) s"
      by (rule bitmap_now_cong [OF bitmap_now_refl]) auto
  next
    fix k s1
    assume k: "k < ?n" and now: "bitmap_now s (\<lambda>q. (b \<le> q \<and> q < b + k) \<or> page_used s q) s1"
    have "(b + k) * 4096 < 2 ^ 64" using k bn by simp
    then have "unat (of_nat ((b + k) * 4096) :: u64) = (b + k) * 4096" by (rule unat_of_nat_64)
    moreover have "?lo + of_nat k * PAGE_SIZE = of_nat ((b + k) * 4096)"
      by (simp add: PAGE_SIZE_def algebra_simps)
    ultimately have pg: "unat ((?lo + of_nat k * PAGE_SIZE) div PAGE_SIZE) = b + k"
      by (simp only: unat_div unat_PAGE_SIZE) simp
    have "b + k < npages s1" using k fit bitmap_now_fields(4) [OF now] by simp
    then obtain s2 where s2: "pmm_bitmap_set ((?lo + of_nat k * PAGE_SIZE) div PAGE_SIZE) s1 = Inr s2"
        "bitmap_now s1 (\<lambda>q. q = b + k \<or> page_used s1 q) s2"
      using pmm_bitmap_set_ok [of "(?lo + of_nat k * PAGE_SIZE) div PAGE_SIZE" s1] unfolding pg by blast
    have "bitmap_now s (\<lambda>q. (b \<le> q \<and> q < b + Suc k) \<or> page_used s q) s2"
      by (rule bitmap_now_cong [OF bitmap_now_trans [OF now s2(2)]])
        (use bitmap_now_used [OF now] in auto)
    with s2(1) show "\<exists>s'. pmm_bitmap_set ((?lo + of_nat k * PAGE_SIZE) div PAGE_SIZE) s1 = Inr s'
        \<and> bitmap_now s (\<lambda>q. (b \<le> q \<and> q < b + Suc k) \<or> page_used s q) s'" by blast
  qed
  then show ?thesis by (simp add: reserve_bitmap_def Let_def phys)
qed

section \<open>The whole initialisation\<close>

lemma bitmap_all_ones:
  assumes "\<And>x. in_rng (bitmap s) (unat (bitmapSize s)) x \<Longrightarrow> mem s x = 0xff" and "q < npages s"
  shows "page_used s q"
proof -
  have "q div 8 < unat (bitmapSize s)" using assms(2) by (auto simp: npages_def)
  then have "mem s (bitmap s + of_nat (q div 8)) = 0xff"
    using less_unat_64 by (intro assms(1) in_rng_offset) auto
  moreover have "(0xff :: u8) = mask 8" by (simp add: mask_eq_exp_minus_1)
  ultimately have "mem s (bitmap s + of_nat (q div 8)) = mask 8" by simp
  then show ?thesis by (simp add: page_used_def bit_mask_iff)
qed


lemma bitmap_fits:
  assumes ok: "memmap_ok L" and k: "is_last_usable L k" and i: "is_bitmap_entry L b i" and "0 < b"
  shows "skip_base L i = skip_base L i div 4096 * 4096"
    and "skip_base L i div 4096 + (b + 4095) div 4096 \<le> (ebase L k + elen L k) div 4096"
proof -
  have u: "usable L i" and len: "b \<le> skip_len L i" "0 < skip_len L i"
    using i \<open>0 < b\<close> by (auto simp: is_bitmap_entry_def)
  note sk = skip_in_entry [OF ok u len(2)]
  obtain x where x: "skip_base L i = 4096 * x" using sk(1) by auto
  obtain y where y: "skip_len L i = 4096 * y" using sk(2) by auto
  show "skip_base L i = skip_base L i div 4096 * 4096" using x by simp
  have "4096 * x + 4096 * y \<le> ebase L k + elen L k"
    using sk(4) usable_end_le [OF ok k u] x y by simp
  then have "x + y \<le> (ebase L k + elen L k) div 4096" by (simp add: less_eq_div_iff_mult_less_eq)
  moreover have "(b + 4095) div 4096 \<le> y" using len(1) y by simp
  ultimately show "skip_base L i div 4096 + (b + 4095) div 4096 \<le> (ebase L k + elen L k) div 4096"
    using x by simp
qed

lemma pages_le_bitmap: "(ebase L k + elen L k) div 4096 \<le> 8 * bitmap_bytes L k"
  unfolding bitmap_bytes_def by linarith

lemma ucast_small_nonzero:
  assumes "0 < b" and "b < 2 ^ 32"
  shows "(ucast (of_nat b :: u64) :: cint) \<noteq> 0"
proof -
  have u: "unat (of_nat b :: u64) = b" using assms(2) by (intro unat_of_nat_64) simp
  have "(ucast (of_nat b :: u64) :: cint) = of_nat (unat (of_nat b :: u64))" by simp
  then have eq: "(ucast (of_nat b :: u64) :: cint) = of_nat b" by (simp only: u)
  have "unat (of_nat b :: cint) = b"
    using assms(2) by (subst unat_of_nat) simp
  then show ?thesis using assms(1) unfolding eq by auto
qed

lemma pmm_init_ok:
  assumes ok: "memmap_ok L" and k: "is_last_usable L k"
    and b: "b = bitmap_bytes L k" "0 < b" "b < 2 ^ 32"
    and i: "is_bitmap_entry L b i"
    and low: "ucast (of_nat (skip_base L i) + boot_proto_hhdm_offset L) \<noteq> (0 :: cint)"
  shows "\<exists>s'. pmm_init L s = Inr (0, s')
    \<and> free_pages s' = usable_pages L - {0} - bitmap_pages L b i
    \<and> pmm_ready L (free_pages s') s'
    \<and> npages s' = 8 * b
    \<and> con s' = con s @ ''[ INFO  ] PMM initialized\<newline>''"
proof -
  let ?bm = "of_nat (skip_base L i) + boot_proto_hhdm_offset L"
  let ?p0 = "skip_base L i div 4096" and ?n = "(b + 4095) div 4096"
  have ub: "unat (of_nat b :: u64) = b" using b(3) by (intro unat_of_nat_64) simp
  define s3 where "s3 = s\<lparr>bitmapSize := of_nat b, bitmap := ?bm,
      mem := snd (memset ?bm 0xff (of_nat b) (mem s))\<rparr>"
  have s3: "bitmap s3 = ?bm" "bitmapSize s3 = of_nat b" "npages s3 = 8 * b" "con s3 = con s"
    by (simp_all add: s3_def npages_def ub)
  have ones: "page_used s3 q" if "q < npages s3" for q
    using that by (intro bitmap_all_ones) (simp_all only: s3, simp add: s3_def memset_apply)
  have top: "(ebase L j + elen L j) div 4096 \<le> npages s3" if "usable L j" for j
    using div_le_mono [OF usable_end_le [OF ok k that], of 4096] pages_le_bitmap [of L k]
    by (simp only: s3(3) b(1))
  note fits = bitmap_fits [OF ok k i b(2)]
  obtain s4 where s4: "forE 0 (boot_proto_memmap_entry_count L) (clear_usable L) s3 = Inr s4"
      "bitmap_now s3 (\<lambda>q. q \<notin> usable_pages L \<and> page_used s3 q) s4"
    using clear_all_usable_ok [OF ok top] by blast
  note f4 = bitmap_now_fields(1-4) [OF s4(2)] s3
  have np4: "npages s4 \<le> 2 ^ 52 - 1" using b(3) by (simp add: f4)
  obtain s5 where s5: "reserve_bitmap L s4 = Inr s5"
      "bitmap_now s4 (\<lambda>q. (?p0 \<le> q \<and> q < ?p0 + ?n) \<or> page_used s4 q) s5"
    using reserve_bitmap_ok [of s4 L ?p0] fits pages_le_bitmap [of L k] np4 b(1,2) ub
    by (auto simp: f4)
  have "unat (0 :: u64) < npages s5"
    using bitmap_now_fields(4) [OF s5(2)] b(2) by (simp add: f4)
  then obtain s6 where s6: "pmm_bitmap_set 0 s5 = Inr s6"
      "bitmap_now s5 (\<lambda>q. q = 0 \<or> page_used s5 q) s6"
    using pmm_bitmap_set_ok [of 0 s5] by auto
  define s7 where "s7 = s6\<lparr>con := con s6 @ ''[ INFO  ] PMM initialized\<newline>''\<rparr>"
  note f6 = bitmap_now_fields(1-4) [OF s6(2)] bitmap_now_fields(1-4) [OF s5(2)] f4
  have init: "pmm_init L s = Inr (0, s7)"
  proof -
    have kl: "klog LOGLEVEL_INFO ''PMM initialized\<newline>'' [] s6 = Inr s7"
      by (subst klog_literal) (auto simp: s7_def log_prefix_def LOGLEVEL_TRACE_def
          LOGLEVEL_DEBUG_def LOGLEVEL_INFO_def)
    have pl: "forE 0 (boot_proto_memmap_entry_count L) (place_bitmap L) (s\<lparr>bitmapSize := of_nat b\<rparr>)
      = Inl (Inr (s\<lparr>bitmapSize := of_nat b, bitmap := ?bm\<rparr>))"
      using place_bitmap_eq [OF ok, of "s\<lparr>bitmapSize := of_nat b\<rparr>" i] i by (simp add: ub)
    have "snd (memset ?bm 255 (of_nat b) (mem s)) = mem s3" by (simp add: s3_def)
    moreover have "s\<lparr>bitmapSize := of_nat b, bitmap := ?bm, mem := mem s3\<rparr> = s3" by (simp add: s3_def)
    moreover have "ALIGN_UP (of_nat ((ebase L k + elen L k) div 4096)) 8 div 8 = (of_nat b :: u64)"
      using bitmap_size_eq(1) [OF ok k] by (simp only: b(1))
    ultimately show ?thesis
      using ucast_small_nonzero [OF b(2,3)] low
      by (simp add: pmm_init_def Let_def last_tracked_page_eq [OF ok k] pl s4(1) s5(1) s6(1) kl)
  qed
  have used6: "page_used s6 q \<longleftrightarrow> q = 0 \<or> (?p0 \<le> q \<and> q < ?p0 + ?n) \<or> q \<notin> usable_pages L"
    if "q < 8 * b" for q
    using that bitmap_now_used [OF s6(2)] bitmap_now_used [OF s5(2)] bitmap_now_used [OF s4(2)] ones
    by (auto simp: f6)
  have in_bitmap: "usable_pages L \<subseteq> {..<8 * b}"
    using top by (force simp: usable_pages_def entry_pages_def s3(3))
  have u7: "page_used s7 q = page_used s6 q" "npages s7 = 8 * b" for q
    by (simp_all add: s7_def page_used_def npages_def f6 ub)
  have s7: "bitmap s7 = ?bm" "bitmapSize s7 = of_nat b" by (simp_all add: s7_def f6)
  have free: "free_pages s7 = usable_pages L - {0} - bitmap_pages L b i"
    using used6 in_bitmap by (auto simp: free_pages_def u7 bitmap_pages_def)
  have "page_of L x \<in> bitmap_pages L b i" if "in_rng ?bm b x" for x
  proof -
    have "?p0 + ?n \<le> 2 ^ 52" using fits(2) pages_le_bitmap [of L k] np4 b(1) by (simp add: f4)
    moreover have "in_rng ?bm (?n * 4096) x"
      using that by (rule in_rng_mono) simp
    ultimately show ?thesis
      using in_rng_pages [of ?p0 ?n L x] fits(1) by (simp add: bitmap_pages_def)
  qed
  then have "pmm_ready L (free_pages s7) s7"
    using b(3) in_bitmap s7(1,2) unfolding pmm_ready_def pmm_wf_def free
    by (auto simp: u7 ub)
  moreover have "con s7 = con s @ ''[ INFO  ] PMM initialized\<newline>''" by (simp add: s7_def f6)
  ultimately show ?thesis using init free u7(2) by blast
qed

end
