(* ===== verification/Pmm_Spec.thy ===== *)
theory Pmm_Spec
  imports Pmm_Init
begin

text \<open>
  The properties of the page-frame allocator: the bitmap operations, the first-fit search, the
  effect of a release, the round trip, the state initialisation leaves, and the safety of every
  history of allocations, releases and writes by owners.
\<close>

section \<open>An example machine\<close>

text \<open>Eight tracked pages: page 0 and the bitmap's own page 1 are in use.\<close>

definition example_pmm :: kstate where
  "example_pmm =
     \<lparr>mem = (\<lambda>x. if x = 0xffff800000001000 then 0b11000000 else 0), con = [],
      bitmap = 0xffff800000001000, bitmapSize = 1, kernelPT = 0, cr3 = 0,
      blockListStart = 0, blockListEnd = 0, kheapSize = 0, kheapSizeUsable = 0\<rparr>"

lemma less_8_cases: "p < 8 \<longleftrightarrow> p \<in> {0, 1, 2, 3, 4, 5, 6, 7}" for p :: nat
  by auto

lemma example_pmm_used: "p < 8 \<Longrightarrow> page_used example_pmm p \<longleftrightarrow> p < 2"
  unfolding less_8_cases by (auto simp: page_used_def example_pmm_def bit_simps)

lemma example_pmm_free: "npages example_pmm = 8" "free_pages example_pmm = {2..<8}"
proof -
  show n: "npages example_pmm = 8" by (simp add: npages_def example_pmm_def)
  show "free_pages example_pmm = {2..<8}" unfolding free_pages_def n using example_pmm_used by auto
qed

lemma example_pmm_ready: "pmm_ready example_limine {2..<8} example_pmm"
proof -
  have "page_of example_limine x = 1" if "in_rng (bitmap example_pmm) (unat (bitmapSize example_pmm)) x" for x
  proof -
    have "unat (x - 0xffff800000001000) = 0" using that by (simp add: in_rng_def example_pmm_def)
    then have "x = 0xffff800000001000" by (simp add: unat_eq_zero)
    then show ?thesis by (simp add: page_of_def boot_proto_hhdm_offset_def example_limine_def)
  qed
  then show ?thesis
    by (auto simp: pmm_ready_def pmm_wf_def example_pmm_free)
qed

section \<open>Properties\<close>

lemma page_out_of_bitmap: "\<not> unat page < npages s \<Longrightarrow> \<not> page div 8 < bitmapSize s"
  by (simp add: npages_def word_less_nat_alt unat_div less_mult_imp_div_less)

text \<open>C12: a bitmap operation on a tracked page marks exactly that page (used or free), and
  changes one byte, the byte of the bitmap the page is in; on a page the bitmap does not track
  it halts with the assertion's message.\<close>

theorem pmm_bitmap_ops_checked:
  "(case pmm_bitmap_set page s of
      Inr s' \<Rightarrow> unat page < npages s \<and> free_pages s' = free_pages s - {unat page}
        \<and> s' = s\<lparr>mem := (mem s)(bitmap s + page div 8 := mem s' (bitmap s + page div 8))\<rparr>
    | Inl e \<Rightarrow> npages s \<le> unat page \<and> e = Halted (con s @
        assert_text ''PMM bitmap set operation out of bounds!\<newline>'' ''pmm_bitmap_set'' ''./mm/pmm.c'' 21))
   \<and> (case pmm_bitmap_clear page s of
      Inr s' \<Rightarrow> unat page < npages s \<and> free_pages s' = insert (unat page) (free_pages s)
        \<and> s' = s\<lparr>mem := (mem s)(bitmap s + page div 8 := mem s' (bitmap s + page div 8))\<rparr>
    | Inl e \<Rightarrow> npages s \<le> unat page \<and> e = Halted (con s @
        assert_text ''PMM bitmap clear operation out of bounds!\<newline>'' ''pmm_bitmap_clear'' ''./mm/pmm.c'' 28))"
proof (cases "unat page < npages s")
  case True
  obtain s1 where s1: "pmm_bitmap_set page s = Inr s1" "bitmap_now s (\<lambda>q. q = unat page \<or> page_used s q) s1"
    using pmm_bitmap_set_ok [OF True] by blast
  obtain s2 where s2: "pmm_bitmap_clear page s = Inr s2" "bitmap_now s (\<lambda>q. q \<noteq> unat page \<and> page_used s q) s2"
    using pmm_bitmap_clear_ok [OF True] by blast
  have "s1 = s\<lparr>mem := (mem s)(bitmap s + page div 8 := mem s1 (bitmap s + page div 8))\<rparr>"
    "s2 = s\<lparr>mem := (mem s)(bitmap s + page div 8 := mem s2 (bitmap s + page div 8))\<rparr>"
    using s1(1) s2(1) by (auto simp: pmm_bitmap_set_def pmm_bitmap_clear_def Let_def kassert_Inr_iff bindE_Inr_iff)
  moreover have "free_pages s1 = free_pages s - {unat page}"
    "free_pages s2 = insert (unat page) (free_pages s)"
    using True unfolding free_pages_now [OF s1(2)] free_pages_now [OF s2(2)]
    by (auto simp: free_pages_def)
  ultimately show ?thesis using True s1(1) s2(1) by simp
next
  case False
  then show ?thesis
    using page_out_of_bitmap [OF False]
    by (simp add: pmm_bitmap_set_def pmm_bitmap_clear_def of_cond_def kassert_fail)
qed

text \<open>C9: a positive request returns the lowest run of that many free pages, and takes exactly
  those pages; all other state but bytes of the bitmap stays as it is. When no run is long enough
  it halts with the out-of-memory panic, and only then.\<close>

theorem pmm_alloc_first_fit:
  assumes "0 < sint pages" and "pmm_wf s"
  shows "case pmm_alloc pages s of
      Inr (a, s') \<Rightarrow> \<exists>p. a = of_nat (p * 4096)
        \<and> {p..<p + nat (sint pages)} \<subseteq> free_pages s
        \<and> (\<forall>b<p. \<not> {b..<b + nat (sint pages)} \<subseteq> free_pages s)
        \<and> free_pages s' = free_pages s - {p..<p + nat (sint pages)}
        \<and> s' = s\<lparr>mem := mem s'\<rparr>
        \<and> (\<forall>x. \<not> in_rng (bitmap s) (unat (bitmapSize s)) x \<longrightarrow> mem s' x = mem s x)
    | Inl e \<Rightarrow> e = Halted (con s @ ''[ FATAL ] Kernel Panic! Out of Memory!'')
        \<and> (\<forall>b. \<not> {b..<b + nat (sint pages)} \<subseteq> free_pages s)"
proof (cases "pmm_alloc pages s")
  case (Inl e)
  then show ?thesis
    using pmm_alloc_spec [OF assms] by (simp add: free_run_def oom_message_def)
next
  case (Inr r)
  obtain a s' where r: "r = (a, s')" by (cases r)
  let ?n = "nat (sint pages)"
  obtain p where p: "a = of_nat (p * 4096)" "free_run s p ?n" "\<forall>b<p. \<not> free_run s b ?n"
      and now: "bitmap_now s (\<lambda>q. (p \<le> q \<and> q < p + ?n) \<or> page_used s q) s'"
    using pmm_alloc_spec [OF assms] Inr r by auto
  have "free_pages s' = free_pages s - {p..<p + ?n}"
    unfolding free_pages_now [OF now] by (auto simp: free_pages_def)
  then show ?thesis
    using Inr r p bitmap_now_fields(5) [OF now] bitmap_now_frame [OF now]
    unfolding free_run_def by auto
qed

theorem pmm_alloc_first_fit_witness:
  "(\<exists>s'. pmm_alloc 3 example_pmm = Inr (0x2000, s') \<and> free_pages s' = {5..<8})
   \<and> pmm_alloc 7 example_pmm = Inl (Halted ''[ FATAL ] Kernel Panic! Out of Memory!'')"
proof -
  have wf: "pmm_wf example_pmm" by (simp add: pmm_wf_def example_pmm_free)
  have c: "con example_pmm = []" by (simp add: example_pmm_def)
  note a3 = pmm_alloc_first_fit [of 3 example_pmm, OF _ wf, unfolded example_pmm_free c]
  note a7 = pmm_alloc_first_fit [of 7 example_pmm, OF _ wf, unfolded example_pmm_free c]
  have fits: "{2..<2 + 3} \<subseteq> {2..<8::nat}" by simp
  have "\<exists>s'. pmm_alloc 3 example_pmm = Inr (0x2000, s') \<and> free_pages s' = {5..<8}"
  proof (cases "pmm_alloc 3 example_pmm")
    case (Inl e)
    with a3 have "\<forall>b. \<not> {b..<b + 3} \<subseteq> {2..<8::nat}" by simp
    with fits show ?thesis by blast
  next
    case (Inr r)
    obtain a s' where r: "r = (a, s')" by (cases r)
    obtain p where p: "a = of_nat (p * 4096)" "{p..<p + 3} \<subseteq> {2..<8}"
        "\<forall>b<p. \<not> {b..<b + 3} \<subseteq> {2..<8}" "free_pages s' = {2..<8} - {p..<p + 3}"
      using a3 Inr r by auto
    have "2 \<le> p" using p(2) by simp
    moreover have "\<not> 2 < p" using p(3) fits by blast
    ultimately have "p = 2" by simp
    with Inr r p(1,4) show ?thesis by auto
  qed
  moreover have "\<not> {p..<p + 7} \<subseteq> {2..<8::nat}" for p by auto
  then have "pmm_alloc 7 example_pmm = Inl (Halted ''[ FATAL ] Kernel Panic! Out of Memory!'')"
    using a7 by (cases "pmm_alloc 7 example_pmm") auto
  ultimately show ?thesis by blast
qed

lemma pmm_ready_range:
  assumes "pmm_ready L M s" and "small_request pages" and "{p..<p + nat (sint pages)} \<subseteq> M"
  shows "p + nat (sint pages) \<le> npages s"
    and "\<And>x. in_rng (bitmap s) (unat (bitmapSize s)) x \<Longrightarrow> page_of L x \<notin> {p..<p + nat (sint pages)}"
proof -
  have "0 < nat (sint pages)" using assms(2) by (simp add: small_request_def)
  then have "p + nat (sint pages) - 1 \<in> M" using assms(3) by auto
  then have "p + nat (sint pages) - 1 < npages s" using assms(1) by (auto simp: pmm_ready_def)
  then show "p + nat (sint pages) \<le> npages s" by simp
  show "\<And>x. in_rng (bitmap s) (unat (bitmapSize s)) x \<Longrightarrow> page_of L x \<notin> {p..<p + nat (sint pages)}"
    using assms(1,3) by (auto simp: pmm_ready_def)
qed

text \<open>C10: releasing a run of managed pages succeeds, makes exactly those pages free, overwrites
  every byte of them with \<^verbatim>\<open>0xFF\<close>, and changes nothing else but the bitmap. The run must be
  shorter than 2 GiB: the byte count is computed in \<^verbatim>\<open>int\<close>.\<close>

theorem pmm_free_releases:
  assumes "pmm_ready L M s" and "small_request pages" and "{p..<p + nat (sint pages)} \<subseteq> M"
  shows "\<exists>s'. pmm_free L (of_nat (p * 4096)) pages s = Inr (0, s')
     \<and> s' = s\<lparr>mem := mem s'\<rparr>
     \<and> free_pages s' = free_pages s \<union> {p..<p + nat (sint pages)}
     \<and> (\<forall>x. mem s' x = (if page_of L x \<in> {p..<p + nat (sint pages)} then 0xff
            else if in_rng (bitmap s) (unat (bitmapSize s)) x then mem s' x else mem s x))"
  using assms(1,2) pmm_ready_range [OF assms]
  by (intro pmm_free_spec) (auto simp: pmm_ready_def small_request_def)

lemma small_example: "small_request 2" "small_request 1" "small_request 3"
  by (simp_all add: small_request_def)

theorem pmm_free_releases_witness:
  "\<exists>s'. pmm_free example_limine 0x3000 2 example_pmm = Inr (0, s')
     \<and> mem s' 0xffff800000004fff = 0xff \<and> mem s' 0xffff800000005000 = 0"
proof -
  have "{3..<3 + 2} \<subseteq> {2..<8::nat}" by simp
  then obtain s' where "pmm_free example_limine 0x3000 2 example_pmm = Inr (0, s')"
      and m: "\<forall>x. mem s' x = (if page_of example_limine x \<in> {3..<5} then 0xff
            else if in_rng (bitmap example_pmm) (unat (bitmapSize example_pmm)) x
            then mem s' x else mem example_pmm x)"
    using pmm_free_releases [OF example_pmm_ready small_example(1), where p = 3] by auto
  moreover have "page_of example_limine 0xffff800000004fff = 4"
    "page_of example_limine 0xffff800000005000 = 5"
    by (simp_all add: page_of_def boot_proto_hhdm_offset_def example_limine_def)
  moreover have "\<not> in_rng (bitmap example_pmm) (unat (bitmapSize example_pmm)) 0xffff800000005000"
    by (simp add: in_rng_def example_pmm_def)
  moreover have "mem example_pmm 0xffff800000005000 = 0" by (simp add: example_pmm_def)
  ultimately show ?thesis
    using spec [OF m, of "0xffff800000004fff"] spec [OF m, of "0xffff800000005000"] by auto
qed

text \<open>C11: round trip. An allocation that is released at once succeeds in being released, and
  leaves the set of free pages as it was before the allocation, ready for the next request.\<close>

theorem pmm_alloc_free_roundtrip:
  assumes "pmm_ready L M s" and "small_request pages" and "pmm_alloc pages s = Inr (a, s')"
  shows "\<exists>s''. pmm_free L a pages s' = Inr (0, s'') \<and> free_pages s'' = free_pages s
     \<and> pmm_ready L M s''"
proof -
  obtain s'' where s'': "pmm_release L a pages s' = Inr s''" "free_pages s'' = free_pages s"
      "pmm_ready L M s''"
    using frame_alloc.release_alloc [OF assms] by blast
  then obtain r where "pmm_free L a pages s' = Inr (r, s'')"
    by (auto simp: pmm_release_def bindE_Inr_iff)
  moreover from this have "r = 0" by (auto simp: pmm_free_def bindE_Inr_iff)
  ultimately show ?thesis using s'' by blast
qed

theorem pmm_alloc_free_roundtrip_witness:
  "\<exists>a s' s''. pmm_alloc 3 example_pmm = Inr (a, s') \<and> pmm_free example_limine a 3 s' = Inr (0, s'')
     \<and> free_pages s'' = {2..<8}"
proof -
  have "pmm_wf example_pmm" using example_pmm_ready by (simp add: pmm_ready_def)
  moreover have "free_run example_pmm 2 3" by (simp add: free_run_def example_pmm_free)
  ultimately obtain a s' where a: "pmm_alloc 3 example_pmm = Inr (a, s')"
    using pmm_alloc_spec [of 3 example_pmm] by (cases "pmm_alloc 3 example_pmm") auto
  then show ?thesis
    using pmm_alloc_free_roundtrip [OF example_pmm_ready small_example(3) a]
    by (auto simp: example_pmm_free)
qed

section \<open>From boot on\<close>

text \<open>
  What initialisation needs of the machine: a memory map as the boot protocol documents it,
  the last usable entry \<open>k\<close> not being entry 0, a bitmap of less than 4 GiB that is not empty
  and fits in a usable entry (the first one is \<open>i\<close>), and a virtual address of the bitmap
  whose low 32 bits are not all zero (the assertion on it takes an \<^verbatim>\<open>int\<close>).
\<close>

definition pmm_bootable :: "limine \<Rightarrow> nat \<Rightarrow> nat \<Rightarrow> bool" where
  "pmm_bootable L k i \<longleftrightarrow> memmap_ok L \<and> is_last_usable L k
     \<and> 0 < bitmap_bytes L k \<and> bitmap_bytes L k < 2 ^ 32
     \<and> is_bitmap_entry L (bitmap_bytes L k) i
     \<and> ucast (of_nat (skip_base L i) + boot_proto_hhdm_offset L) \<noteq> (0 :: cint)"

definition initial_pages :: "limine \<Rightarrow> nat \<Rightarrow> nat \<Rightarrow> nat set" where
  "initial_pages L k i = usable_pages L - {0} - bitmap_pages L (bitmap_bytes L k) i"

lemma pmm_init_bootable:
  assumes "pmm_bootable L k i"
  shows "\<exists>s'. pmm_init L s = Inr (0, s') \<and> free_pages s' = initial_pages L k i
    \<and> pmm_ready L (initial_pages L k i) s' \<and> npages s' \<le> 2 ^ 51
    \<and> con s' = con s @ ''[ INFO  ] PMM initialized\<newline>''"
  using assms pmm_init_ok [of L k "bitmap_bytes L k" i s]
  by (auto simp: pmm_bootable_def initial_pages_def)

lemma example_types:
  "map (\<lambda>e. memmap_type example_limine (lim_type e)) (lim_entries example_limine) = [1, 2, 1]"
  by (simp add: example_limine_def memmap_type_def memmap_type_defs)

lemma usable_example: "usable example_limine j \<longleftrightarrow> j = 0 \<or> j = 2"
proof -
  have n: "length (lim_entries example_limine) = 3" by (simp add: example_limine_def)
  have "usable example_limine j \<longleftrightarrow> j < 3 \<and> [1, 2, 1] ! j = (1 :: u64)"
    using n unfolding example_types [symmetric]
    by (auto simp: usable_def entry_count_def memmap_entry_def Let_def BOOT_PROTO_MEMMAP_USABLE_def)
  moreover have "j < 3 \<longleftrightarrow> j = 0 \<or> j = 1 \<or> j = 2" by auto
  ultimately show ?thesis by auto
qed

lemma example_entries:
  "ebase example_limine 0 = 0x1000" "elen example_limine 0 = 0x9e000"
  "ebase example_limine 2 = 0x100000" "elen example_limine 2 = 0x40000"
  "unat (boot_proto_hhdm_offset example_limine) = 0xffff800000000000"
  by (simp_all add: ebase_def elen_def memmap_entry_def example_limine_def boot_proto_hhdm_offset_def)

lemma example_bootable: "pmm_bootable example_limine 2 0"
proof -
  have b: "bitmap_bytes example_limine 2 = 40" by (simp add: bitmap_bytes_def example_entries)
  have "memmap_ok example_limine"
    unfolding memmap_ok_def usable_example
    by (auto simp: example_entries) (simp_all add: entry_count_def example_limine_def)
  moreover have "is_last_usable example_limine 2" "is_bitmap_entry example_limine 40 0"
    by (auto simp: is_last_usable_def is_bitmap_entry_def usable_example skip_len_def example_entries)
  moreover have "ucast (of_nat (skip_base example_limine 0) + boot_proto_hhdm_offset example_limine) \<noteq> (0 :: cint)"
    by (simp only: skip_base_def example_entries) (simp add: boot_proto_hhdm_offset_def example_limine_def)
  ultimately show ?thesis by (simp add: pmm_bootable_def b)
qed

lemma example_initial_pages: "initial_pages example_limine 2 0 = {2..<0x9f} \<union> {0x100..<0x140}"
proof -
  have u: "{j. usable example_limine j} = {0, 2}" using usable_example by auto
  have b: "bitmap_bytes example_limine 2 = 40" by (simp add: bitmap_bytes_def example_entries)
  show ?thesis
    by (auto simp: initial_pages_def usable_pages_def entry_pages_def u b bitmap_pages_def
        skip_base_def example_entries)
qed

text \<open>C8: on a bootable machine \<^verbatim>\<open>pmm_init\<close> succeeds, and the free pages afterwards are exactly the
  pages of the usable entries of the memory map, without page 0 and without the pages the bitmap
  itself was placed in; the only message printed is the success log.\<close>

theorem pmm_init_establishes:
  assumes "pmm_bootable L k i"
  shows "\<exists>s'. pmm_init L s = Inr (0, s')
    \<and> free_pages s' = usable_pages L - {0} - bitmap_pages L (bitmap_bytes L k) i
    \<and> (\<forall>x. in_rng (bitmap s') (unat (bitmapSize s')) x \<longrightarrow> page_of L x \<notin> free_pages s')
    \<and> con s' = con s @ ''[ INFO  ] PMM initialized\<newline>''"
  using pmm_init_bootable [OF assms, of s] by (auto simp: initial_pages_def pmm_ready_def)

theorem pmm_init_establishes_witness:
  "\<exists>s'. pmm_init example_limine example_pmm = Inr (0, s') \<and> free_pages s' = {2..<0x9f} \<union> {0x100..<0x140}"
  using pmm_init_establishes [OF example_bootable, of example_pmm]
  unfolding initial_pages_def [symmetric] example_initial_pages by blast

lemma pmm_history_ledger:
  assumes "pmm_bootable L k i" and "pmm_init L s = Inr (r, s0)" and "pmm_reachable L s0 (s', live)"
  shows "frame_alloc.ledger L (initial_pages L k i) s' live"
proof -
  have "free_pages s0 = initial_pages L k i" "pmm_ready L (initial_pages L k i) s0"
    using pmm_init_bootable [OF assms(1), of s] assms(2) by auto
  then show ?thesis using pmm_reachable_ledger [OF _ _ assms(3)] by fastforce
qed

text \<open>C5: safety of every history after boot. Whatever requests, releases of live allocations and
  other activity of the kernel (that leaves the allocator's variables and its bitmap alone)
  follow initialisation: no two live allocations share a page, a live allocation holds only
  usable pages, never page 0 and never a page of the bitmap, the free pages are exactly the
  initial ones that no live allocation holds, and every live allocation can be released.\<close>

theorem pmm_history_safe:
  assumes "pmm_bootable L k i" and "pmm_init L s = Inr (r, s0)" and "pmm_reachable L s0 (s', live)"
  shows "(\<forall>m n. m < n \<longrightarrow> n < length live \<longrightarrow>
        frames (fst (live ! m)) (snd (live ! m)) \<inter> frames (fst (live ! n)) (snd (live ! n)) = {})
    \<and> blocks_of frames live \<subseteq> usable_pages L - {0} - bitmap_pages L (bitmap_bytes L k) i
    \<and> free_pages s' = usable_pages L - {0} - bitmap_pages L (bitmap_bytes L k) i - blocks_of frames live
    \<and> (\<forall>(a, pages) \<in> set live. \<exists>s''. pmm_free L a pages s' = Inr (0, s''))"
proof -
  let ?M = "initial_pages L k i"
  have l: "frame_alloc.ledger L ?M s' live" using assms by (rule pmm_history_ledger)
  then have apart: "apart frames live" and pages: "free_pages s' \<union> blocks_of frames live = ?M"
      "free_pages s' \<inter> blocks_of frames live = {}"
    by (auto simp: frame_alloc.ledger_def)
  have "frames (fst (live ! m)) (snd (live ! m)) \<inter> frames (fst (live ! n)) (snd (live ! n)) = {}"
    if "m < n" "n < length live" for m n
    by (rule apart_nth [OF apart that]) simp_all
  moreover have "\<exists>s''. pmm_free L a p s' = Inr (0, s'')" if live: "(a, p) \<in> set live" for a p
  proof -
    obtain xs ys where "live = xs @ (a, p) # ys" using split_list [OF live] by blast
    then obtain s'' where "pmm_release L a p s' = Inr s''"
      using frame_alloc.ledger_release [of L ?M s' xs a p ys] l by blast
    then show ?thesis by (auto simp: pmm_release_def pmm_free_def bindE_Inr_iff)
  qed
  ultimately show ?thesis using pages unfolding initial_pages_def [symmetric] by blast
qed

theorem pmm_history_safe_witness:
  "\<exists>s0 a s. pmm_init example_limine example_pmm = Inr (0, s0) \<and> pmm_alloc 3 s0 = Inr (a, s)
     \<and> frames a 3 \<subseteq> {2..<0x9f} \<union> {0x100..<0x140}
     \<and> (\<exists>s'. pmm_free example_limine a 3 s = Inr (0, s'))"
proof -
  obtain s0 where s0: "pmm_init example_limine example_pmm = Inr (0, s0)"
      "free_pages s0 = {2..<0x9f} \<union> {0x100..<0x140}" "pmm_wf s0"
    using pmm_init_bootable [OF example_bootable, of example_pmm]
    unfolding example_initial_pages by (auto simp: pmm_ready_def)
  have "free_run s0 2 3" by (auto simp: free_run_def s0(2))
  then obtain a s where a: "pmm_alloc 3 s0 = Inr (a, s)"
    using pmm_alloc_spec [OF _ s0(3), of 3] by (cases "pmm_alloc 3 s0") auto
  have "pmm_reachable example_limine s0 (s, [(a, 3)])"
    using small_example(3) a reach_start by (blast intro: reach_step step_alloc)
  from pmm_history_safe [OF example_bootable s0(1) this] s0(1) a show ?thesis
    unfolding initial_pages_def [symmetric] example_initial_pages by auto
qed

lemma example_booted:
  "\<exists>s0. pmm_init example_limine example_pmm = Inr (0, s0)
     \<and> free_pages s0 = initial_pages example_limine 2 0
     \<and> pmm_ready example_limine (initial_pages example_limine 2 0) s0 \<and> npages s0 \<le> 2 ^ 51"
  using pmm_init_bootable [OF example_bootable, of example_pmm] by blast

end
