(* ===== verification/Page_Table.thy ===== *)
theory Page_Table
  imports Pmm
begin

text \<open>
  The page tables of \<^verbatim>\<open>symphony/arch/x86_64/mm.c\<close>: the layout of an entry (a packed struct of
  bit-fields in one 64-bit word), the walk that allocates missing tables, and the operations on
  an address space. A table is a page of 512 entries, named by the kernel virtual address of the
  page in the direct map. The instruction that flushes a TLB entry has no effect on this state.
\<close>

section \<open>Entries\<close>

record page_table_entry =
  present :: bool
  readWrite :: bool
  userSupervisor :: bool
  writeThrough :: bool
  cacheDisable :: bool
  accessed :: bool
  avl0 :: bool
  pageSize :: bool
  avl1 :: "4 word"
  addr :: "51 word"
  nx :: bool

text \<open>The bit-fields in the order of the struct, from bit 0 up.\<close>

definition decode_pte :: "u64 \<Rightarrow> page_table_entry" where
  "decode_pte w =
     \<lparr>present = bit w 0, readWrite = bit w 1, userSupervisor = bit w 2, writeThrough = bit w 3,
      cacheDisable = bit w 4, accessed = bit w 5, avl0 = bit w 6, pageSize = bit w 7,
      avl1 = ucast (drop_bit 8 w), addr = ucast (drop_bit 12 w), nx = bit w 63\<rparr>"

definition encode_pte :: "page_table_entry \<Rightarrow> u64" where
  "encode_pte e =
     of_bool (present e) OR push_bit 1 (of_bool (readWrite e))
     OR push_bit 2 (of_bool (userSupervisor e)) OR push_bit 3 (of_bool (writeThrough e))
     OR push_bit 4 (of_bool (cacheDisable e)) OR push_bit 5 (of_bool (accessed e))
     OR push_bit 6 (of_bool (avl0 e)) OR push_bit 7 (of_bool (pageSize e))
     OR push_bit 8 (ucast (avl1 e)) OR push_bit 12 (ucast (addr e))
     OR push_bit 63 (of_bool (nx e))"

lemma bit_encode_pte:
  assumes "n < 64"
  shows "bit (encode_pte e) n \<longleftrightarrow>
    (if n = 0 then present e else if n = 1 then readWrite e else if n = 2 then userSupervisor e
     else if n = 3 then writeThrough e else if n = 4 then cacheDisable e else if n = 5 then accessed e
     else if n = 6 then avl0 e else if n = 7 then pageSize e
     else if n < 12 then bit (avl1 e) (n - 8)
     else if n < 63 then bit (addr e) (n - 12) else nx e)"
proof -
  have a: "bit (avl1 e) k \<Longrightarrow> k < 4" "bit (addr e) k \<Longrightarrow> k < 51" for k
    using bit_imp_le_length by fastforce+
  have ob: "bit (of_bool b :: u64) k \<longleftrightarrow> k = 0 \<and> b" for b k
    by (cases b) (simp_all add: bit_1_iff)
  show ?thesis
    using assms
    by (auto simp: encode_pte_def bit_or_iff bit_push_bit_iff bit_ucast_iff bit_2_iff ob dest: a)
qed

lemma decode_encode [simp]: "decode_pte (encode_pte e) = e"
proof -
  have "avl1 (decode_pte (encode_pte e)) = avl1 e" "addr (decode_pte (encode_pte e)) = addr e"
    by (rule bit_word_eqI; simp add: decode_pte_def bit_ucast_iff bit_drop_bit_eq bit_encode_pte)+
  then show ?thesis
    by (intro page_table_entry.equality) (simp_all add: decode_pte_def bit_encode_pte)
qed

lemma encode_decode [simp]: "encode_pte (decode_pte w) = w"
  by (rule bit_word_eqI)
    (auto simp: bit_encode_pte decode_pte_def bit_ucast_iff bit_drop_bit_eq less_Suc_eq
      numeral_eq_Suc)

text \<open>\<^verbatim>\<open>pt->entries[i]\<close>: its address, and reading and writing it.\<close>

definition entry_addr :: "u64 \<Rightarrow> cint \<Rightarrow> u64" where
  "entry_addr pt i = pt + 8 * scast i"

definition read_pte :: "u64 \<Rightarrow> kstate \<Rightarrow> page_table_entry" where
  "read_pte a s = decode_pte (load64 (mem s) a)"

definition write_pte :: "u64 \<Rightarrow> page_table_entry \<Rightarrow> kstate \<Rightarrow> kstate" where
  "write_pte a e s = s\<lparr>mem := store64 a (encode_pte e) (mem s)\<rparr>"

section \<open>The walk\<close>

definition VMM_PRESENT :: cint where "VMM_PRESENT = 1"
definition VMM_RW :: cint where "VMM_RW = push_bit 1 1"
definition VMM_EXEC :: cint where "VMM_EXEC = push_bit 2 1"
definition VMM_RWX :: cint where "VMM_RWX = VMM_RW OR VMM_EXEC"
definition VMM_USER :: cint where "VMM_USER = push_bit 3 1"

definition page_index :: "u64 \<Rightarrow> cint \<times> cint \<times> cint \<times> cint" where
  "page_index virtAddr =
     (let virtAddr = drop_bit 12 virtAddr; Pi = ucast (virtAddr AND 0x1ff);
          virtAddr = drop_bit 9 virtAddr; PTi = ucast (virtAddr AND 0x1ff);
          virtAddr = drop_bit 9 virtAddr; PDi = ucast (virtAddr AND 0x1ff);
          virtAddr = drop_bit 9 virtAddr; PDPi = ucast (virtAddr AND 0x1ff)
      in (Pi, PTi, PDi, PDPi))"

text \<open>A fresh table: an allocated page, zeroed through the direct map (4096 bytes).\<close>

definition arch_vmm_new_pt :: "limine \<Rightarrow> kstate \<Rightarrow> kerror + (u64 \<times> kstate)" where
  "arch_vmm_new_pt L s =
     bindE (pmm_alloc 1 s) (\<lambda>(a, s).
       let pt = a + boot_proto_hhdm_offset L
       in Inr (pt, s\<lparr>mem := snd (memset pt 0 4096 (mem s))\<rparr>))"

text \<open>
  One level of \<^verbatim>\<open>page_from_index\<close>: the table an entry points to, allocated and linked when the
  entry is not present.
\<close>

definition next_table :: "limine \<Rightarrow> u64 \<Rightarrow> cint \<Rightarrow> kstate \<Rightarrow> kerror + (u64 \<times> kstate)" where
  "next_table L pt i s =
     (let currentEntry = read_pte (entry_addr pt i) s in
      if \<not> present currentEntry then
        bindE (arch_vmm_new_pt L s) (\<lambda>(t, s).
          let currentEntry = currentEntry
                \<lparr>addr := ucast (drop_bit 12 (t - boot_proto_hhdm_offset L)),
                 present := True, readWrite := True, userSupervisor := True\<rparr>
          in Inr (t, write_pte (entry_addr pt i) currentEntry s))
      else Inr (push_bit 12 (ucast (addr currentEntry)) + boot_proto_hhdm_offset L, s))"

definition page_from_index ::
    "limine \<Rightarrow> u64 \<Rightarrow> cint \<Rightarrow> cint \<Rightarrow> cint \<Rightarrow> cint \<Rightarrow> kstate \<Rightarrow> kerror + (u64 \<times> kstate)" where
  "page_from_index L pt Pi PTi PDi PDPi s =
     bindE (next_table L pt PDPi s) (\<lambda>(PDP, s).
     bindE (next_table L PDP PDi s) (\<lambda>(PD, s).
     bindE (next_table L PD PTi s) (\<lambda>(PT, s).
     Inr (entry_addr PT Pi, s))))"

section \<open>The operations on an address space\<close>

definition arch_vmm_switch :: "limine \<Rightarrow> u64 \<Rightarrow> kstate \<Rightarrow> kstate" where
  "arch_vmm_switch L pageTable s = s\<lparr>cr3 := pageTable - boot_proto_hhdm_offset L\<rparr>"

definition arch_vmm_set_flags :: "limine \<Rightarrow> u64 \<Rightarrow> u64 \<Rightarrow> cint \<Rightarrow> kstate \<Rightarrow> kerror + kstate" where
  "arch_vmm_set_flags L pageTable virtAddr flags s =
     (case page_index virtAddr of (Pi, PTi, PDi, PDPi) \<Rightarrow>
        bindE (page_from_index L pageTable Pi PTi PDi PDPi s) (\<lambda>(pte, s).
          Inr (write_pte pte ((read_pte pte s)
            \<lparr>present := (flags AND VMM_PRESENT \<noteq> 0), readWrite := (flags AND VMM_RW \<noteq> 0),
             userSupervisor := (flags AND VMM_USER \<noteq> 0), pageSize := False,
             nx := \<not> (flags AND VMM_EXEC \<noteq> 0)\<rparr>) s)))"

definition arch_vmm_map ::
    "limine \<Rightarrow> u64 \<Rightarrow> u64 \<Rightarrow> u64 \<Rightarrow> cint \<Rightarrow> kstate \<Rightarrow> kerror + kstate" where
  "arch_vmm_map L pageTable physAddr virtAddr flags s =
     (case page_index virtAddr of (Pi, PTi, PDi, PDPi) \<Rightarrow>
        bindE (page_from_index L pageTable Pi PTi PDi PDPi s) (\<lambda>(pte, s).
        let s = write_pte pte ((read_pte pte s)\<lparr>addr := ucast (drop_bit 12 physAddr)\<rparr>) s
        in arch_vmm_set_flags L pageTable virtAddr flags s))"

definition arch_vmm_unmap :: "limine \<Rightarrow> u64 \<Rightarrow> u64 \<Rightarrow> kstate \<Rightarrow> kerror + kstate" where
  "arch_vmm_unmap L pageTable virtAddr s =
     (case page_index virtAddr of (Pi, PTi, PDi, PDPi) \<Rightarrow>
        bindE (page_from_index L pageTable Pi PTi PDi PDPi s) (\<lambda>(pte, s).
          Inr (write_pte pte ((read_pte pte s)\<lparr>present := False, addr := 0\<rparr>) s)))"

text \<open>
  The nested loops of \<^verbatim>\<open>arch_vmm_destroy_pt\<close>. There \<^verbatim>\<open>addr << 12\<close> has no cast, and a bit-field of
  51 bits keeps its width: the shift drops the bits above.
\<close>

definition table_of :: "limine \<Rightarrow> page_table_entry \<Rightarrow> u64" where
  "table_of L e = ucast (push_bit 12 (addr e)) + boot_proto_hhdm_offset L"

definition free_table :: "limine \<Rightarrow> u64 \<Rightarrow> kstate \<Rightarrow> kerror + kstate" where
  "free_table L t s = bindE (pmm_free L (t - boot_proto_hhdm_offset L) 1 s) (\<lambda>(_, s). Inr s)"

definition free_present :: "limine \<Rightarrow> (u64 \<Rightarrow> kstate \<Rightarrow> kerror + kstate) \<Rightarrow> u64 \<Rightarrow> cint \<Rightarrow> kstate \<Rightarrow> kerror + kstate" where
  "free_present L sub t i s =
     (if t \<noteq> 0 \<and> present (read_pte (entry_addr t i) s) then
        (let u = table_of L (read_pte (entry_addr t i) s)
         in bindE (sub u s) (\<lambda>s. free_table L u s))
      else Inr s)"

definition arch_vmm_destroy_pt :: "limine \<Rightarrow> u64 \<Rightarrow> kstate \<Rightarrow> kerror + kstate" where
  "arch_vmm_destroy_pt L pt s =
     bindE (forE 0 256 (\<lambda>i s.
       if present (read_pte (entry_addr pt i) s) then
         (let PDP = table_of L (read_pte (entry_addr pt i) s) in
          bindE (forE 0 512 (free_present L (\<lambda>PD. forE 0 512 (free_present L (\<lambda>PT.
                   forE 0 512 (free_present L (\<lambda>_ s. Inr s) PT)) PD)) PDP) s)
            (\<lambda>s. free_table L PDP s))
       else Inr s) s)
     (\<lambda>s. free_table L pt s)"

end
