(* ===== verification/Slots.thy ===== *)
theory Slots
  imports Page_Table
begin

text \<open>
  The memory behind the direct map as an array of 8-byte slots: slot \<open>k\<close> lies at the physical
  address \<open>8 * k\<close>, so that page \<open>p\<close> holds the slots from \<open>512 * p\<close> on, and entry \<open>i\<close> of the
  table in page \<open>p\<close> is slot \<open>512 * p + i\<close>. What a store, a zeroed page and a bitmap operation do
  to the slots.
\<close>

definition slot_addr :: "limine \<Rightarrow> nat \<Rightarrow> u64" where
  "slot_addr L k = of_nat (8 * k) + boot_proto_hhdm_offset L"

definition slots :: "limine \<Rightarrow> mem \<Rightarrow> nat \<Rightarrow> u64" where
  "slots L m k = (if k < 2 ^ 61 then load64 m (slot_addr L k) else 0)"

definition page_addr :: "limine \<Rightarrow> nat \<Rightarrow> u64" where
  "page_addr L p = of_nat (p * 4096) + boot_proto_hhdm_offset L"

definition slot_of :: "limine \<Rightarrow> u64 \<Rightarrow> nat" where
  "slot_of L x = unat (x - boot_proto_hhdm_offset L) div 8"

lemma page_of_slot: "page_of L x = slot_of L x div 512"
  by (simp add: page_of_def slot_of_def div_mult2_eq [symmetric])

lemma in_slot:
  assumes "k < 2 ^ 61"
  shows "in_rng (slot_addr L k) 8 x \<longleftrightarrow> slot_of L x = k"
proof -
  let ?h = "boot_proto_hhdm_offset L" and ?a = "of_nat (8 * k) :: u64"
  have ua: "unat ?a = 8 * k" using assms by (intro unat_of_nat_64) simp
  have nw: "no_wrap ?a 8" unfolding no_wrap_def ua using assms by simp
  have "in_rng (slot_addr L k) 8 x \<longleftrightarrow> in_rng ?a 8 (x - ?h)"
    unfolding in_rng_def slot_addr_def by (simp add: algebra_simps)
  also have "\<dots> \<longleftrightarrow> 8 * k \<le> unat (x - ?h) \<and> unat (x - ?h) < 8 * k + 8"
    unfolding in_rng_nat [OF nw] ua ..
  also have "\<dots> \<longleftrightarrow> slot_of L x = k" unfolding slot_of_def by auto
  finally show ?thesis .
qed

lemma in_page:
  assumes "p < 2 ^ 52"
  shows "in_rng (page_addr L p) 4096 x \<longleftrightarrow> page_of L x = p"
  using in_rng_pages [of p 1 L x] assms by (auto simp: page_addr_def)

lemma slots_cong:
  assumes "\<And>x. slot_of L x = k \<Longrightarrow> m x = m' x"
  shows "slots L m k = slots L m' k"
proof (cases "k < 2 ^ 61")
  case True
  then have "load64 m (slot_addr L k) = load64 m' (slot_addr L k)"
    using assms by (intro load64_cong) (simp add: in_slot)
  then show ?thesis by (simp add: slots_def)
qed (simp add: slots_def)

lemma slots_store:
  assumes "k < 2 ^ 61"
  shows "slots L (store64 (slot_addr L k) v m) = (slots L m)(k := v)"
proof
  fix j
  show "slots L (store64 (slot_addr L k) v m) j = ((slots L m)(k := v)) j"
  proof (cases "j = k")
    case True
    then show ?thesis using assms by (simp add: slots_def)
  next
    case False
    then have "slots L (store64 (slot_addr L k) v m) j = slots L m j"
      using assms by (intro slots_cong store64_apply_out) (auto simp: in_slot)
    with False show ?thesis by simp
  qed
qed

lemma slots_memset_page:
  assumes "p < 2 ^ 52"
  shows "slots L (snd (memset (page_addr L p) 0 4096 m)) = (\<lambda>j. if j div 512 = p then 0 else slots L m j)"
proof
  fix j
  let ?m = "snd (memset (page_addr L p) 0 4096 m)"
  have m: "?m x = (if page_of L x = p then 0 else m x)" for x
    using in_page [OF assms(1)] by (simp add: memset_apply)
  show "slots L ?m j = (if j div 512 = p then 0 else slots L m j)"
  proof (cases "j div 512 = p")
    case True
    then have "j < 2 ^ 61 \<Longrightarrow> load64 ?m (slot_addr L j) = 0"
      by (intro load64_zero) (simp add: m page_of_slot in_slot)
    with True show ?thesis by (simp add: slots_def)
  next
    case False
    then have "slots L ?m j = slots L m j"
      by (intro slots_cong) (auto simp: m page_of_slot)
    with False show ?thesis by simp
  qed
qed

lemma slots_outside_bitmap:
  assumes "bitmap_now s U s'"
    and "\<And>x. in_rng (bitmap s) (unat (bitmapSize s)) x \<Longrightarrow> page_of L x \<noteq> j div 512"
  shows "slots L (mem s') j = slots L (mem s) j"
proof (rule slots_cong)
  fix x assume "slot_of L x = j"
  then show "mem s' x = mem s x"
    using assms(2) by (intro bitmap_now_frame [OF assms(1)]) (auto simp: page_of_slot)
qed

lemma slot_bound:
  assumes "p < 2 ^ 52" and "i < 512"
  shows "512 * p + i < (2::nat) ^ 61" and "(512 * p + i) div 512 = p" and "(512 * p + i) mod 512 = i"
proof -
  have "512 * p + i < 512 * Suc p" using assms(2) by simp
  also have "\<dots> \<le> 512 * 2 ^ 52" using assms(1) by (intro mult_le_mono2) simp
  finally show "512 * p + i < (2::nat) ^ 61" by simp
  show "(512 * p + i) div 512 = p" "(512 * p + i) mod 512 = i" using assms(2) by simp_all
qed

lemma entry_addr_slot:
  assumes "i < 512"
  shows "entry_addr (page_addr L p) (of_nat i) = slot_addr L (512 * p + i)"
proof -
  have "sint (of_nat i :: cint) = int i" using assms by (intro sint_of_nat_cint) simp
  then have "(scast (of_nat i :: cint) :: u64) = word_of_int (int i)" by (metis scast_eq)
  then have "(scast (of_nat i :: cint) :: u64) = of_nat i" by simp
  then show ?thesis by (simp add: entry_addr_def page_addr_def slot_addr_def algebra_simps)
qed

lemma unat_ucast_51:
  assumes "q < 2 ^ 51"
  shows "unat (ucast (of_nat q :: u64) :: 51 word) = q"
proof -
  have "unat (of_nat q :: u64) = q" using assms by (intro unat_of_nat_64) simp
  then show ?thesis using assms by (simp only: unsigned_ucast_eq) (simp add: take_bit_nat_eq_self)
qed

text \<open>The address computed for a table from the entry that points to it, and back.\<close>

lemma page_addr_frame:
  assumes "p < 2 ^ 52"
  shows "drop_bit 12 (page_addr L p - boot_proto_hhdm_offset L) = of_nat p"
proof -
  have u: "unat (of_nat (p * 4096) :: u64) = p * 4096" using assms by (intro unat_of_nat_64) simp
  have "unat (drop_bit 12 (of_nat (p * 4096) :: u64)) = p"
    by (simp only: unat_drop_bit_eq u) (simp add: drop_bit_eq_div)
  moreover have "unat (of_nat p :: u64) = p" using assms by (intro unat_of_nat_64) simp
  ultimately have "drop_bit 12 (of_nat (p * 4096) :: u64) = of_nat p"
    by (simp only: word_unat_eq_iff)
  then show ?thesis by (simp only: page_addr_def add_diff_cancel_right')
qed

lemma entry_target: "push_bit 12 (ucast a) + boot_proto_hhdm_offset L = page_addr L (unat (a :: 51 word))"
proof -
  have "(ucast a :: u64) = of_nat (unat a)" by simp
  then show ?thesis by (simp add: page_addr_def push_bit_eq_mult)
qed

end
