(* ===== verification/Page_Tree.thy ===== *)
theory Page_Tree
  imports Slots
begin

text \<open>
  The tables of one address space as a tree over the slots of the direct map, and what the
  processor makes of it: the four-level walk with the rights of all levels combined. The two
  updates the kernel makes, linking a zeroed table below an empty entry and writing an entry of
  a lowest-level table, are studied on the slots alone.
\<close>

section \<open>The processor's walk\<close>

text \<open>
  The walk of the Intel manual over a list of indexes (highest level first): the frame of the
  page with the writable, user and executable rights, combined over the levels. An entry that
  is not present stops it; an entry of an upper level with the page-size bit is a large page,
  which the kernel never builds, and stops it here too. Entries are read as the struct of the
  code, with its 51-bit frame; the walk on the raw words, with the frame in bits 12 to 51 and
  with large pages, is in \<open>Vmm_Spec\<close>, where the two are shown to agree.
\<close>

fun mmu :: "(nat \<Rightarrow> u64) \<Rightarrow> nat \<Rightarrow> nat list \<Rightarrow> (nat \<times> bool \<times> bool \<times> bool) option" where
  "mmu f p [] = Some (p, True, True, True)"
| "mmu f p (i # is) =
     (let e = decode_pte (f (512 * p + i)) in
      if present e \<and> (is \<noteq> [] \<longrightarrow> \<not> pageSize e)
      then map_option (\<lambda>(q, w, u, x). (q, w \<and> readWrite e, u \<and> userSupervisor e, x \<and> \<not> nx e))
             (mmu f (unat (addr e)) is)
      else None)"

section \<open>Trees\<close>

definition child :: "(nat \<Rightarrow> u64) \<Rightarrow> nat \<Rightarrow> nat option" where
  "child f k = (let e = decode_pte (f k) in if present e then Some (unat (addr e)) else None)"

text \<open>An entry of an upper level is empty or a link, which grants every right.\<close>

definition link_ok :: "u64 \<Rightarrow> bool" where
  "link_ok w \<longleftrightarrow> w = 0 \<or> (let e = decode_pte w in
     present e \<and> readWrite e \<and> userSupervisor e \<and> \<not> pageSize e \<and> \<not> nx e)"

text \<open>
  \<open>D\<close> gives the level of every page that holds a table: 3 for the root, 0 for the lowest.
\<close>

definition tree :: "(nat \<Rightarrow> u64) \<Rightarrow> (nat \<Rightarrow> nat option) \<Rightarrow> nat \<Rightarrow> bool" where
  "tree f D r \<longleftrightarrow> D r = Some 3
     \<and> (\<forall>p l i. D p = Some (Suc l) \<longrightarrow> i < 512 \<longrightarrow> link_ok (f (512 * p + i)))
     \<and> (\<forall>p l i q. D p = Some (Suc l) \<longrightarrow> i < 512 \<longrightarrow> child f (512 * p + i) = Some q \<longrightarrow> D q = Some l)
     \<and> (\<forall>p p' l l' i i' q. D p = Some (Suc l) \<longrightarrow> D p' = Some (Suc l') \<longrightarrow> i < 512 \<longrightarrow> i' < 512
          \<longrightarrow> child f (512 * p + i) = Some q \<longrightarrow> child f (512 * p' + i') = Some q \<longrightarrow> p = p' \<and> i = i')"

lemma tree_root: "tree f D r \<Longrightarrow> D r = Some 3"
  and tree_link: "tree f D r \<Longrightarrow> D p = Some (Suc l) \<Longrightarrow> i < 512 \<Longrightarrow> link_ok (f (512 * p + i))"
  and tree_child: "tree f D r \<Longrightarrow> D p = Some (Suc l) \<Longrightarrow> i < 512 \<Longrightarrow> child f (512 * p + i) = Some q
      \<Longrightarrow> D q = Some l"
  and tree_inj: "tree f D r \<Longrightarrow> D p = Some (Suc l) \<Longrightarrow> D p' = Some (Suc l') \<Longrightarrow> i < 512 \<Longrightarrow> i' < 512
      \<Longrightarrow> child f (512 * p + i) = Some q \<Longrightarrow> child f (512 * p' + i') = Some q \<Longrightarrow> p = p' \<and> i = i'"
  unfolding tree_def by blast+

fun walk :: "(nat \<Rightarrow> u64) \<Rightarrow> nat \<Rightarrow> nat list \<Rightarrow> nat option" where
  "walk f p [] = Some p"
| "walk f p (i # is) = (case child f (512 * p + i) of None \<Rightarrow> None | Some q \<Rightarrow> walk f q is)"

lemma walk_append: "walk f p (is @ js) = (case walk f p is of None \<Rightarrow> None | Some q \<Rightarrow> walk f q js)"
  by (induction f p "is" rule: walk.induct) (auto split: option.splits)

lemma walk_level:
  assumes "tree f D r"
  shows "D p = Some n \<Longrightarrow> length is \<le> n \<Longrightarrow> set is \<subseteq> {..<512} \<Longrightarrow> walk f p is = Some q
    \<Longrightarrow> D q = Some (n - length is)"
proof (induction "is" arbitrary: p n)
  case Nil
  then show ?case by simp
next
  case (Cons i "is")
  obtain l where l: "n = Suc l" using Cons.prems(2) by (cases n) auto
  obtain c where c: "child f (512 * p + i) = Some c" "walk f c is = Some q"
    using Cons.prems(4) by (auto split: option.splits)
  have "D c = Some l" using tree_child [OF assms, of p l i c] Cons.prems(1,3) l c(1) by simp
  then show ?case using Cons.IH [of c l] Cons.prems(2,3) c(2) l by simp
qed

text \<open>Two paths to the same table are the same path.\<close>

lemma walk_inj:
  assumes t: "tree f D r"
  shows "length is = length js \<Longrightarrow> D p = Some n \<Longrightarrow> length is \<le> n
    \<Longrightarrow> set is \<subseteq> {..<512} \<Longrightarrow> set js \<subseteq> {..<512}
    \<Longrightarrow> walk f p is = Some q \<Longrightarrow> walk f p js = Some q \<Longrightarrow> is = js"
proof (induction "is" arbitrary: js q rule: rev_induct)
  case Nil
  then show ?case by simp
next
  case (snoc i "is")
  obtain j ks where js: "js = ks @ [j]" "length ks = length is"
    using snoc.prems(1) by (cases js rule: rev_cases) auto
  obtain u where u: "walk f p is = Some u" "child f (512 * u + i) = Some q"
    using snoc.prems(6) by (auto simp: walk_append split: option.splits)
  obtain v where v: "walk f p ks = Some v" "child f (512 * v + j) = Some q"
    using snoc.prems(7) by (auto simp: js walk_append split: option.splits)
  obtain l where l: "n - length is = Suc l" using snoc.prems(3) by (cases "n - length is") auto
  have "D u = Some (Suc l)" using walk_level [OF t, of p n "is" u] snoc.prems u(1) l by simp
  moreover have "D v = Some (Suc l)" using walk_level [OF t, of p n ks v] snoc.prems v(1) l js by simp
  ultimately have "u = v \<and> i = j"
    using tree_inj [OF t, of u l v l i j q] u(2) v(2) snoc.prems(4,5) js by simp
  then show ?case using snoc.IH [of ks u] u v js snoc.prems by simp
qed

text \<open>What the walk finds at the entry of the lowest table.\<close>

definition leaf_view :: "u64 \<Rightarrow> (nat \<times> bool \<times> bool \<times> bool) option" where
  "leaf_view w = (let e = decode_pte w in
     if present e then Some (unat (addr e), readWrite e, userSupervisor e, \<not> nx e) else None)"

lemma child_None_zero: "tree f D r \<Longrightarrow> D p = Some (Suc l) \<Longrightarrow> i < 512
    \<Longrightarrow> child f (512 * p + i) = None \<longleftrightarrow> f (512 * p + i) = 0"
  using tree_link [of f D r p l i] by (auto simp: child_def link_ok_def Let_def decode_pte_def)

lemma mmu_walk:
  assumes t: "tree f D r"
  shows "D p = Some (length is) \<Longrightarrow> set is \<subseteq> {..<512} \<Longrightarrow>
    mmu f p (is @ [i]) = (case walk f p is of None \<Rightarrow> None | Some q \<Rightarrow> leaf_view (f (512 * q + i)))"
proof (induction "is" arbitrary: p)
  case Nil
  then show ?case by (simp add: leaf_view_def Let_def)
next
  case (Cons j "is")
  have j: "j < 512" and p: "D p = Some (Suc (length is))" using Cons.prems by simp_all
  have lk: "link_ok (f (512 * p + j))" by (rule tree_link [OF t p j])
  show ?case
  proof (cases "child f (512 * p + j)")
    case None
    then have "\<not> present (decode_pte (f (512 * p + j)))" by (auto simp: child_def Let_def split: if_splits)
    then show ?thesis using None by (simp add: Let_def)
  next
    case (Some c)
    then have c: "present (decode_pte (f (512 * p + j)))" "unat (addr (decode_pte (f (512 * p + j)))) = c"
      by (auto simp: child_def Let_def split: if_splits)
    then have "f (512 * p + j) \<noteq> 0" by (auto simp: decode_pte_def)
    then have r: "readWrite (decode_pte (f (512 * p + j)))" "userSupervisor (decode_pte (f (512 * p + j)))"
      "\<not> pageSize (decode_pte (f (512 * p + j)))" "\<not> nx (decode_pte (f (512 * p + j)))"
      using lk by (auto simp: link_ok_def Let_def)
    have "D c = Some (length is)" by (rule tree_child [OF t p j Some])
    then have "mmu f c (is @ [i]) = (case walk f c is of None \<Rightarrow> None | Some q \<Rightarrow> leaf_view (f (512 * q + i)))"
      using Cons.prems(2) by (intro Cons.IH) simp_all
    then show ?thesis
      using Some c r by (auto simp: Let_def option.map_id split: option.splits)
  qed
qed

section \<open>Only the pages of the tables matter\<close>

definition agree :: "(nat \<Rightarrow> nat option) \<Rightarrow> (nat \<Rightarrow> u64) \<Rightarrow> (nat \<Rightarrow> u64) \<Rightarrow> bool" where
  "agree D f g \<longleftrightarrow> (\<forall>j. D (j div 512) \<noteq> None \<longrightarrow> g j = f j)"

lemma tree_cong:
  assumes t: "tree f D r"
    and same: "\<And>a m (j :: nat). D a = Some (Suc m) \<Longrightarrow> j < 512 \<Longrightarrow> g (512 * a + j) = f (512 * a + j)"
  shows "tree g D r"
proof -
  have ch: "child g (512 * a + j) = child f (512 * a + j)" if "D a = Some (Suc m)" "j < 512" for a m and j :: nat
    by (simp add: child_def same [OF that])
  show ?thesis
    unfolding tree_def
  proof (intro conjI allI impI)
    show "D r = Some 3" by (rule tree_root [OF t])
  next
    fix p l and i :: nat assume "D p = Some (Suc l)" "i < 512"
    then show "link_ok (g (512 * p + i))" using tree_link [OF t, of p l i] same [of p l i] by simp
  next
    fix p l q and i :: nat assume "D p = Some (Suc l)" "i < 512" "child g (512 * p + i) = Some q"
    then show "D q = Some l" using tree_child [OF t, of p l i q] ch [of p l i] by simp
  next
    fix p p' l l' q and i i' :: nat
    assume "D p = Some (Suc l)" "D p' = Some (Suc l')" "i < 512" "i' < 512"
      "child g (512 * p + i) = Some q" "child g (512 * p' + i') = Some q"
    then show "p = p'" "i = i'" using tree_inj [OF t, of p l p' l' i i' q] ch [of p l i] ch [of p' l' i'] by simp_all
  qed
qed

lemma agreeD: "agree D f g \<Longrightarrow> D a = Some n \<Longrightarrow> j < 512 \<Longrightarrow> g (512 * a + j) = f (512 * a + j)"
  by (auto simp: agree_def)

lemma tree_agree: "tree f D r \<Longrightarrow> agree D f g \<Longrightarrow> tree g D r"
  by (rule tree_cong, assumption, rule agreeD)

lemma walk_agree:
  assumes t: "tree f D r" and g: "agree D f g"
  shows "D a = Some n \<Longrightarrow> length is \<le> n \<Longrightarrow> set is \<subseteq> {..<512} \<Longrightarrow> walk g a is = walk f a is"
proof (induction "is" arbitrary: a n)
  case Nil
  then show ?case by simp
next
  case (Cons j "is")
  obtain m where m: "n = Suc m" using Cons.prems(2) by (cases n) auto
  have ch: "child g (512 * a + j) = child f (512 * a + j)"
    using agreeD [OF g, of a n j] Cons.prems(1,3) by (simp add: child_def)
  show ?case
  proof (cases "child f (512 * a + j)")
    case (Some c)
    have "D c = Some m" using tree_child [OF t, of a m j c] Cons.prems(1,3) m Some by simp
    then show ?thesis using Cons.IH [of c m] Cons.prems m ch Some by simp
  qed (simp add: ch)
qed

lemma mmu_agree:
  assumes t: "tree f D r" and g: "agree D f g" and a: "D a = Some (length is)"
    and idx: "set is \<subseteq> {..<512}" "i < 512"
  shows "mmu g a (is @ [i]) = mmu f a (is @ [i])"
proof -
  have "leaf_view (g (512 * q + i)) = leaf_view (f (512 * q + i))" if "walk f a is = Some q" for q
    using agreeD [OF g, of q 0 i] walk_level [OF t a _ idx(1) that] idx(2) by simp
  then show ?thesis
    using mmu_walk [OF t a idx(1)] mmu_walk [OF tree_agree [OF t g] a idx(1)] walk_agree [OF t g a _ idx(1)]
    by (auto split: option.splits)
qed

section \<open>Linking a fresh table\<close>

text \<open>
  Page \<open>q\<close> is zeroed and linked below the empty entry \<open>i\<close> of table \<open>p\<close>: the tree has one more
  table, and the processor sees the same translations.
\<close>

definition link_table :: "(nat \<Rightarrow> u64) \<Rightarrow> nat \<Rightarrow> nat \<Rightarrow> u64 \<Rightarrow> nat \<Rightarrow> u64" where
  "link_table f q k v = (\<lambda>j. if j = k then v else if j div 512 = q then 0 else f j)"

lemma child_zero [simp]: "child (\<lambda>_. 0) k = None"
  by (simp add: child_def decode_pte_def)

lemma link_table_tree:
  assumes t: "tree f D r" and p: "D p = Some (Suc l)" "i < 512" "f (512 * p + i) = 0"
    and q: "D q = None" and v: "link_ok v" "child (\<lambda>_. v) 0 = Some q"
  shows "tree (link_table f q (512 * p + i) v) (D(q \<mapsto> l)) r"
proof -
  let ?g = "link_table f q (512 * p + i) v"
  have pq: "p \<noteq> q" using p(1) q by auto
  have g_old: "?g (512 * a + j) = (if a = p \<and> j = i then v else f (512 * a + j))"
    if "a \<noteq> q" "j < 512" for a j
    using that p(2) by (auto simp: link_table_def) (metis div_mult_self4 div_less mod_mult_self4 mod_less zero_neq_numeral add.right_neutral)+
  have g_new: "?g (512 * q + j) = 0" if "j < 512" for j
    using that p(2) pq by (auto simp: link_table_def) 
  have ch_old: "child ?g (512 * a + j) = (if a = p \<and> j = i then Some q else child f (512 * a + j))"
    if "a \<noteq> q" "j < 512" for a j
    using v(2) by (simp add: child_def g_old [OF that])
  have ch_new: "child ?g (512 * q + j) = None" if "j < 512" for j
    using that by (simp add: child_def g_new decode_pte_def)
  have nq: "child f (512 * a + j) \<noteq> Some q" if "D a = Some (Suc m)" "j < 512" for a m j
    using tree_child [OF t that] q by auto
  have "D r = Some 3" by (rule tree_root [OF t])
  then have "(D(q \<mapsto> l)) r = Some 3" using q by auto
  moreover have "link_ok (?g (512 * a + j))" if "(D(q \<mapsto> l)) a = Some (Suc m)" "j < 512" for a m j
    using that tree_link [OF t] v(1)
    by (cases "a = q") (auto simp: g_old g_new link_ok_def)
  moreover have "(D(q \<mapsto> l)) c = Some m"
    if "(D(q \<mapsto> l)) a = Some (Suc m)" "j < 512" "child ?g (512 * a + j) = Some c" for a m j c
    using that tree_child [OF t, of a m j c] p(1) nq [of a m j]
    by (cases "a = q") (auto simp: ch_old ch_new split: if_splits)
  moreover have "a = a' \<and> j = j'"
    if "(D(q \<mapsto> l)) a = Some (Suc m)" "(D(q \<mapsto> l)) a' = Some (Suc m')" "j < 512" "j' < 512"
      "child ?g (512 * a + j) = Some c" "child ?g (512 * a' + j') = Some c" for a a' m m' j j' c
  proof -
    have "a \<noteq> q" "a' \<noteq> q" using that(3-6) ch_new by auto
    then show ?thesis
      using that tree_inj [OF t, of a m a' m' j j' c] nq [of a m j] nq [of a' m' j']
      by (auto simp: ch_old split: if_splits)
  qed
  ultimately show ?thesis unfolding tree_def by blast
qed

lemma entry_slot_eq:
  assumes "i < 512" and "j < 512"
  shows "512 * p + i = 512 * q + j \<longleftrightarrow> p = q \<and> i = (j::nat)"
proof
  assume eq: "512 * p + i = 512 * q + j"
  have "(512 * p + i) div 512 = p" "(512 * q + j) div 512 = q" using assms by simp_all
  then show "p = q \<and> i = j" using eq by simp
qed simp

lemma entry_div: "j < 512 \<Longrightarrow> (512 * p + j) div 512 = (p::nat)"
  by simp

lemma link_table_simps:
  assumes "p \<noteq> q" and "i < 512" and "j < 512"
  shows "a \<noteq> q \<Longrightarrow> link_table f q (512 * p + i) v (512 * a + j)
      = (if a = p \<and> j = i then v else f (512 * a + j))"
    and "link_table f q (512 * p + i) v (512 * q + j) = 0"
  using assms entry_slot_eq [of j i a p] entry_slot_eq [of j i q p]
  by (simp_all add: link_table_def)

lemma walk_link_table:
  assumes t: "tree f D r" and p: "D p = Some (Suc l)" "i < 512" "f (512 * p + i) = 0"
    and q: "D q = None"
  shows "D a = Some n \<Longrightarrow> length is \<le> n \<Longrightarrow> set is \<subseteq> {..<512} \<Longrightarrow> walk f a is = Some b
    \<Longrightarrow> walk (link_table f q (512 * p + i) v) a is = Some b"
proof (induction "is" arbitrary: a n)
  case Nil
  then show ?case by simp
next
  case (Cons j "is")
  obtain m where m: "n = Suc m" using Cons.prems(2) by (cases n) auto
  obtain c where c: "child f (512 * a + j) = Some c" "walk f c is = Some b"
    using Cons.prems(4) by (auto split: option.splits)
  have ne: "a \<noteq> q" "p \<noteq> q" using Cons.prems(1) p(1) q by auto
  have "\<not> (a = p \<and> j = i)" using c(1) p(3) by (auto simp: child_def decode_pte_def)
  then have "child (link_table f q (512 * p + i) v) (512 * a + j) = Some c"
    using link_table_simps(1) [of p q i j a f v] ne p(2) Cons.prems(3) c(1) by (auto simp: child_def)
  moreover have "D c = Some m" using tree_child [OF t, of a m j c] Cons.prems(1,3) m c(1) by simp
  ultimately show ?case using Cons.IH [of c m] Cons.prems(2,3) c(2) m by simp
qed

lemma walk_linked:
  assumes "p \<noteq> q" and "i < 512" and "child (\<lambda>_. v) 0 = Some q"
  shows "child (link_table f q (512 * p + i) v) (512 * p + i) = Some q"
  using assms link_table_simps(1) [of p q i i p f v] by (simp add: child_def)

lemma mmu_link_table:
  assumes t: "tree f D r" and p: "D p = Some (Suc l)" "i < 512" "f (512 * p + i) = 0"
    and q: "D q = None" and v: "child (\<lambda>_. v) 0 = Some q"
  shows "D a = Some n \<Longrightarrow> length is = Suc n \<Longrightarrow> set is \<subseteq> {..<512} \<Longrightarrow>
    mmu (link_table f q (512 * p + i) v) a is = mmu f a is"
proof (induction "is" arbitrary: a n)
  case Nil
  then show ?case by simp
next
  case (Cons j "is")
  let ?g = "link_table f q (512 * p + i) v"
  have j: "j < 512" using Cons.prems(3) by simp
  have ne: "a \<noteq> q" "p \<noteq> q" using Cons.prems(1) p(1) q by auto
  show ?case
  proof (cases "a = p \<and> j = i")
    case True
    then have n: "n = Suc l" using Cons.prems(1) p(1) by simp
    then obtain j' js where js: "is = j' # js" using Cons.prems(2) by (cases "is") auto
    have "?g (512 * q + j') = 0" using link_table_simps(2) [of p q i j'] ne p(2) Cons.prems(3) js by simp
    then have "mmu ?g q is = None" by (simp add: js decode_pte_def Let_def)
    moreover have "unat (addr (decode_pte v)) = q" using v by (auto simp: child_def Let_def split: if_splits)
    ultimately have "mmu ?g a (j # is) = None"
      using True link_table_simps(1) [of p q i i p f v] ne p(2) by (simp add: Let_def)
    moreover have "mmu f a (j # is) = None" using True p(3) by (simp add: decode_pte_def Let_def)
    ultimately show ?thesis by simp
  next
    case False
    then have g: "?g (512 * a + j) = f (512 * a + j)"
      using link_table_simps(1) [of p q i j a f v] ne p(2) j by auto
    show ?thesis
    proof (cases "is = [] \<or> child f (512 * a + j) = None")
      case True
      then show ?thesis using g by (auto simp: child_def Let_def split: if_splits)
    next
      case inner: False
      then obtain c where c: "child f (512 * a + j) = Some c" by blast
      obtain m where m: "n = Suc m" using inner Cons.prems(2) by (cases n) auto
      have "D c = Some m" using tree_child [OF t, of a m j c] Cons.prems(1) j m c by simp
      then have "mmu ?g c is = mmu f c is" using Cons.prems m by (intro Cons.IH) simp_all
      moreover have "unat (addr (decode_pte (f (512 * a + j)))) = c"
        using c by (auto simp: child_def Let_def split: if_splits)
      ultimately show ?thesis using g by (auto simp: Let_def)
    qed
  qed
qed

section \<open>Writing an entry of a lowest table\<close>

lemma leaf_write_tree:
  assumes t: "tree f D r" and p: "D p = Some 0" "i < 512"
  shows "tree (f(512 * p + i := v)) D r"
proof (rule tree_cong [OF t])
  fix a m and j :: nat assume "D a = Some (Suc m)" "j < 512"
  then show "(f(512 * p + i := v)) (512 * a + j) = f (512 * a + j)"
    using p entry_slot_eq [of j i a p] by auto
qed

lemma walk_leaf_write:
  assumes t: "tree f D r" and p: "D p = Some 0" "i < 512"
  shows "D a = Some n \<Longrightarrow> length is \<le> n \<Longrightarrow> set is \<subseteq> {..<512} \<Longrightarrow>
    walk (f(512 * p + i := v)) a is = walk f a is"
proof (induction "is" arbitrary: a n)
  case Nil
  then show ?case by simp
next
  case (Cons j "is")
  obtain m where m: "n = Suc m" using Cons.prems(2) by (cases n) auto
  have "512 * a + j \<noteq> 512 * p + i"
    using entry_slot_eq [of j i a p] Cons.prems(1,3) p m by auto
  then have ch: "child (f(512 * p + i := v)) (512 * a + j) = child f (512 * a + j)" by (simp add: child_def)
  show ?case
  proof (cases "child f (512 * a + j)")
    case (Some c)
    have "D c = Some m" using tree_child [OF t, of a m j c] Cons.prems(1,3) m Some by simp
    then show ?thesis using Cons.IH [of c m] Cons.prems m ch Some by (simp del: fun_upd_apply)
  qed (simp add: ch del: fun_upd_apply)
qed

lemma mmu_leaf_write:
  assumes t: "tree f D r" and w: "walk f r is = Some p" "length is = 3" "set is \<subseteq> {..<512}" "i < 512"
    and js: "length js = 3" "set js \<subseteq> {..<512}" "j < 512"
  shows "mmu (f(512 * p + i := v)) r (js @ [j])
    = (if js @ [j] = is @ [i] then leaf_view v else mmu f r (js @ [j]))"
proof -
  let ?g = "f(512 * p + i := v)"
  have r: "D r = Some 3" by (rule tree_root [OF t])
  have p: "D p = Some 0" using walk_level [OF t r, of "is" p] w by simp
  have tg: "tree ?g D r" by (rule leaf_write_tree [OF t p w(4)])
  have wk: "walk ?g r js = walk f r js" using walk_leaf_write [OF t p w(4) r, of js v] js by simp
  have same: "js = is" if "walk f r js = Some p"
    using walk_inj [OF t, of js "is" r 3 p] that w js r by simp
  have f: "mmu f r (js @ [j]) = (case walk f r js of None \<Rightarrow> None | Some q \<Rightarrow> leaf_view (f (512 * q + j)))"
    and g: "mmu ?g r (js @ [j]) = (case walk f r js of None \<Rightarrow> None | Some q \<Rightarrow> leaf_view (?g (512 * q + j)))"
    using mmu_walk [OF t, of r js j] mmu_walk [OF tg, of r js j] r js wk by simp_all
  show ?thesis
  proof (cases "walk f r js")
    case None
    then show ?thesis using f g w(1) by auto
  next
    case (Some q)
    show ?thesis
    proof (cases "q = p \<and> j = i")
      case True
      then show ?thesis using f g Some same by simp
    next
      case False
      then have "?g (512 * q + j) = f (512 * q + j)"
        using entry_slot_eq [of j i q p] js(3) w(4) by auto
      moreover have "js @ [j] \<noteq> is @ [i]" using False Some w(1) by auto
      ultimately show ?thesis using f g Some by (simp only: option.case if_False)
    qed
  qed
qed

end
