(* ===== verification/Paging.thy ===== *)
theory Paging
  imports Page_Tree
begin

text \<open>
  The page-table operations against the processor's view: the invariant of an address space in
  memory, that the walk with allocation keeps it and changes no translation, and that mapping,
  unmapping and changing flags change exactly the translation of their page.
\<close>

section \<open>The invariant\<close>

text \<open>
  \<open>M\<close> are the pages the allocator manages, \<open>D\<close> the levels of the pages that hold tables, \<open>r\<close>
  the page of the root: the tables form a tree and lie in managed pages that are allocated. A
  page number fits the 51 bits of an entry.
\<close>

definition vm_ok :: "limine \<Rightarrow> nat set \<Rightarrow> (nat \<Rightarrow> nat option) \<Rightarrow> nat \<Rightarrow> kstate \<Rightarrow> bool" where
  "vm_ok L M D r s \<longleftrightarrow> pmm_ready L M s \<and> npages s \<le> 2 ^ 51 \<and> tree (slots L (mem s)) D r
     \<and> dom D \<subseteq> M \<and> dom D \<inter> free_pages s = {}"

text \<open>
  From \<open>s\<close> to \<open>s'\<close> the address space may have got more tables, out of free pages: tables
  found before are still found, and memory changes only in tables and in the allocator's bitmap.
  With \<open>vm_grows\<close> no translation changes either.
\<close>

definition vm_ext ::
    "limine \<Rightarrow> nat set \<Rightarrow> nat \<Rightarrow> (nat \<Rightarrow> nat option) \<Rightarrow> kstate \<Rightarrow> (nat \<Rightarrow> nat option) \<Rightarrow> kstate \<Rightarrow> bool" where
  "vm_ext L M r D s D' s' \<longleftrightarrow> vm_ok L M D' r s' \<and> D \<subseteq>\<^sub>m D' \<and> dom D' \<subseteq> dom D \<union> free_pages s
     \<and> s' = s\<lparr>mem := mem s'\<rparr> \<and> free_pages s' = free_pages s - dom D'
     \<and> (\<forall>is q. length is \<le> 3 \<longrightarrow> set is \<subseteq> {..<512} \<longrightarrow>
          walk (slots L (mem s)) r is = Some q \<longrightarrow> walk (slots L (mem s')) r is = Some q)
     \<and> (\<forall>x. page_of L x \<notin> dom D \<union> free_pages s \<longrightarrow>
          \<not> in_rng (bitmap s) (unat (bitmapSize s)) x \<longrightarrow> mem s' x = mem s x)"

definition vm_grows ::
    "limine \<Rightarrow> nat set \<Rightarrow> nat \<Rightarrow> (nat \<Rightarrow> nat option) \<Rightarrow> kstate \<Rightarrow> (nat \<Rightarrow> nat option) \<Rightarrow> kstate \<Rightarrow> bool" where
  "vm_grows L M r D s D' s' \<longleftrightarrow> vm_ext L M r D s D' s'
     \<and> (\<forall>is. length is = 4 \<longrightarrow> set is \<subseteq> {..<512} \<longrightarrow>
          mmu (slots L (mem s')) r is = mmu (slots L (mem s)) r is)"

lemma vm_ext_refl: "vm_ok L M D r s \<Longrightarrow> vm_ext L M r D s D s"
  by (auto simp: vm_ext_def vm_ok_def)

lemma vm_grows_refl: "vm_ok L M D r s \<Longrightarrow> vm_grows L M r D s D s"
  by (simp add: vm_grows_def vm_ext_refl)

lemma vm_ext_fields:
  assumes "vm_ext L M r D s D' s'"
  shows "vm_ok L M D' r s'" "bitmap s' = bitmap s" "bitmapSize s' = bitmapSize s" "con s' = con s"
    "npages s' = npages s" "D \<subseteq>\<^sub>m D'" "free_pages s' = free_pages s - dom D'"
    "dom D' \<subseteq> dom D \<union> free_pages s" "s' = s\<lparr>mem := mem s'\<rparr>"
proof -
  show eq: "s' = s\<lparr>mem := mem s'\<rparr>" using assms by (simp only: vm_ext_def)
  show "bitmap s' = bitmap s" "bitmapSize s' = bitmapSize s" "con s' = con s" by (subst eq, simp)+
  then show "npages s' = npages s" by (simp add: npages_def)
  show "vm_ok L M D' r s'" "D \<subseteq>\<^sub>m D'" "free_pages s' = free_pages s - dom D'"
    "dom D' \<subseteq> dom D \<union> free_pages s"
    using assms by (simp_all only: vm_ext_def)
qed

lemma vm_ext_walk: "vm_ext L M r D s D' s' \<Longrightarrow> length is \<le> 3 \<Longrightarrow> set is \<subseteq> {..<512} \<Longrightarrow>
    walk (slots L (mem s)) r is = Some q \<Longrightarrow> walk (slots L (mem s')) r is = Some q"
  and vm_ext_frame: "vm_ext L M r D s D' s' \<Longrightarrow> page_of L x \<notin> dom D \<union> free_pages s \<Longrightarrow>
     \<not> in_rng (bitmap s) (unat (bitmapSize s)) x \<Longrightarrow> mem s' x = mem s x"
  unfolding vm_ext_def by blast+

lemma vm_grows_ext: "vm_grows L M r D s D' s' \<Longrightarrow> vm_ext L M r D s D' s'"
  and vm_grows_mmu: "vm_grows L M r D s D' s' \<Longrightarrow> length is = 4 \<Longrightarrow> set is \<subseteq> {..<512} \<Longrightarrow>
    mmu (slots L (mem s')) r is = mmu (slots L (mem s)) r is"
  by (simp_all add: vm_grows_def)

lemmas vm_grows_fields = vm_ext_fields [OF vm_grows_ext]
  and vm_grows_walk = vm_ext_walk [OF vm_grows_ext]

lemma mem_only_trans:
  assumes "s1 = s\<lparr>mem := mem s1\<rparr>" and "s2 = s1\<lparr>mem := mem s2\<rparr>"
  shows "s2 = (s :: kstate)\<lparr>mem := mem s2\<rparr>"
proof -
  obtain m1 m2 where "s1 = s\<lparr>mem := m1\<rparr>" "s2 = s1\<lparr>mem := m2\<rparr>" using assms by blast
  then show ?thesis by simp
qed

lemma vm_ext_trans:
  assumes g1: "vm_ext L M r D s D1 s1" and g2: "vm_ext L M r D1 s1 D2 s2"
  shows "vm_ext L M r D s D2 s2"
proof -
  note f1 = vm_ext_fields [OF g1] and f2 = vm_ext_fields [OF g2]
  have "dom D1 \<subseteq> dom D2" using f2(6) by (rule map_le_implies_dom_le)
  then have "free_pages s2 = free_pages s - dom D2" "dom D2 \<subseteq> dom D \<union> free_pages s"
    using f1(7,8) f2(7,8) by blast+
  moreover have "s2 = s\<lparr>mem := mem s2\<rparr>" by (rule mem_only_trans [OF f1(9) f2(9)])
  moreover have "D \<subseteq>\<^sub>m D2" using f1(6) f2(6) by (rule map_le_trans)
  moreover have "mem s2 x = mem s x"
    if "page_of L x \<notin> dom D \<union> free_pages s" "\<not> in_rng (bitmap s) (unat (bitmapSize s)) x" for x
  proof -
    have "page_of L x \<notin> dom D1 \<union> free_pages s1" using that(1) f1(7,8) by blast
    then have "mem s2 x = mem s1 x"
      using vm_ext_frame [OF g2] that(2) f1(2,3) by simp
    then show ?thesis using vm_ext_frame [OF g1 that] by simp
  qed
  ultimately show ?thesis
    unfolding vm_ext_def using f2(1) vm_ext_walk [OF g1] vm_ext_walk [OF g2] by simp
qed

lemma vm_grows_trans:
  "vm_grows L M r D s D1 s1 \<Longrightarrow> vm_grows L M r D1 s1 D2 s2 \<Longrightarrow> vm_grows L M r D s D2 s2"
  using vm_ext_trans by (auto simp: vm_grows_def)

section \<open>A fresh table\<close>

lemma pmm_ready_mem:
  assumes "pmm_ready L M s" and "\<And>x. page_of L x \<notin> M \<Longrightarrow> m x = mem s x"
  shows "pmm_ready L M (s\<lparr>mem := m\<rparr>)" and "free_pages (s\<lparr>mem := m\<rparr>) = free_pages s"
proof -
  have "mem (s\<lparr>mem := m\<rparr>) x = mem s x" if "in_rng (bitmap s) (unat (bitmapSize s)) x" for x
    using that assms by (simp add: pmm_ready_def)
  then show "pmm_ready L M (s\<lparr>mem := m\<rparr>)" "free_pages (s\<lparr>mem := m\<rparr>) = free_pages s"
    using pmm_ready_other(1) [of "s\<lparr>mem := m\<rparr>" s] pmm_ready_other(2) [of "s\<lparr>mem := m\<rparr>" s L M] assms(1)
    by simp_all
qed

lemma small_request_1: "small_request 1"
  by (simp add: small_request_def)

lemma new_pt_spec:
  assumes ready: "pmm_ready L M s" and np: "npages s \<le> 2 ^ 51"
  shows "case arch_vmm_new_pt L s of
      Inl e \<Rightarrow> e = Halted (con s @ oom_message) \<and> free_pages s = {}
    | Inr (t, s') \<Rightarrow> \<exists>q \<in> free_pages s. t = page_addr L q \<and> q < 2 ^ 51 \<and> s' = s\<lparr>mem := mem s'\<rparr>
        \<and> free_pages s' = free_pages s - {q} \<and> pmm_ready L M s'
        \<and> (\<forall>x. page_of L x \<noteq> q \<longrightarrow> \<not> in_rng (bitmap s) (unat (bitmapSize s)) x \<longrightarrow> mem s' x = mem s x)
        \<and> (\<forall>j. j div 512 = q \<longrightarrow> slots L (mem s') j = 0)"
proof -
  have wf: "pmm_wf s" using ready by (simp add: pmm_ready_def)
  note spec = pmm_alloc_spec [OF _ wf, of 1]
  show ?thesis
  proof (cases "pmm_alloc 1 s")
    case (Inl e)
    then have "e = Halted (con s @ oom_message)" "\<forall>b. \<not> free_run s b 1" using spec by simp_all
    then show ?thesis using Inl by (auto simp: arch_vmm_new_pt_def free_run_def)
  next
    case (Inr r)
    obtain a s1 where r: "r = (a, s1)" by (cases r)
    obtain q where q: "a = of_nat (q * 4096)" "q + 1 \<le> npages s" "free_run s q 1"
        and now: "bitmap_now s (\<lambda>k. (q \<le> k \<and> k < q + 1) \<or> page_used s k) s1"
      using spec Inr r by auto
    have qf: "q \<in> free_pages s" "q < 2 ^ 51" using q(2,3) np by (auto simp: free_run_def)
    have law: "free_pages s1 = free_pages s - {q}" "pmm_ready L M s1"
      using pmm_alloc_law [OF ready small_request_1, of a s1] Inr r
        frames_of_page(3) [of q 1] qf(2) by (simp_all add: q(1) del: of_nat_mult)
    define m where "m = snd (memset (page_addr L q) 0 4096 (mem s1))"
    have m: "m x = (if page_of L x = q then 0 else mem s1 x)" for x
      using in_page [of q L x] qf(2) by (simp add: m_def memset_apply)
    have "q \<in> M" using qf(1) ready by (auto simp: pmm_ready_def)
    then have "m x = mem s1 x" if "page_of L x \<notin> M" for x using that by (auto simp: m)
    note ready' = pmm_ready_mem [OF law(2) this]
    obtain m1 where "s1 = s\<lparr>mem := m1\<rparr>" using bitmap_now_fields(5) [OF now] by blast
    then have eq: "s1\<lparr>mem := m\<rparr> = s\<lparr>mem := m\<rparr>" by simp
    have "slots L m j = 0" if "j div 512 = q" for j
      unfolding m_def using slots_memset_page [of q L "mem s1"] qf(2) that by simp
    moreover have "m x = mem s x"
      if "page_of L x \<noteq> q" "\<not> in_rng (bitmap s) (unat (bitmapSize s)) x" for x
      using bitmap_now_frame [OF now that(2)] that(1) by (simp add: m)
    moreover have "arch_vmm_new_pt L s = Inr (page_addr L q, s1\<lparr>mem := m\<rparr>)"
      using Inr r by (simp add: arch_vmm_new_pt_def page_addr_def q(1) m_def Let_def)
    ultimately show ?thesis using qf ready' law(1) unfolding eq by auto
  qed
qed

section \<open>The walk with allocation\<close>

lemma decode_0: "decode_pte 0 = \<lparr>present = False, readWrite = False, userSupervisor = False,
    writeThrough = False, cacheDisable = False, accessed = False, avl0 = False, pageSize = False,
    avl1 = 0, addr = 0, nx = False\<rparr>"
  by (simp add: decode_pte_def)

lemma read_entry:
  assumes "p < 2 ^ 52" and "i < 512"
  shows "read_pte (slot_addr L (512 * p + i)) s = decode_pte (slots L (mem s) (512 * p + i))"
  using slot_bound(1) [OF assms] by (simp add: read_pte_def slots_def)

lemma vm_ok_page:
  assumes "vm_ok L M D r s" and "D p = Some l"
  shows "p \<in> M" "p \<notin> free_pages s" "p < 2 ^ 51" "p < 2 ^ 52"
proof -
  show m: "p \<in> M" "p \<notin> free_pages s" using assms by (auto simp: vm_ok_def)
  have "p < npages s" using m(1) assms(1) by (auto simp: vm_ok_def pmm_ready_def)
  then show "p < 2 ^ 51" "p < 2 ^ 52" using assms(1) by (auto simp: vm_ok_def)
qed

text \<open>Two states whose memories differ outside the tables only show the same address space.\<close>

lemma slots_agree:
  assumes "\<And>x. page_of L x \<in> dom D \<Longrightarrow> m' x = m x"
  shows "agree D (slots L m) (slots L m')"
  unfolding agree_def using assms by (auto intro!: slots_cong simp: page_of_slot)

lemma next_table_absent:
  assumes ok: "vm_ok L M D r s" and p: "D p = Some (Suc l)" "i < 512"
    and z: "slots L (mem s) (512 * p + i) = 0"
  shows "case next_table L (page_addr L p) (of_nat i) s of
      Inl e \<Rightarrow> e = Halted (con s @ oom_message) \<and> free_pages s = {}
    | Inr (t, s') \<Rightarrow> \<exists>q D'. t = page_addr L q \<and> D' q = Some l \<and> vm_grows L M r D s D' s'
        \<and> child (slots L (mem s')) (512 * p + i) = Some q
        \<and> card (free_pages s) \<le> card (free_pages s') + 1"
proof -
  have ready: "pmm_ready L M s" and np: "npages s \<le> 2 ^ 51" and t: "tree (slots L (mem s)) D r"
    using ok by (auto simp: vm_ok_def)
  note pg = vm_ok_page [OF ok p(1)]
  let ?k = "512 * p + i"
  have rd: "\<not> present (read_pte (slot_addr L ?k) s)"
    using read_entry [OF pg(4) p(2)] z by (simp add: decode_0)
  note ea = entry_addr_slot [OF p(2), of L p]
  show ?thesis
  proof (cases "arch_vmm_new_pt L s")
    case (Inl e)
    then show ?thesis using new_pt_spec [OF ready np] rd by (simp add: next_table_def ea)
  next
    case (Inr res)
    obtain t s1 where res: "res = (t, s1)" by (cases res)
    obtain q where q: "q \<in> free_pages s" "t = page_addr L q" "q < 2 ^ 51" "s1 = s\<lparr>mem := mem s1\<rparr>"
        "free_pages s1 = free_pages s - {q}" "pmm_ready L M s1"
      and frame: "\<forall>x. page_of L x \<noteq> q \<longrightarrow> \<not> in_rng (bitmap s) (unat (bitmapSize s)) x \<longrightarrow> mem s1 x = mem s x"
      and zero: "\<forall>j. j div 512 = q \<longrightarrow> slots L (mem s1) j = 0"
      using new_pt_spec [OF ready np] Inr res by auto
    have qD: "D q = None" using q(1) ok by (auto simp: vm_ok_def)
    have pq: "p \<noteq> q" using p(1) qD by auto
    define v where "v = encode_pte ((decode_pte 0)\<lparr>addr := ucast (of_nat q :: u64), present := True,
         readWrite := True, userSupervisor := True\<rparr>)"
    define s2 where "s2 = s1\<lparr>mem := store64 (slot_addr L ?k) v (mem s1)\<rparr>"
    have dv: "decode_pte v = (decode_pte 0)\<lparr>addr := ucast (of_nat q :: u64), present := True,
         readWrite := True, userSupervisor := True\<rparr>"
      unfolding v_def by (rule decode_encode)
    have v: "link_ok v" "child (\<lambda>_. v) 0 = Some q"
      using unat_ucast_51 [OF q(3)] by (simp_all add: link_ok_def child_def dv decode_0)
    have nt: "next_table L (page_addr L p) (of_nat i) s = Inr (t, s2)"
      using rd Inr res q(2,3) page_addr_frame [of q L] read_entry [OF pg(4) p(2), of L s] z
      by (simp add: next_table_def ea write_pte_def s2_def v_def Let_def)
    let ?f = "slots L (mem s)" and ?f1 = "slots L (mem s1)" and ?f2 = "slots L (mem s2)"
    have ag: "agree D ?f ?f1"
    proof (rule slots_agree)
      fix x assume "page_of L x \<in> dom D"
      then have "page_of L x \<noteq> q" "page_of L x \<in> M" using qD ok by (auto simp: vm_ok_def)
      then show "mem s1 x = mem s x" using frame ready by (auto simp: pmm_ready_def)
    qed
    have t1: "tree ?f1 D r" by (rule tree_agree [OF t ag])
    have z1: "?f1 ?k = 0" using agreeD [OF ag p(1) p(2)] z by simp
    have f2: "?f2 = link_table ?f1 q ?k v"
    proof
      fix j
      show "?f2 j = link_table ?f1 q ?k v j"
        unfolding s2_def link_table_def using slots_store [OF slot_bound(1) [OF pg(4) p(2)]] zero by simp
    qed
    let ?D = "D(q \<mapsto> l)"
    have t2: "tree ?f2 ?D r" unfolding f2 by (rule link_table_tree [OF t1 p z1 qD v])
    have qM: "q \<in> M" using q(1) ready by (auto simp: pmm_ready_def)
    have "store64 (slot_addr L ?k) v (mem s1) x = mem s1 x" if "page_of L x \<notin> M" for x
    proof (rule store64_apply_out)
      have "slot_of L x \<noteq> ?k" using that pg(1) slot_bound(2) [OF pg(4) p(2)] page_of_slot by metis
      then show "\<not> in_rng (slot_addr L ?k) 8 x" using in_slot [OF slot_bound(1) [OF pg(4) p(2)]] by simp
    qed
    note ready2 = pmm_ready_mem [OF q(6) this, folded s2_def]
    have np2: "npages s2 = npages s" unfolding s2_def by (subst q(4)) (simp add: npages_def)
    have free2: "free_pages s2 = free_pages s - dom ?D"
      using ready2(2) q(5) ok by (auto simp: vm_ok_def)
    have vm2: "vm_ok L M ?D r s2"
      using ready2(1) np np2 t2 free2 qM ok by (auto simp: vm_ok_def)
    have "mmu ?f2 r js = mmu ?f r js" if "length js = 4" "set js \<subseteq> {..<512}" for js
    proof -
      have "js \<noteq> []" using that(1) by auto
      then obtain ks i' where js: "js = ks @ [i']" using rev_exhaust by blast
      have "mmu ?f2 r js = mmu ?f1 r js"
        unfolding f2 using mmu_link_table [OF t1 p z1 qD v(2) tree_root [OF t], of js] that by simp
      also have "\<dots> = mmu ?f r js"
        using mmu_agree [OF t ag, of r ks i'] tree_root [OF t] that js by simp
      finally show ?thesis .
    qed
    moreover have "walk ?f2 r is = Some b"
      if "length is \<le> 3" "set is \<subseteq> {..<512}" "walk ?f r is = Some b" for "is" b
      unfolding f2 using walk_link_table [OF t1 p z1 qD tree_root [OF t], of "is" b v]
        walk_agree [OF t ag tree_root [OF t] that(1,2)] that by simp
    moreover have "mem s2 x = mem s x"
      if "page_of L x \<notin> dom D \<union> free_pages s" "\<not> in_rng (bitmap s) (unat (bitmapSize s)) x" for x
    proof -
      have "page_of L x \<noteq> p" "page_of L x \<noteq> q" using that(1) p(1) q(1) by auto
      then have "slot_of L x \<noteq> ?k" using slot_bound(2) [OF pg(4) p(2)] page_of_slot by metis
      then have "mem s2 x = mem s1 x"
        unfolding s2_def using in_slot [OF slot_bound(1) [OF pg(4) p(2)], of L x]
        by (simp add: store64_apply_out)
      then show ?thesis using frame that(2) \<open>page_of L x \<noteq> q\<close> by simp
    qed
    moreover have "s2 = s\<lparr>mem := mem s2\<rparr>"
      by (rule mem_only_trans [OF q(4)]) (simp add: s2_def)
    moreover have "D \<subseteq>\<^sub>m ?D" using qD by (auto simp: map_le_def)
    moreover have "dom ?D \<subseteq> dom D \<union> free_pages s" using q(1) by auto
    ultimately have "vm_grows L M r D s ?D s2" unfolding vm_grows_def vm_ext_def using vm2 free2 by blast
    moreover have "child ?f2 ?k = Some q"
      unfolding f2 by (rule walk_linked [OF pq p(2) v(2)])
    moreover have "finite (free_pages s)" by (simp add: free_pages_def)
    then have "card (free_pages s) \<le> card (free_pages s2) + 1"
      using q(1) ready2(2) q(5) by (simp add: card_Diff_singleton)
    ultimately show ?thesis using nt q(2) by (auto intro!: exI [of _ q] exI [of _ ?D])
  qed
qed

lemma next_table_present:
  assumes ok: "vm_ok L M D r s" and p: "D p = Some (Suc l)" "i < 512"
    and c: "child (slots L (mem s)) (512 * p + i) = Some q"
  shows "next_table L (page_addr L p) (of_nat i) s = Inr (page_addr L q, s)" and "D q = Some l"
proof -
  have t: "tree (slots L (mem s)) D r" using ok by (simp add: vm_ok_def)
  show "D q = Some l" by (rule tree_child [OF t p c])
  have "present (decode_pte (slots L (mem s) (512 * p + i)))"
    "unat (addr (decode_pte (slots L (mem s) (512 * p + i)))) = q"
    using c by (auto simp: child_def Let_def split: if_splits)
  then show "next_table L (page_addr L p) (of_nat i) s = Inr (page_addr L q, s)"
    using read_entry [OF vm_ok_page(4) [OF ok p(1)] p(2), of L s]
    by (simp add: next_table_def Let_def entry_addr_slot [OF p(2)] entry_target)
qed

lemma next_table_spec:
  assumes ok: "vm_ok L M D r s" and p: "D p = Some (Suc l)" "i < 512"
  shows "case next_table L (page_addr L p) (of_nat i) s of
      Inl e \<Rightarrow> e = Halted (con s @ oom_message) \<and> free_pages s = {}
    | Inr (t, s') \<Rightarrow> \<exists>q D'. t = page_addr L q \<and> D' q = Some l \<and> vm_grows L M r D s D' s'
        \<and> child (slots L (mem s')) (512 * p + i) = Some q
        \<and> card (free_pages s) \<le> card (free_pages s') + 1"
proof (cases "child (slots L (mem s)) (512 * p + i)")
  case None
  have "tree (slots L (mem s)) D r" using ok by (simp add: vm_ok_def)
  from child_None_zero [OF this p] None have "slots L (mem s) (512 * p + i) = 0" by simp
  then show ?thesis by (rule next_table_absent [OF ok p])
next
  case (Some q)
  note n = next_table_present [OF ok p Some]
  show ?thesis unfolding n(1) using n(2) Some vm_grows_refl [OF ok] by auto
qed

section \<open>Virtual addresses\<close>

text \<open>The index of a virtual address at a level, and its path from the root.\<close>

definition vidx :: "nat \<Rightarrow> u64 \<Rightarrow> nat" where
  "vidx l va = unat va div 2 ^ (12 + 9 * l) mod 512"

definition vpath :: "u64 \<Rightarrow> nat list" where
  "vpath va = [vidx 3 va, vidx 2 va, vidx 1 va, vidx 0 va]"

lemma vidx_lt: "vidx l va < 512"
  by (simp add: vidx_def)

lemma vpath_ok [simp]: "length (vpath va) = 4" "set (vpath va) \<subseteq> {..<512}"
  by (auto simp: vpath_def vidx_lt)

lemma index_field: "(ucast (drop_bit k va AND 0x1ff) :: cint) = of_nat (unat (va :: u64) div 2 ^ k mod 512)"
proof -
  have m: "(0x1ff :: u64) = mask 9" by (simp add: mask_eq_exp_minus_1)
  have "unat (drop_bit k va AND mask 9) = take_bit 9 (drop_bit k (unat va))"
    by (simp only: take_bit_eq_mask [symmetric] unsigned_take_bit_eq unat_drop_bit_eq)
  also have "\<dots> = unat va div 2 ^ k mod 512" by (simp add: take_bit_eq_mod drop_bit_eq_div)
  finally have u: "unat (drop_bit k va AND 0x1ff) = unat va div 2 ^ k mod 512" unfolding m .
  have "(ucast (drop_bit k va AND 0x1ff) :: cint) = of_nat (unat (drop_bit k va AND 0x1ff))" by simp
  then show ?thesis by (simp only: u)
qed

lemma page_index_vidx:
  "page_index va = (of_nat (vidx 0 va), of_nat (vidx 1 va), of_nat (vidx 2 va), of_nat (vidx 3 va))"
  unfolding page_index_def Let_def drop_bit_drop_bit unfolding index_field vidx_def by simp

lemma page_from_index_spec:
  assumes ok: "vm_ok L M D r s"
  shows "case page_from_index L (page_addr L r) (of_nat (vidx 0 va)) (of_nat (vidx 1 va))
      (of_nat (vidx 2 va)) (of_nat (vidx 3 va)) s of
      Inl e \<Rightarrow> e = Halted (con s @ oom_message) \<and> card (free_pages s) < 3
    | Inr (a, s') \<Rightarrow> \<exists>p D'. a = slot_addr L (512 * p + vidx 0 va) \<and> D' p = Some 0
        \<and> vm_grows L M r D s D' s'
        \<and> walk (slots L (mem s')) r [vidx 3 va, vidx 2 va, vidx 1 va] = Some p
        \<and> card (free_pages s) \<le> card (free_pages s') + 3"
    (is "case ?page of Inl e \<Rightarrow> ?oom e | Inr r \<Rightarrow> ?done r")
proof -
  let ?n = "\<lambda>p l s. next_table L (page_addr L p) (of_nat (vidx l va)) s"
  have r: "D r = Some (Suc 2)" using ok by (auto simp: vm_ok_def tree_def numeral_3_eq_3)
  show ?thesis
  proof (cases "?n r 3 s")
    case (Inl e)
    then show ?thesis using next_table_spec [OF ok r vidx_lt, of 3 va] by (simp add: page_from_index_def)
  next
    case 1: (Inr x1)
    obtain t1 s1 where x1: "x1 = (t1, s1)" by (cases x1)
    obtain p1 D1 where p1: "t1 = page_addr L p1" "D1 p1 = Some (Suc 1)" "vm_grows L M r D s D1 s1"
        "child (slots L (mem s1)) (512 * r + vidx 3 va) = Some p1"
        "card (free_pages s) \<le> card (free_pages s1) + 1"
      using next_table_spec [OF ok r vidx_lt, of 3 va] 1 x1 by (auto simp: numeral_2_eq_2)
    note ok1 = vm_grows_fields(1) [OF p1(3)]
    show ?thesis
    proof (cases "?n p1 2 s1")
      case (Inl e)
      then have "e = Halted (con s1 @ oom_message)" "free_pages s1 = {}"
        using next_table_spec [OF ok1 p1(2) vidx_lt, of 2 va] by simp_all
      then show ?thesis
        using 1 x1 p1(1,5) Inl vm_grows_fields(4) [OF p1(3)] by (simp add: page_from_index_def)
    next
      case 2: (Inr x2)
      obtain t2 s2 where x2: "x2 = (t2, s2)" by (cases x2)
      obtain p2 D2 where p2: "t2 = page_addr L p2" "D2 p2 = Some (Suc 0)" "vm_grows L M r D1 s1 D2 s2"
          "child (slots L (mem s2)) (512 * p1 + vidx 2 va) = Some p2"
          "card (free_pages s1) \<le> card (free_pages s2) + 1"
        using next_table_spec [OF ok1 p1(2) vidx_lt, of 2 va] 2 x2 by auto
      note ok2 = vm_grows_fields(1) [OF p2(3)] and g2 = vm_grows_trans [OF p1(3) p2(3)]
      have w2: "walk (slots L (mem s2)) r [vidx 3 va, vidx 2 va] = Some p2"
        using vm_grows_walk [OF p2(3), of "[vidx 3 va]" p1] p1(4) p2(4) walk_append [of _ r "[vidx 3 va]" "[vidx 2 va]"]
        by (simp add: vidx_lt)
      show ?thesis
      proof (cases "?n p2 1 s2")
        case (Inl e)
        then have "e = Halted (con s2 @ oom_message)" "free_pages s2 = {}"
          using next_table_spec [OF ok2 p2(2) vidx_lt, of 1 va] by simp_all
        then show ?thesis
          using 1 x1 p1(1,5) 2 x2 p2(1,5) Inl vm_grows_fields(4) [OF g2] by (simp add: page_from_index_def)
      next
        case 3: (Inr x3)
        obtain t3 s3 where x3: "x3 = (t3, s3)" by (cases x3)
        obtain p3 D3 where p3: "t3 = page_addr L p3" "D3 p3 = Some 0" "vm_grows L M r D2 s2 D3 s3"
            "child (slots L (mem s3)) (512 * p2 + vidx 1 va) = Some p3"
            "card (free_pages s2) \<le> card (free_pages s3) + 1"
          using next_table_spec [OF ok2 p2(2) vidx_lt, of 1 va] 3 x3 by auto
        have w3: "walk (slots L (mem s3)) r [vidx 3 va, vidx 2 va, vidx 1 va] = Some p3"
          using vm_grows_walk [OF p3(3), of "[vidx 3 va, vidx 2 va]" p2] w2 p3(4)
            walk_append [of _ r "[vidx 3 va, vidx 2 va]" "[vidx 1 va]"]
          by (simp add: vidx_lt)
        show ?thesis
          using 1 x1 p1(1,5) 2 x2 p2(1,5) 3 x3 p3(1,2,5) w3 vm_grows_trans [OF g2 p3(3)] entry_addr_slot [OF vidx_lt]
          by (auto simp: page_from_index_def)
      qed
    qed
  qed
qed

section \<open>Writing an entry\<close>

definition translate :: "limine \<Rightarrow> nat \<Rightarrow> kstate \<Rightarrow> u64 \<Rightarrow> (nat \<times> bool \<times> bool \<times> bool) option" where
  "translate L r s va = mmu (slots L (mem s)) r (vpath va)"

lemma translate_grows: "vm_grows L M r D s D' s' \<Longrightarrow> translate L r s' va = translate L r s va"
  by (simp add: translate_def vm_grows_mmu)

lemma vpath_split: "vpath va = [vidx 3 va, vidx 2 va, vidx 1 va] @ [vidx 0 va]"
  by (simp add: vpath_def)

lemma write_leaf:
  assumes ok: "vm_ok L M D r s" and p: "D p = Some 0"
    and w: "walk (slots L (mem s)) r [vidx 3 va, vidx 2 va, vidx 1 va] = Some p"
    and s': "s' = write_pte (slot_addr L (512 * p + vidx 0 va)) e s"
  shows "vm_ext L M r D s D s'"
    and "slots L (mem s') = (slots L (mem s))(512 * p + vidx 0 va := encode_pte e)"
    and "translate L r s' va' =
      (if vpath va' = vpath va then leaf_view (encode_pte e) else translate L r s va')"
proof -
  let ?k = "512 * p + vidx 0 va" and ?f = "slots L (mem s)"
  have ready: "pmm_ready L M s" and t: "tree ?f D r" using ok by (auto simp: vm_ok_def)
  note pg = vm_ok_page [OF ok p] and r = tree_root [OF t]
  note k = slot_bound [OF pg(4) vidx_lt, of 0 va]
  have keep: "store64 (slot_addr L ?k) (encode_pte e) (mem s) x = mem s x" if "page_of L x \<noteq> p" for x
    using that in_slot [OF k(1), of L x] k(2) page_of_slot [of L x] by (intro store64_apply_out) auto
  have "store64 (slot_addr L ?k) (encode_pte e) (mem s) x = mem s x" if "page_of L x \<notin> M" for x
    using that pg(1) by (intro keep) auto
  note ready' = pmm_ready_mem [OF ready this, folded write_pte_def, folded s']
  show f': "slots L (mem s') = ?f(?k := encode_pte e)"
    by (simp add: s' write_pte_def slots_store [OF k(1)])
  have t': "tree (slots L (mem s')) D r" unfolding f' by (rule leaf_write_tree [OF t p vidx_lt])
  have np: "npages s' = npages s" by (simp add: s' write_pte_def npages_def)
  have ok': "vm_ok L M D r s'" using ok ready' t' np by (simp add: vm_ok_def)
  have "walk (slots L (mem s')) r is = Some q"
    if "length is \<le> 3" "set is \<subseteq> {..<512}" "walk ?f r is = Some q" for "is" q
    unfolding f' using walk_leaf_write [OF t p vidx_lt r that(1,2)] that(3) by (simp del: fun_upd_apply)
  moreover have "mem s' x = mem s x" if "page_of L x \<notin> dom D \<union> free_pages s" for x
    using keep [of x] that p by (auto simp: s' write_pte_def)
  moreover have "s' = s\<lparr>mem := mem s'\<rparr>" by (simp add: s' write_pte_def)
  moreover have "free_pages s' = free_pages s - dom D" using ready'(2) ok by (auto simp: vm_ok_def)
  ultimately show "vm_ext L M r D s D s'" using ok' unfolding vm_ext_def by auto
  show "translate L r s' va' =
      (if vpath va' = vpath va then leaf_view (encode_pte e) else translate L r s va')"
    unfolding translate_def f' vpath_split
    by (rule mmu_leaf_write [OF t w]) (simp_all add: vidx_lt)
qed

lemma page_from_index_present:
  assumes ok: "vm_ok L M D r s"
    and w: "walk (slots L (mem s)) r [vidx 3 va, vidx 2 va, vidx 1 va] = Some p"
  shows "page_from_index L (page_addr L r) (of_nat (vidx 0 va)) (of_nat (vidx 1 va))
      (of_nat (vidx 2 va)) (of_nat (vidx 3 va)) s = Inr (slot_addr L (512 * p + vidx 0 va), s)"
    and "D p = Some 0"
proof -
  let ?f = "slots L (mem s)"
  have r: "D r = Some (Suc 2)" using ok by (auto simp: vm_ok_def tree_def numeral_3_eq_3)
  obtain p1 p2 where c: "child ?f (512 * r + vidx 3 va) = Some p1"
      "child ?f (512 * p1 + vidx 2 va) = Some p2" "child ?f (512 * p2 + vidx 1 va) = Some p"
    using w by (auto split: option.splits)
  note n1 = next_table_present [OF ok r vidx_lt c(1)]
  have "D p1 = Some (Suc 1)" using n1(2) by (simp add: numeral_2_eq_2)
  note n2 = next_table_present [OF ok this vidx_lt c(2)]
  have "D p2 = Some (Suc 0)" using n2(2) by simp
  note n3 = next_table_present [OF ok this vidx_lt c(3)]
  show "page_from_index L (page_addr L r) (of_nat (vidx 0 va)) (of_nat (vidx 1 va))
      (of_nat (vidx 2 va)) (of_nat (vidx 3 va)) s = Inr (slot_addr L (512 * p + vidx 0 va), s)"
    unfolding page_from_index_def n1(1) n2(1) n3(1) bindE.simps prod.case entry_addr_slot [OF vidx_lt] ..
  show "D p = Some 0" by (rule n3(2))
qed

text \<open>The state after the walk, with the entry of the address.\<close>

lemma page_walk_cases:
  assumes ok: "vm_ok L M D r s"
  shows "(\<exists>e. page_from_index L (page_addr L r) (of_nat (vidx 0 va)) (of_nat (vidx 1 va))
        (of_nat (vidx 2 va)) (of_nat (vidx 3 va)) s = Inl e
      \<and> e = Halted (con s @ oom_message) \<and> card (free_pages s) < 3)
    \<or> (\<exists>p D1 s1. page_from_index L (page_addr L r) (of_nat (vidx 0 va)) (of_nat (vidx 1 va))
        (of_nat (vidx 2 va)) (of_nat (vidx 3 va)) s = Inr (slot_addr L (512 * p + vidx 0 va), s1)
      \<and> vm_grows L M r D s D1 s1 \<and> D1 p = Some 0 \<and> p < 2 ^ 52
      \<and> walk (slots L (mem s1)) r [vidx 3 va, vidx 2 va, vidx 1 va] = Some p
      \<and> card (free_pages s) \<le> card (free_pages s1) + 3
      \<and> translate L r s va = leaf_view (slots L (mem s1) (512 * p + vidx 0 va)))"
    (is "?oom \<or> ?done")
proof (cases "page_from_index L (page_addr L r) (of_nat (vidx 0 va)) (of_nat (vidx 1 va))
        (of_nat (vidx 2 va)) (of_nat (vidx 3 va)) s")
  case (Inl e)
  then have ?oom using page_from_index_spec [OF ok, of va] by simp
  then show ?thesis ..
next
  case (Inr x)
  obtain a s1 where x: "x = (a, s1)" by (cases x)
  obtain p D1 where p: "a = slot_addr L (512 * p + vidx 0 va)" "D1 p = Some 0"
      "vm_grows L M r D s D1 s1" "walk (slots L (mem s1)) r [vidx 3 va, vidx 2 va, vidx 1 va] = Some p"
      "card (free_pages s) \<le> card (free_pages s1) + 3"
    using page_from_index_spec [OF ok, of va] Inr x by auto
  note ok1 = vm_grows_fields(1) [OF p(3)]
  then have t1: "tree (slots L (mem s1)) D1 r" by (simp add: vm_ok_def)
  have "translate L r s va = translate L r s1 va" using translate_grows [OF p(3)] by simp
  also have "\<dots> = leaf_view (slots L (mem s1) (512 * p + vidx 0 va))"
    unfolding translate_def vpath_split
    using mmu_walk [OF t1, of r "[vidx 3 va, vidx 2 va, vidx 1 va]" "vidx 0 va"] tree_root [OF t1] p(4)
    by (simp add: vidx_lt)
  finally show ?thesis using Inr x p vm_ok_page(4) [OF ok1 p(2)] by blast
qed

section \<open>Mapping, unmapping, changing flags\<close>

definition flag_view :: "nat \<Rightarrow> cint \<Rightarrow> (nat \<times> bool \<times> bool \<times> bool) option" where
  "flag_view frame flags =
     (if flags AND VMM_PRESENT \<noteq> 0
      then Some (frame, flags AND VMM_RW \<noteq> 0, flags AND VMM_USER \<noteq> 0, flags AND VMM_EXEC \<noteq> 0)
      else None)"

definition set_flags_entry :: "cint \<Rightarrow> page_table_entry \<Rightarrow> page_table_entry" where
  "set_flags_entry flags e =
     e\<lparr>present := (flags AND VMM_PRESENT \<noteq> 0), readWrite := (flags AND VMM_RW \<noteq> 0),
       userSupervisor := (flags AND VMM_USER \<noteq> 0), pageSize := False,
       nx := \<not> (flags AND VMM_EXEC \<noteq> 0)\<rparr>"

lemma leaf_view_set_flags:
  "leaf_view (encode_pte (set_flags_entry flags e)) = flag_view (unat (addr e)) flags"
  by (simp add: leaf_view_def set_flags_entry_def flag_view_def Let_def)

definition oom_error :: "kstate \<Rightarrow> kerror \<Rightarrow> bool" where
  "oom_error s e \<longleftrightarrow> e = Halted (con s @ oom_message)"

lemma set_flags_spec:
  assumes ok: "vm_ok L M D r s"
  shows "case arch_vmm_set_flags L (page_addr L r) va flags s of
      Inl e \<Rightarrow> oom_error s e \<and> card (free_pages s) < 3
    | Inr s' \<Rightarrow> \<exists>D' frame. vm_ext L M r D s D' s'
        \<and> (\<forall>fr w u x. translate L r s va = Some (fr, w, u, x) \<longrightarrow> frame = fr)
        \<and> (\<forall>va'. translate L r s' va' =
            (if vpath va' = vpath va then flag_view frame flags else translate L r s va'))
        \<and> card (free_pages s) \<le> card (free_pages s') + 3"
  using page_walk_cases [OF ok, of va]
proof (elim disjE exE conjE, goal_cases)
  case (1 e)
  then show ?case by (simp add: arch_vmm_set_flags_def page_index_vidx oom_error_def)
next
  case (2 p D1 s1)
  let ?k = "512 * p + vidx 0 va"
  let ?e = "decode_pte (slots L (mem s1) ?k)"
  let ?s2 = "write_pte (slot_addr L ?k) (set_flags_entry flags ?e) s1"
  have run: "arch_vmm_set_flags L (page_addr L r) va flags s = Inr ?s2"
    using 2(1) read_entry [OF 2(4) vidx_lt, of L 0 va s1]
    by (simp add: arch_vmm_set_flags_def page_index_vidx set_flags_entry_def)
  note wl = write_leaf [OF vm_grows_fields(1) [OF 2(2)] 2(3,5) refl, where e = "set_flags_entry flags ?e"]
  have ext: "vm_ext L M r D s D1 ?s2" using vm_ext_trans [OF vm_grows_ext [OF 2(2)] wl(1)] .
  have fr: "free_pages ?s2 = free_pages s1" using vm_ext_fields(7) [OF wl(1)] vm_grows_fields(1,7) [OF 2(2)]
    by (auto simp: vm_ok_def)
  have "unat (addr ?e) = fr" if "translate L r s va = Some (fr, w, u, x)" for fr w u x
    using that 2(7) by (auto simp: leaf_view_def Let_def split: if_splits)
  moreover have "translate L r ?s2 va' =
      (if vpath va' = vpath va then flag_view (unat (addr ?e)) flags else translate L r s va')" for va'
    using wl(3) translate_grows [OF 2(2)] leaf_view_set_flags by simp
  ultimately show ?case unfolding run using ext fr 2(6) by auto
qed

text \<open>The tables that the entry of an address needs are there.\<close>

definition tables_for :: "limine \<Rightarrow> nat \<Rightarrow> kstate \<Rightarrow> u64 \<Rightarrow> bool" where
  "tables_for L r s va \<longleftrightarrow> walk (slots L (mem s)) r [vidx 3 va, vidx 2 va, vidx 1 va] \<noteq> None"

lemma tables_for_ext: "vm_ext L M r D s D' s' \<Longrightarrow> tables_for L r s va \<Longrightarrow> tables_for L r s' va"
  using vm_ext_walk [of L M r D s D' s' "[vidx 3 va, vidx 2 va, vidx 1 va]"]
  by (auto simp: tables_for_def vidx_lt simp del: walk.simps)

lemma map_spec:
  assumes ok: "vm_ok L M D r s"
  shows "case arch_vmm_map L (page_addr L r) pa va flags s of
      Inl e \<Rightarrow> oom_error s e \<and> card (free_pages s) < 3 \<and> \<not> tables_for L r s va
    | Inr s' \<Rightarrow> \<exists>D'. vm_ext L M r D s D' s'
        \<and> (\<forall>va'. translate L r s' va' =
            (if vpath va' = vpath va then flag_view (unat pa div 4096 mod 2 ^ 51) flags else translate L r s va'))
        \<and> tables_for L r s' va
        \<and> card (free_pages s) \<le> card (free_pages s') + (if tables_for L r s va then 0 else 3)"
  using page_walk_cases [OF ok, of va]
proof (elim disjE exE conjE, goal_cases)
  case (1 e)
  have "\<not> tables_for L r s va"
  proof
    assume "tables_for L r s va"
    then obtain p where "walk (slots L (mem s)) r [vidx 3 va, vidx 2 va, vidx 1 va] = Some p"
      unfolding tables_for_def by blast
    from page_from_index_present(1) [OF ok this] 1(1) show False by simp
  qed
  then show ?case using 1 by (simp add: arch_vmm_map_def page_index_vidx oom_error_def)
next
  case (2 p D1 s1)
  let ?k = "512 * p + vidx 0 va"
  let ?e1 = "(decode_pte (slots L (mem s1) ?k))\<lparr>addr := ucast (drop_bit 12 pa)\<rparr>"
  let ?s2 = "write_pte (slot_addr L ?k) ?e1 s1"
  let ?s3 = "write_pte (slot_addr L ?k) (set_flags_entry flags ?e1) ?s2"
  note w1 = write_leaf [OF vm_grows_fields(1) [OF 2(2)] 2(3,5) refl, where e = ?e1]
  note ok2 = vm_ext_fields(1) [OF w1(1)]
  have walk2: "walk (slots L (mem ?s2)) r [vidx 3 va, vidx 2 va, vidx 1 va] = Some p"
    using vm_ext_walk [OF w1(1) _ _ 2(5)] by (simp add: vidx_lt)
  note w2 = write_leaf [OF ok2 2(3) walk2 refl, where e = "set_flags_entry flags ?e1"]
  have rd: "read_pte (slot_addr L ?k) ?s2 = ?e1"
    using read_entry [OF 2(4) vidx_lt, of L 0 va ?s2] w1(2) by simp
  have run: "arch_vmm_map L (page_addr L r) pa va flags s = Inr ?s3"
    using 2(1) read_entry [OF 2(4) vidx_lt, of L 0 va s1] page_from_index_present(1) [OF ok2 walk2] rd
    by (simp add: arch_vmm_map_def arch_vmm_set_flags_def page_index_vidx set_flags_entry_def Let_def)
  have ext: "vm_ext L M r D s D1 ?s3"
    using vm_ext_trans [OF vm_grows_ext [OF 2(2)] vm_ext_trans [OF w1(1) w2(1)]] .
  have fr: "free_pages ?s3 = free_pages s1"
    using vm_ext_fields(7) [OF w2(1)] vm_ext_fields(7) [OF w1(1)] vm_grows_fields(1,7) [OF 2(2)]
    by (auto simp: vm_ok_def)
  have "unat (addr ?e1) = unat pa div 4096 mod 2 ^ 51"
    by (simp add: unsigned_ucast_eq unat_div take_bit_eq_mod drop_bit_eq_div)
  then have "translate L r ?s3 va' = (if vpath va' = vpath va
      then flag_view (unat pa div 4096 mod 2 ^ 51) flags else translate L r s va')" for va'
    using w2(3) w1(3) translate_grows [OF 2(2)] leaf_view_set_flags [of flags ?e1] by simp
  moreover have "tables_for L r ?s3 va"
    using tables_for_ext [OF w2(1)] walk2 by (simp add: tables_for_def del: walk.simps)
  moreover have "s1 = s" if "tables_for L r s va"
    using that page_from_index_present(1) [OF ok, of va] 2(1) by (auto simp: tables_for_def simp del: walk.simps)
  ultimately show ?case unfolding run using ext fr 2(6) by auto
qed

lemma unmap_spec:
  assumes ok: "vm_ok L M D r s"
  shows "case arch_vmm_unmap L (page_addr L r) va s of
      Inl e \<Rightarrow> oom_error s e \<and> card (free_pages s) < 3
    | Inr s' \<Rightarrow> \<exists>D'. vm_ext L M r D s D' s'
        \<and> (\<forall>va'. translate L r s' va' = (if vpath va' = vpath va then None else translate L r s va'))
        \<and> card (free_pages s) \<le> card (free_pages s') + 3"
  using page_walk_cases [OF ok, of va]
proof (elim disjE exE conjE, goal_cases)
  case (1 e)
  then show ?case by (simp add: arch_vmm_unmap_def page_index_vidx oom_error_def)
next
  case (2 p D1 s1)
  let ?k = "512 * p + vidx 0 va"
  let ?e = "(decode_pte (slots L (mem s1) ?k))\<lparr>present := False, addr := 0\<rparr>"
  let ?s2 = "write_pte (slot_addr L ?k) ?e s1"
  have run: "arch_vmm_unmap L (page_addr L r) va s = Inr ?s2"
    using 2(1) read_entry [OF 2(4) vidx_lt, of L 0 va s1]
    by (simp add: arch_vmm_unmap_def page_index_vidx)
  note wl = write_leaf [OF vm_grows_fields(1) [OF 2(2)] 2(3,5) refl, where e = ?e]
  have ext: "vm_ext L M r D s D1 ?s2" using vm_ext_trans [OF vm_grows_ext [OF 2(2)] wl(1)] .
  have fr: "free_pages ?s2 = free_pages s1" using vm_ext_fields(7) [OF wl(1)] vm_grows_fields(1,7) [OF 2(2)]
    by (auto simp: vm_ok_def)
  have "translate L r ?s2 va' = (if vpath va' = vpath va then None else translate L r s va')" for va'
    using wl(3) translate_grows [OF 2(2)] by (simp add: leaf_view_def)
  then show ?case unfolding run using ext fr 2(6) by auto
qed

end
