(* ===== verification/Vmm.thy ===== *)
theory Vmm
  imports Paging Pmm_Init
begin

text \<open>
  \<^verbatim>\<open>symphony/mm/vmm.c\<close>: mapping of ranges, and the construction of the kernel's address space
  from the memory map, on the page-table operations of \<open>Page_Table\<close>.
\<close>

section \<open>The operations\<close>

text \<open>The aliases of \<^verbatim>\<open>mm.h\<close>.\<close>

definition vmm_new_pt :: "limine \<Rightarrow> kstate \<Rightarrow> kerror + (u64 \<times> kstate)" where
  "vmm_new_pt L s = arch_vmm_new_pt L s"

definition vmm_destroy_pt :: "limine \<Rightarrow> u64 \<Rightarrow> kstate \<Rightarrow> kerror + kstate" where
  "vmm_destroy_pt L pageTable s = arch_vmm_destroy_pt L pageTable s"

definition vmm_switch :: "limine \<Rightarrow> u64 \<Rightarrow> kstate \<Rightarrow> kstate" where
  "vmm_switch L pageTable s = arch_vmm_switch L pageTable s"

definition vmm_map :: "limine \<Rightarrow> u64 \<Rightarrow> u64 \<Rightarrow> u64 \<Rightarrow> cint \<Rightarrow> kstate \<Rightarrow> kerror + kstate" where
  "vmm_map L pageTable physAddr virtAddr flags s = arch_vmm_map L pageTable physAddr virtAddr flags s"

definition vmm_unmap :: "limine \<Rightarrow> u64 \<Rightarrow> u64 \<Rightarrow> kstate \<Rightarrow> kerror + kstate" where
  "vmm_unmap L pageTable virtAddr s = arch_vmm_unmap L pageTable virtAddr s"

definition vmm_set_flags :: "limine \<Rightarrow> u64 \<Rightarrow> u64 \<Rightarrow> cint \<Rightarrow> kstate \<Rightarrow> kerror + kstate" where
  "vmm_set_flags L pageTable virtAddr flags s = arch_vmm_set_flags L pageTable virtAddr flags s"

text \<open>
  The result of the \<^verbatim>\<open>ALIGN_UP\<close> before the loop is discarded, so the loop runs to \<^verbatim>\<open>size\<close> as it
  was passed. For a size in the last page of the address space the counter wraps around and the
  loop does not end.
\<close>

definition vmm_map_range ::
    "limine \<Rightarrow> u64 \<Rightarrow> u64 \<Rightarrow> u64 \<Rightarrow> u64 \<Rightarrow> cint \<Rightarrow> kstate \<Rightarrow> kerror + kstate" where
  "vmm_map_range L pageTable physAddr virtAddr sz flags s =
     for_stepE (stride_fuel 0 sz PAGE_SIZE) Out_of_fuel 0 sz PAGE_SIZE
       (\<lambda>i s. vmm_map L pageTable (physAddr + i) (virtAddr + i) flags s) s"

definition vmm_kernel_pt :: "kstate \<Rightarrow> kerror + (u64 \<times> kstate)" where
  "vmm_kernel_pt s =
     bindE (kassert (of_cond (kernelPT s \<noteq> 0))
              ''Attempt to fetch root kernel page table before VMM initialization!\<newline>''
              ''vmm_kernel_pt'' ''./mm/vmm.c'' 29 s) (\<lambda>s.
     Inr (kernelPT s, s))"

definition map_memmap_entry :: "limine \<Rightarrow> u64 \<Rightarrow> kstate \<Rightarrow> kerror + kstate" where
  "map_memmap_entry L i s =
     bindE (boot_proto_memmap_entry_get L i s) (\<lambda>(entry, s).
     let entry = skip_page_0 entry in
     vmm_map_range L (kernelPT s) (entry_base entry)
       (entry_base entry + boot_proto_hhdm_offset L) (entry_length entry)
       (VMM_PRESENT OR VMM_RWX) s)"

definition vmm_init :: "limine \<Rightarrow> kstate \<Rightarrow> kerror + (cint \<times> kstate)" where
  "vmm_init L s =
     bindE (vmm_new_pt L s) (\<lambda>(pt, s).
     let s = s\<lparr>kernelPT := pt\<rparr> in
     bindE (klog LOGLEVEL_TRACE ''Mapping memmap entries...\<newline>'' [] s) (\<lambda>s.
     bindE (forE 0 (boot_proto_memmap_entry_count L) (map_memmap_entry L) s) (\<lambda>s.
     bindE (klog LOGLEVEL_TRACE ''Mapping kernel...\<newline>'' [] s) (\<lambda>s.
     bindE (vmm_map_range L (kernelPT s) (boot_proto_kernel_physical_base L)
              (boot_proto_kernel_virtual_base L) (boot_proto_kernel_size L)
              (VMM_PRESENT OR VMM_RWX) s) (\<lambda>s.
     let s = vmm_switch L (kernelPT s) s in
     bindE (klog LOGLEVEL_INFO ''VMM Initialized\<newline>'' [] s) (\<lambda>s.
     Inr (0, s)))))))"

section \<open>Pages of virtual addresses\<close>

definition vpage :: "u64 \<Rightarrow> nat" where
  "vpage va = unat va div 4096 mod 2 ^ 36"

lemma vidx_vpage: "vidx 0 va = vpage va mod 512" "vidx 1 va = vpage va div 512 mod 512"
  "vidx 2 va = vpage va div 512 div 512 mod 512" "vidx 3 va = vpage va div 512 div 512 div 512"
proof -
  have d: "n mod (512 * m) div 512 = n div 512 mod m" for n m :: nat by (simp add: mod_mult2_eq)
  have p: "(2::nat) ^ 36 = 512 * (512 * (512 * 512))" by simp
  show "vidx 0 va = vpage va mod 512" "vidx 1 va = vpage va div 512 mod 512"
    "vidx 2 va = vpage va div 512 div 512 mod 512" "vidx 3 va = vpage va div 512 div 512 div 512"
    unfolding vpage_def p d by (simp_all add: vidx_def div_mult2_eq [symmetric] mod_mod_cancel)
qed

lemma vpath_vpage: "vpath va = vpath vb \<longleftrightarrow> vpage va = vpage vb"
proof
  assume "vpath va = vpath vb"
  then have d: "vpage va mod 512 = vpage vb mod 512"
    "vpage va div 512 mod 512 = vpage vb div 512 mod 512"
    "vpage va div 512 div 512 mod 512 = vpage vb div 512 div 512 mod 512"
    "vpage va div 512 div 512 div 512 = vpage vb div 512 div 512 div 512"
    by (simp_all only: vpath_def list.inject vidx_vpage)
  have "vpage va div 512 div 512 = vpage vb div 512 div 512"
    using d(3,4) by (metis div_mult_mod_eq)
  then have "vpage va div 512 = vpage vb div 512" using d(2) by (metis div_mult_mod_eq)
  then show "vpage va = vpage vb" using d(1) by (metis div_mult_mod_eq)
qed (simp only: vpath_def vidx_vpage)

lemma page_stride: "unat (va + of_nat k * PAGE_SIZE) div 4096 = (unat va div 4096 + k) mod 2 ^ 52"
proof -
  have "of_nat k * PAGE_SIZE = (of_nat (4096 * k) :: u64)" by (simp add: PAGE_SIZE_def mult.commute)
  then have "unat (va + of_nat k * PAGE_SIZE) = (unat va + 4096 * k) mod (4096 * 2 ^ 52)"
    by (simp add: unat_word_ariths unat_of_nat mod_simps)
  then have "unat (va + of_nat k * PAGE_SIZE) div 4096 = (unat va + 4096 * k) mod (4096 * 2 ^ 52) div 4096"
    by (simp only:)
  also have "\<dots> = (unat va + 4096 * k) div 4096 mod 2 ^ 52" by (subst mod_mult2_eq) simp
  finally show ?thesis by (simp add: add.commute)
qed

lemma vpage_stride: "vpage (va + of_nat k * PAGE_SIZE) = (vpage va + k) mod 2 ^ 36"
  unfolding vpage_def page_stride by (simp add: mod_mod_cancel mod_simps)

text \<open>The number of a page in a range that starts at \<open>virt\<close>, counted around the address space.\<close>

definition range_index :: "u64 \<Rightarrow> u64 \<Rightarrow> nat" where
  "range_index virt va = (vpage va + 2 ^ 36 - vpage virt) mod 2 ^ 36"

lemma vpage_lt: "vpage va < 2 ^ 36"
  by (simp add: vpage_def)

lemma range_index_eq:
  assumes "k < 2 ^ 36"
  shows "vpath va = vpath (virt + of_nat k * PAGE_SIZE) \<longleftrightarrow> range_index virt va = k"
proof -
  have *: "a = (b + k) mod N \<longleftrightarrow> (a + N - b) mod N = k" if "a < N" "b < N" "k < N" for a b N :: nat
  proof (cases "b \<le> a")
    case True
    then have "(a + N - b) mod N = a - b" using that by (simp add: mod_if)
    moreover have "(b + k) mod N = (if b + k < N then b + k else b + k - N)"
      using that by (simp add: mod_if)
    ultimately show ?thesis using that True by auto
  next
    case False
    then have "(a + N - b) mod N = a + N - b" using that by simp
    moreover have "(b + k) mod N = (if b + k < N then b + k else b + k - N)"
      using that by (simp add: mod_if)
    ultimately show ?thesis using that False by auto
  qed
  show ?thesis
    unfolding vpath_vpage vpage_stride range_index_def
    by (rule *) (use assms vpage_lt in auto)
qed

section \<open>Mapping a range\<close>

definition range_pages :: "u64 \<Rightarrow> nat" where
  "range_pages sz = (unat sz + 4095) div 4096"

text \<open>The translations after a range was mapped.\<close>

definition range_view ::
    "u64 \<Rightarrow> u64 \<Rightarrow> nat \<Rightarrow> cint \<Rightarrow> (u64 \<Rightarrow> (nat \<times> bool \<times> bool \<times> bool) option)
      \<Rightarrow> u64 \<Rightarrow> (nat \<times> bool \<times> bool \<times> bool) option" where
  "range_view pa virt n flags T va =
     (if range_index virt va < n
      then flag_view ((unat pa div 4096 + range_index virt va) mod 2 ^ 51) flags else T va)"

lemma range_view_Suc:
  assumes "n < 2 ^ 36"
  shows "(if vpath va = vpath (virt + of_nat n * PAGE_SIZE)
      then flag_view (unat (pa + of_nat n * PAGE_SIZE) div 4096 mod 2 ^ 51) flags
      else range_view pa virt n flags T va) = range_view pa virt (Suc n) flags T va"
proof -
  have "(unat pa div 4096 + n) mod 2 ^ 52 mod 2 ^ 51 = (unat pa div 4096 + n) mod 2 ^ 51"
    by (rule mod_mod_cancel) simp
  then show ?thesis
    unfolding range_index_eq [OF assms] page_stride by (auto simp: range_view_def less_Suc_eq)
qed

text \<open>
  How many times the pages of a range, one after the other, start a new lowest-level table: the
  pages of a range need few tables, one for 512 of them.
\<close>

primrec new_runs :: "nat \<Rightarrow> nat \<Rightarrow> nat" where
  "new_runs V 0 = 0"
| "new_runs V (Suc k) = new_runs V k + (if k = 0 \<or> (V + k) mod 512 = 0 then 1 else 0)"

lemma new_runs_le: "new_runs V k \<le> k div 512 + 2"
proof -
  have "new_runs V k + (V + 511) div 512 \<le> (if k = 0 then 0 else 1) + (V + k + 511) div 512"
  proof (induction k)
    case 0
    show ?case by simp
  next
    case (Suc k)
    have "(V + Suc k + 511) div 512 = (V + k + 511) div 512 + (if (V + k) mod 512 = 0 then 1 else 0)"
      using div_Suc [of "V + k + 511" 512] mod_add_self2 [of "V + k" 512] by simp
    then show ?case using Suc by (auto split: if_splits)
  qed
  moreover have "(V + k + 511) div 512 \<le> (V + 511) div 512 + (k div 512 + 1)"
  proof -
    have "((V + 511) mod 512 + k mod 512) div 512 \<le> 1"
      by (simp add: div_le_mono less_Suc_eq_le [symmetric] div_less_iff_less_mult add_less_mono
          del: mod_add_self2) 
    then show ?thesis using div_add1_eq [of "V + 511" k 512] by (simp add: ac_simps)
  qed
  ultimately show ?thesis by (auto split: if_splits)
qed

lemma tables_for_vpage:
  assumes "vpage va div 512 = vpage vb div 512"
  shows "tables_for L r s va = tables_for L r s vb"
  by (simp only: tables_for_def vidx_vpage assms)

lemma vpage_stride_Suc:
  assumes "(vpage virt + Suc k) mod 512 \<noteq> 0"
  shows "vpage (virt + of_nat (Suc k) * PAGE_SIZE) div 512 = vpage (virt + of_nat k * PAGE_SIZE) div 512"
proof -
  have "(x + 1) mod 2 ^ 36 div 512 = x mod 2 ^ 36 div 512" if "(x + 1) mod 512 \<noteq> 0" for x :: nat
  proof -
    have d: "n mod (512 * 2 ^ 27) div 512 = n div 512 mod 2 ^ 27" for n :: nat
      by (subst mod_mult2_eq) simp
    have "(x + 1) div 512 = x div 512" using that div_Suc [of x 512] by simp
    then show ?thesis using d [of "x + 1"] d [of x] by simp
  qed
  from this [of "vpage virt + k"] show ?thesis using assms unfolding vpage_stride by simp
qed

lemma map_range_spec:
  assumes ok: "vm_ok L M D r s" and sz: "unat sz \<le> 2 ^ 48"
  shows "case vmm_map_range L (page_addr L r) pa virt sz flags s of
      Inl e \<Rightarrow> oom_error s e \<and> card (free_pages s) < 3 * (range_pages sz div 512 + 2)
    | Inr s' \<Rightarrow> \<exists>D'. vm_ext L M r D s D' s'
        \<and> (\<forall>va. translate L r s' va = range_view pa virt (range_pages sz) flags (translate L r s) va)
        \<and> card (free_pages s) \<le> card (free_pages s') + 3 * (range_pages sz div 512 + 2)"
proof -
  let ?n = "range_pages sz" and ?c = "new_runs (vpage virt)"
  define P where "P k s1 \<longleftrightarrow> (\<exists>D'. vm_ext L M r D s D' s1
        \<and> (\<forall>va. translate L r s1 va = range_view pa virt k flags (translate L r s) va)
        \<and> card (free_pages s) \<le> card (free_pages s1) + 3 * ?c k
        \<and> (\<forall>j. k = Suc j \<longrightarrow> tables_for L r s1 (virt + of_nat j * PAGE_SIZE)))" for k s1
  have n36: "?n \<le> 2 ^ 36" using sz by (simp add: range_pages_def)
  have le: "3 * ?c k \<le> 3 * (?n div 512 + 2)" if "k \<le> ?n" for k
    using new_runs_le [of "vpage virt" k] div_le_mono [OF that, of 512] by simp
  have "case for_stepE (stride_fuel 0 sz PAGE_SIZE) Out_of_fuel 0 sz PAGE_SIZE
       (\<lambda>i s. vmm_map L (page_addr L r) (pa + i) (virt + i) flags s) s of
      Inl e \<Rightarrow> oom_error s e \<and> card (free_pages s) < 3 * (?n div 512 + 2)
    | Inr s' \<Rightarrow> P ?n s'"
  proof (rule for_stepE_case_rule)
    show "?n \<le> stride_fuel 0 sz PAGE_SIZE"
      by (simp add: stride_fuel_def range_pages_def)
    show "unat (0 :: u64) + ?n * unat PAGE_SIZE < 2 ^ 64" using n36 by simp
    show "unat sz \<le> unat (0 :: u64) + ?n * unat PAGE_SIZE" by (simp add: range_pages_def)
    show "unat (0 :: u64) + k * unat PAGE_SIZE < unat sz" if "k < ?n" for k
      using that by (simp add: range_pages_def)
    show "P 0 s" using vm_ext_refl [OF ok] by (auto simp: P_def range_view_def)
  next
    fix k s1
    assume k: "k < ?n" and "P k s1"
    then obtain D1 where D1: "vm_ext L M r D s D1 s1"
        "\<And>va. translate L r s1 va = range_view pa virt k flags (translate L r s) va"
        "card (free_pages s) \<le> card (free_pages s1) + 3 * ?c k"
        "\<And>j. k = Suc j \<Longrightarrow> tables_for L r s1 (virt + of_nat j * PAGE_SIZE)"
      unfolding P_def by blast
    let ?i = "0 + of_nat k * PAGE_SIZE"
    have there: "tables_for L r s1 (virt + ?i)" if "\<not> (k = 0 \<or> (vpage virt + k) mod 512 = 0)"
    proof -
      obtain j where j: "k = Suc j" using \<open>\<not> (k = 0 \<or> _)\<close> by (cases k) auto
      then show ?thesis
        using D1(4) [OF j] tables_for_vpage [OF vpage_stride_Suc [of virt j]] that by simp
    qed
    note spec = map_spec [OF vm_ext_fields(1) [OF D1(1)], where pa = "pa + ?i" and va = "virt + ?i" and flags = flags]
    show "case vmm_map L (page_addr L r) (pa + ?i) (virt + ?i) flags s1 of
        Inl e \<Rightarrow> oom_error s e \<and> card (free_pages s) < 3 * (?n div 512 + 2)
      | Inr s' \<Rightarrow> P (Suc k) s'"
    proof (cases "arch_vmm_map L (page_addr L r) (pa + ?i) (virt + ?i) flags s1")
      case (Inl e)
      then have e: "oom_error s1 e" "card (free_pages s1) < 3" "\<not> tables_for L r s1 (virt + ?i)"
        using spec by simp_all
      have "k = 0 \<or> (vpage virt + k) mod 512 = 0"
      proof (rule ccontr)
        assume "\<not> (k = 0 \<or> (vpage virt + k) mod 512 = 0)"
        from there [OF this] e(3) show False by contradiction
      qed
      then have "?c (Suc k) = ?c k + 1" by simp
      then have "card (free_pages s) < 3 * (?n div 512 + 2)"
        using e(2) D1(3) le [of "Suc k"] k by linarith
      then show ?thesis
        using Inl e(1) vm_ext_fields(4) [OF D1(1)] by (simp add: vmm_map_def oom_error_def)
    next
      case (Inr s2)
      then obtain D2 where D2: "vm_ext L M r D1 s1 D2 s2"
          "\<And>va. translate L r s2 va = (if vpath va = vpath (virt + ?i)
             then flag_view (unat (pa + ?i) div 4096 mod 2 ^ 51) flags else translate L r s1 va)"
          "tables_for L r s2 (virt + ?i)"
          "card (free_pages s1) \<le> card (free_pages s2) + (if tables_for L r s1 (virt + ?i) then 0 else 3)"
        using spec by auto
      have "translate L r s2 va = range_view pa virt (Suc k) flags (translate L r s) va" for va
        unfolding D2(2) D1(2) add_0_left by (rule range_view_Suc) (use k n36 in simp)
      moreover have "card (free_pages s) \<le> card (free_pages s2) + 3 * ?c (Suc k)"
        using D1(3) D2(4) there by (auto split: if_splits)
      ultimately have "P (Suc k) s2"
        using vm_ext_trans [OF D1(1) D2(1)] D2(3) unfolding P_def by auto
      then show ?thesis using Inr by (simp add: vmm_map_def)
    qed
  qed
  then show ?thesis
    using le [of ?n] unfolding vmm_map_range_def P_def by (auto split: sum.splits)
qed

section \<open>The kernel's address space\<close>

text \<open>What the processor sees after the first \<open>i\<close> entries of the memory map are mapped.\<close>

abbreviation kernel_flags :: cint where "kernel_flags \<equiv> VMM_PRESENT OR VMM_RWX"

primrec memmap_view :: "limine \<Rightarrow> nat \<Rightarrow> u64 \<Rightarrow> (nat \<times> bool \<times> bool \<times> bool) option" where
  "memmap_view L 0 = (\<lambda>va. None)"
| "memmap_view L (Suc i) =
     (let e = skip_page_0 (memmap_entry L i) in
      range_view (entry_base e) (entry_base e + boot_proto_hhdm_offset L)
        (range_pages (entry_length e)) kernel_flags (memmap_view L i))"

definition table_demand :: "limine \<Rightarrow> nat \<Rightarrow> nat" where
  "table_demand L i =
     (\<Sum>j<i. 3 * (range_pages (entry_length (skip_page_0 (memmap_entry L j))) div 512 + 2))"

text \<open>
  The entries and the kernel fit the 48 bits of a virtual address.
\<close>

definition small_map :: "limine \<Rightarrow> bool" where
  "small_map L \<longleftrightarrow> entry_count L < 2 ^ 64 \<and> unat (boot_proto_kernel_size L) \<le> 2 ^ 48
     \<and> (\<forall>i < entry_count L. unat (entry_length (skip_page_0 (memmap_entry L i))) \<le> 2 ^ 48)"

lemma map_entries_spec:
  assumes ok: "vm_ok L M D r s" and kpt: "kernelPT s = page_addr L r" and small: "small_map L"
    and none: "\<And>va. translate L r s va = None"
  shows "case forE 0 (boot_proto_memmap_entry_count L) (map_memmap_entry L) s of
      Inl e \<Rightarrow> oom_error s e \<and> card (free_pages s) < table_demand L (entry_count L)
    | Inr s' \<Rightarrow> \<exists>D'. vm_ext L M r D s D' s'
        \<and> (\<forall>va. translate L r s' va = memmap_view L (entry_count L) va)
        \<and> card (free_pages s) \<le> card (free_pages s') + table_demand L (entry_count L)"
proof -
  define P where "P i s1 \<longleftrightarrow> (\<exists>D'. vm_ext L M r D s D' s1
        \<and> (\<forall>va. translate L r s1 va = memmap_view L i va)
        \<and> card (free_pages s) \<le> card (free_pages s1) + table_demand L i)" for i s1
  have n: "unat (boot_proto_memmap_entry_count L) = entry_count L"
    using small by (intro unat_entry_count) (simp add: small_map_def)
  have "case forE 0 (boot_proto_memmap_entry_count L) (map_memmap_entry L) s of
      Inl e \<Rightarrow> oom_error s e \<and> card (free_pages s) < table_demand L (entry_count L)
    | Inr s' \<Rightarrow> P (unat (boot_proto_memmap_entry_count L)) s'"
  proof (rule forE_rule)
    show "P (unat 0) s" using vm_ext_refl [OF ok] none by (auto simp: P_def table_demand_def)
  next
    fix k s1 assume k: "k < boot_proto_memmap_entry_count L" and "P (unat k) s1"
    then obtain D1 where D1: "vm_ext L M r D s D1 s1"
        "\<And>va. translate L r s1 va = memmap_view L (unat k) va"
        "card (free_pages s) \<le> card (free_pages s1) + table_demand L (unat k)"
      unfolding P_def by blast
    have ki: "unat k < entry_count L" using k n by (simp add: word_less_nat_alt)
    let ?e = "skip_page_0 (memmap_entry L (unat k))"
    let ?m = "vmm_map_range L (page_addr L r) (entry_base ?e)
       (entry_base ?e + boot_proto_hhdm_offset L) (entry_length ?e) kernel_flags s1"
    have "kernelPT s1 = page_addr L r" using vm_ext_fields(9) [OF D1(1)] kpt by (metis kstate.select_convs(5) kstate.surjective kstate.update_convs(1))
    then have run: "map_memmap_entry L k s1 = ?m"
      by (simp add: map_memmap_entry_def memmap_entry_get [OF k] Let_def)
    have sz: "unat (entry_length ?e) \<le> 2 ^ 48" using small ki by (simp add: small_map_def)
    have d: "table_demand L (Suc (unat k)) = table_demand L (unat k) + 3 * (range_pages (entry_length ?e) div 512 + 2)"
      by (simp add: table_demand_def)
    have mono: "table_demand L (Suc (unat k)) \<le> table_demand L (entry_count L)"
      unfolding table_demand_def using ki by (intro sum_mono2) auto
    note spec = map_range_spec [OF vm_ext_fields(1) [OF D1(1)] sz, of "entry_base ?e"
        "entry_base ?e + boot_proto_hhdm_offset L" kernel_flags]
    show "case map_memmap_entry L k s1 of
        Inl e \<Rightarrow> oom_error s e \<and> card (free_pages s) < table_demand L (entry_count L)
      | Inr s' \<Rightarrow> P (Suc (unat k)) s'"
    proof (cases ?m)
      case (Inl e)
      then have e: "oom_error s1 e" "card (free_pages s1) < 3 * (range_pages (entry_length ?e) div 512 + 2)"
        using spec by simp_all
      then have "card (free_pages s) < table_demand L (entry_count L)" using D1(3) d mono by linarith
      then show ?thesis unfolding run Inl using e(1) vm_ext_fields(4) [OF D1(1)] by (simp add: oom_error_def)
    next
      case (Inr s2)
      then obtain D2 where D2: "vm_ext L M r D1 s1 D2 s2"
          "\<And>va. translate L r s2 va = range_view (entry_base ?e) (entry_base ?e + boot_proto_hhdm_offset L)
             (range_pages (entry_length ?e)) kernel_flags (translate L r s1) va"
          "card (free_pages s1) \<le> card (free_pages s2) + 3 * (range_pages (entry_length ?e) div 512 + 2)"
        using spec by auto
      have "translate L r s2 va = memmap_view L (Suc (unat k)) va" for va
        unfolding D2(2) by (simp add: Let_def range_view_def D1(2))
      then have "P (Suc (unat k)) s2"
        unfolding P_def using vm_ext_trans [OF D1(1) D2(1)] D1(3) D2(3) d by auto
      then show ?thesis unfolding run Inr by simp
    qed
  qed simp
  then show ?thesis unfolding n P_def .
qed

text \<open>A fresh address space: the root table of a new page translates nothing.\<close>

lemma fresh_space:
  assumes ready: "pmm_ready L M s" and np: "npages s \<le> 2 ^ 51"
  shows "case vmm_new_pt L s of
      Inl e \<Rightarrow> oom_error s e \<and> free_pages s = {}
    | Inr (t, s') \<Rightarrow> \<exists>r \<in> free_pages s. t = page_addr L r \<and> r < 2 ^ 51 \<and> s' = s\<lparr>mem := mem s'\<rparr>
        \<and> vm_ok L M [r \<mapsto> 3] r s' \<and> (\<forall>va. translate L r s' va = None)
        \<and> free_pages s' = free_pages s - {r}"
proof (cases "arch_vmm_new_pt L s")
  case (Inl e)
  then show ?thesis using new_pt_spec [OF assms] by (simp add: vmm_new_pt_def oom_error_def)
next
  case (Inr x)
  obtain t s' where x: "x = (t, s')" by (cases x)
  obtain r where r: "r \<in> free_pages s" "t = page_addr L r" "r < 2 ^ 51" "s' = s\<lparr>mem := mem s'\<rparr>"
      "free_pages s' = free_pages s - {r}" "pmm_ready L M s'"
      and zero: "\<forall>j. j div 512 = r \<longrightarrow> slots L (mem s') j = 0"
    using new_pt_spec [OF assms] Inr x by auto
  have z: "slots L (mem s') (512 * r + i) = 0" if "i < 512" for i using zero that by simp
  have "tree (slots L (mem s')) [r \<mapsto> 3] r"
    using z by (auto simp: tree_def link_ok_def child_def decode_0)
  moreover have "r \<in> M" using r(1) ready by (auto simp: pmm_ready_def)
  moreover obtain m where "s' = s\<lparr>mem := m\<rparr>" using r(4) by blast
  then have "npages s' = npages s" by (simp add: npages_def)
  ultimately have "vm_ok L M [r \<mapsto> 3] r s'" using r(5,6) np by (auto simp: vm_ok_def)
  moreover have "translate L r s' va = None" for va
    using z [OF vidx_lt, of 3 va] by (simp add: translate_def vpath_def decode_0)
  ultimately show ?thesis using Inr x r by (auto simp: vmm_new_pt_def)
qed

text \<open>The console and the variables of the virtual memory manager are not in the tables.\<close>

lemma vm_ok_other:
  assumes "mem s' = mem s" "bitmap s' = bitmap s" "bitmapSize s' = bitmapSize s"
  shows "vm_ok L M D r s' \<longleftrightarrow> vm_ok L M D r s" "free_pages s' = free_pages s"
    "npages s' = npages s" "translate L r s' va = translate L r s va"
proof -
  note o = pmm_ready_other [of s' s, OF assms(2,3)]
  show f: "free_pages s' = free_pages s" and n: "npages s' = npages s"
    using o(1) assms by (simp_all add: npages_def)
  show "vm_ok L M D r s' \<longleftrightarrow> vm_ok L M D r s" using o(2) assms(1) f n by (simp add: vm_ok_def)
  show "translate L r s' va = translate L r s va" using assms(1) by (simp add: translate_def)
qed

definition kernel_demand :: "limine \<Rightarrow> nat" where
  "kernel_demand L = 1 + table_demand L (entry_count L)
     + 3 * (range_pages (boot_proto_kernel_size L) div 512 + 2)"

definition kernel_view :: "limine \<Rightarrow> u64 \<Rightarrow> (nat \<times> bool \<times> bool \<times> bool) option" where
  "kernel_view L = range_view (boot_proto_kernel_physical_base L) (boot_proto_kernel_virtual_base L)
     (range_pages (boot_proto_kernel_size L)) kernel_flags (memmap_view L (entry_count L))"

definition vmm_log :: string where
  "vmm_log = ''[ TRACE ] Mapping memmap entries...\<newline>[ TRACE ] Mapping kernel...\<newline>[ INFO  ] VMM Initialized\<newline>''"

text \<open>The last phase: the kernel's own pages, and the switch.\<close>

definition map_kernel :: "limine \<Rightarrow> kstate \<Rightarrow> kerror + (cint \<times> kstate)" where
  "map_kernel L s =
     bindE (klog LOGLEVEL_TRACE ''Mapping kernel...\<newline>'' [] s) (\<lambda>s.
     bindE (vmm_map_range L (kernelPT s) (boot_proto_kernel_physical_base L)
              (boot_proto_kernel_virtual_base L) (boot_proto_kernel_size L) kernel_flags s) (\<lambda>s.
     bindE (klog LOGLEVEL_INFO ''VMM Initialized\<newline>'' [] (vmm_switch L (kernelPT s) s)) (\<lambda>s. Inr (0, s))))"

lemma map_kernel_spec:
  assumes ok: "vm_ok L M D r s" and kpt: "kernelPT s = page_addr L r" and small: "small_map L"
    and entries: "\<And>va. translate L r s va = memmap_view L (entry_count L) va"
  shows "case map_kernel L s of
      Inl e \<Rightarrow> e = Halted (con s @ ''[ TRACE ] Mapping kernel...\<newline>'' @ oom_message)
        \<and> card (free_pages s) < 3 * (range_pages (boot_proto_kernel_size L) div 512 + 2)
    | Inr (v, s') \<Rightarrow> v = 0 \<and> (\<exists>D'. vm_ok L M D' r s' \<and> dom D \<subseteq> dom D'
        \<and> con s' = con s @ ''[ TRACE ] Mapping kernel...\<newline>[ INFO  ] VMM Initialized\<newline>''
        \<and> kernelPT s' = page_addr L r \<and> cr3 s' = of_nat (r * 4096)
        \<and> (\<forall>va. translate L r s' va = kernel_view L va)
        \<and> free_pages s' = free_pages s - dom D'
        \<and> card (free_pages s) \<le> card (free_pages s') + 3 * (range_pages (boot_proto_kernel_size L) div 512 + 2))"
proof -
  define s1 where "s1 = s\<lparr>con := con s @ ''[ TRACE ] Mapping kernel...\<newline>''\<rparr>"
  have o1: "mem s1 = mem s" "bitmap s1 = bitmap s" "bitmapSize s1 = bitmapSize s"
    "kernelPT s1 = page_addr L r" using kpt by (simp_all add: s1_def)
  note vo1 = vm_ok_other [OF o1(1-3)]
  have log: "klog LOGLEVEL_TRACE ''Mapping kernel...\<newline>'' [] s = Inr s1"
    by (simp add: klog_literal s1_def)
  let ?m = "vmm_map_range L (page_addr L r) (boot_proto_kernel_physical_base L)
              (boot_proto_kernel_virtual_base L) (boot_proto_kernel_size L) kernel_flags s1"
  have "unat (boot_proto_kernel_size L) \<le> 2 ^ 48" using small by (simp add: small_map_def)
  note kern = map_range_spec [of L M D r s1, unfolded vo1, OF ok this,
      of "boot_proto_kernel_physical_base L" "boot_proto_kernel_virtual_base L" kernel_flags]
  have run: "map_kernel L s = bindE ?m (\<lambda>s.
     bindE (klog LOGLEVEL_INFO ''VMM Initialized\<newline>'' [] (vmm_switch L (kernelPT s) s)) (\<lambda>s. Inr (0, s)))"
    unfolding map_kernel_def log bindE.simps o1(4) ..
  show ?thesis
  proof (cases ?m)
    case (Inl e)
    then show ?thesis using kern unfolding run by (simp add: oom_error_def s1_def)
  next
    case (Inr s2)
    obtain D2 where D2: "vm_ext L M r D s1 D2 s2" "\<And>va. translate L r s2 va = kernel_view L va"
        "card (free_pages s) \<le> card (free_pages s2) + 3 * (range_pages (boot_proto_kernel_size L) div 512 + 2)"
      using kern Inr unfolding kernel_view_def by (auto simp: range_view_def entries)
    note f2 = vm_ext_fields [OF D2(1)]
    obtain m2 where m2: "s2 = s1\<lparr>mem := m2\<rparr>" using f2(9) by blast
    define s3 where "s3 = s2\<lparr>cr3 := of_nat (r * 4096),
      con := con s @ ''[ TRACE ] Mapping kernel...\<newline>[ INFO  ] VMM Initialized\<newline>''\<rparr>"
    have o3: "mem s3 = mem s2" "bitmap s3 = bitmap s2" "bitmapSize s3 = bitmapSize s2"
      "kernelPT s3 = page_addr L r" using o1(4) by (simp_all add: s3_def m2)
    have "map_kernel L s = Inr (0, s3)"
      unfolding run Inr using o1(4)
      by (simp add: m2 klog_literal vmm_switch_def arch_vmm_switch_def s3_def s1_def page_addr_def)
    then show ?thesis
      using f2(1,7) D2(2,3) map_le_implies_dom_le [OF f2(6)] o3(4)
      by (auto simp: vm_ok_other [OF o3(1-3)] vo1 intro!: exI [of _ D2]) (simp_all add: s3_def)
  qed
qed

lemma vmm_init_spec:
  assumes ready: "pmm_ready L M s" and np: "npages s \<le> 2 ^ 51" and small: "small_map L"
  shows "case vmm_init L s of
      Inl e \<Rightarrow> (\<exists>out. e = Halted (con s @ out @ oom_message)) \<and> card (free_pages s) < kernel_demand L
    | Inr (v, s') \<Rightarrow> v = 0 \<and> con s' = con s @ vmm_log
        \<and> (\<exists>r D. r \<in> free_pages s \<and> kernelPT s' = page_addr L r \<and> cr3 s' = of_nat (r * 4096)
            \<and> vm_ok L M D r s' \<and> (\<forall>va. translate L r s' va = kernel_view L va)
            \<and> free_pages s' = free_pages s - dom D
            \<and> card (free_pages s) \<le> card (free_pages s') + kernel_demand L)"
proof (cases "vmm_new_pt L s")
  case (Inl e)
  then show ?thesis
    using fresh_space [OF ready np] by (auto simp: vmm_init_def oom_error_def kernel_demand_def intro: exI [of _ "[]"])
next
  case (Inr x)
  obtain pt s1 where x: "x = (pt, s1)" by (cases x)
  obtain r where r: "r \<in> free_pages s" "pt = page_addr L r" "s1 = s\<lparr>mem := mem s1\<rparr>"
      "vm_ok L M [r \<mapsto> 3] r s1" "\<And>va. translate L r s1 va = None" "free_pages s1 = free_pages s - {r}"
    using fresh_space [OF ready np] Inr x by auto
  have card1: "card (free_pages s) = card (free_pages s1) + 1"
    using r(1,6) card_Suc_Diff1 [of "free_pages s" r] by (simp add: free_pages_def)
  have con1: "con s1 = con s" by (subst r(3)) simp
  define s2 where "s2 = s1\<lparr>kernelPT := pt, con := con s @ ''[ TRACE ] Mapping memmap entries...\<newline>''\<rparr>"
  have o2: "mem s2 = mem s1" "bitmap s2 = bitmap s1" "bitmapSize s2 = bitmapSize s1"
      "kernelPT s2 = page_addr L r" "con s2 = con s @ ''[ TRACE ] Mapping memmap entries...\<newline>''"
    by (simp_all add: s2_def r(2))
  note vo2 = vm_ok_other [OF o2(1-3)]
  have init: "vmm_init L s =
     bindE (forE 0 (boot_proto_memmap_entry_count L) (map_memmap_entry L) s2) (map_kernel L)"
    unfolding map_kernel_def using Inr x con1 by (simp add: vmm_init_def klog_literal s2_def Let_def)
  note entries = map_entries_spec [of L M "[r \<mapsto> 3]" r s2, unfolded vo2, OF r(4) o2(4) small r(5)]
  show ?thesis
  proof (cases "forE 0 (boot_proto_memmap_entry_count L) (map_memmap_entry L) s2")
    case (Inl e)
    then show ?thesis
      using entries card1 o2(5) unfolding init by (auto simp: oom_error_def kernel_demand_def)
  next
    case (Inr s3)
    obtain D3 where D3: "vm_ext L M r [r \<mapsto> 3] s2 D3 s3"
        "\<And>va. translate L r s3 va = memmap_view L (entry_count L) va"
        "card (free_pages s1) \<le> card (free_pages s3) + table_demand L (entry_count L)"
      using entries Inr by auto
    note f3 = vm_ext_fields [OF D3(1)]
    obtain m3 where m3: "s3 = s2\<lparr>mem := m3\<rparr>" using f3(9) by blast
    have "kernelPT s3 = page_addr L r" "con s3 = con s2" using o2(4) by (simp_all add: m3)
    note kern = map_kernel_spec [OF f3(1) this(1) small D3(2), unfolded this(2) o2(5)]
    have "r \<in> dom D3" using map_le_implies_dom_le [OF f3(6)] by auto
    then have sub: "free_pages s3 - dom D = free_pages s - dom D" if "dom D3 \<subseteq> dom D" for D :: "nat \<Rightarrow> nat option"
      using that unfolding f3(7) vo2(2) r(6) by blast
    show ?thesis
    proof (cases "map_kernel L s3")
      case (Inl e)
      then show ?thesis
        using kern card1 D3(3) unfolding init \<open>forE _ _ _ _ = _\<close> bindE.simps by (auto simp: kernel_demand_def)
    next
      case (Inr y)
      then obtain s4 D4 where D4: "y = (0, s4)" "vm_ok L M D4 r s4" "dom D3 \<subseteq> dom D4"
          "con s4 = con s @ vmm_log" "kernelPT s4 = page_addr L r" "cr3 s4 = of_nat (r * 4096)"
          "\<And>va. translate L r s4 va = kernel_view L va" "free_pages s4 = free_pages s3 - dom D4"
          "card (free_pages s3) \<le> card (free_pages s4) + 3 * (range_pages (boot_proto_kernel_size L) div 512 + 2)"
        using kern by (cases y) (auto simp: vmm_log_def)
      have "free_pages s4 = free_pages s - dom D4" using D4(8) sub [OF D4(3)] by simp
      moreover have "card (free_pages s) \<le> card (free_pages s4) + kernel_demand L"
        using D4(9) D3(3) card1 by (simp add: kernel_demand_def)
      ultimately have "\<exists>r D. r \<in> free_pages s \<and> kernelPT s4 = page_addr L r \<and> cr3 s4 = of_nat (r * 4096)
            \<and> vm_ok L M D r s4 \<and> (\<forall>va. translate L r s4 va = kernel_view L va)
            \<and> free_pages s4 = free_pages s - dom D
            \<and> card (free_pages s) \<le> card (free_pages s4) + kernel_demand L"
        using r(1) D4(2,5-7) by blast
      then show ?thesis
        using Inr D4(1,4) unfolding init \<open>forE _ _ _ _ = _\<close> bindE.simps by simp
    qed
  qed
qed

section \<open>The direct map\<close>

text \<open>
  The pages of the memory map's entries as \<^verbatim>\<open>vmm_init\<close> maps them, and what makes the direct map
  linear: a page-aligned offset, and entries that end in the first 256 TiB.
\<close>

definition mapped_pages :: "limine \<Rightarrow> nat \<Rightarrow> nat set" where
  "mapped_pages L i =
     (let e = skip_page_0 (memmap_entry L i); b = unat (entry_base e) div 4096
      in {b..<b + range_pages (entry_length e)})"

definition direct_map_ok :: "limine \<Rightarrow> bool" where
  "direct_map_ok L \<longleftrightarrow> unat (boot_proto_hhdm_offset L) mod 4096 = 0
     \<and> (\<forall>i < entry_count L. let e = skip_page_0 (memmap_entry L i)
          in unat (entry_base e) + unat (entry_length e) \<le> 2 ^ 48)"

lemma vpage_direct:
  assumes "unat (boot_proto_hhdm_offset L) mod 4096 = 0"
  shows "vpage (a + boot_proto_hhdm_offset L) =
    (unat a div 4096 + unat (boot_proto_hhdm_offset L) div 4096) mod 2 ^ 36"
proof -
  let ?h = "boot_proto_hhdm_offset L"
  obtain H where H: "unat ?h = 4096 * H" using mult_div_mod_eq [of 4096 "unat ?h"] assms by (metis add_0_right)
  have "unat (a + ?h) = (unat a + 4096 * H) mod (4096 * 2 ^ 52)" by (simp add: unat_word_ariths H)
  then have "unat (a + ?h) div 4096 = (unat a + 4096 * H) div 4096 mod 2 ^ 52"
    by (simp only:) (subst mod_mult2_eq, simp)
  then show ?thesis unfolding vpage_def H by (simp add: mod_mod_cancel add.commute)
qed

lemma range_index_direct:
  assumes al: "unat (boot_proto_hhdm_offset L) mod 4096 = 0" and p: "p < 2 ^ 36"
    and fits: "unat b div 4096 + n \<le> 2 ^ 36"
  shows "range_index (b + boot_proto_hhdm_offset L) (page_addr L p) < n
      \<longleftrightarrow> unat b div 4096 \<le> p \<and> p < unat b div 4096 + n"
    and "unat b div 4096 \<le> p \<Longrightarrow> range_index (b + boot_proto_hhdm_offset L) (page_addr L p) = p - unat b div 4096"
proof -
  have idx: "((p + H) mod N + N - (c + H) mod N) mod N = (if c \<le> p then p - c else p + N - c)"
    if "p < N" "c \<le> N" "0 < N" for p c H N :: nat
  proof -
    have m: "(x mod M + M - y mod M) mod M = (x - y) mod M" for x y M :: int
    proof -
      have "x mod M + M - y mod M = (x mod M - y mod M) + M" by simp
      then show ?thesis by (simp only: mod_add_self2 mod_diff_eq)
    qed
    have "(c + H) mod N \<le> (p + H) mod N + N" using that(3) by (simp add: less_imp_le trans_le_add2)
    then have "int (((p + H) mod N + N - (c + H) mod N) mod N) = (int p - int c) mod int N"
      using m [of "int p + int H" "int N" "int c + int H"] by (simp add: of_nat_mod of_nat_diff)
    also have "\<dots> = int (if c \<le> p then p - c else p + N - c)"
    proof (cases "c \<le> p")
      case True
      then show ?thesis using that by (simp add: of_nat_diff)
    next
      case False
      have "(int p - int c) mod int N = (int p - int c + int N) mod int N" by simp
      also have "\<dots> = int p - int c + int N" using False that by (intro mod_pos_pos_trivial) auto
      finally show ?thesis using False that by (simp add: of_nat_diff)
    qed
    finally show ?thesis by (simp only: of_nat_eq_iff)
  qed
  have u: "unat (of_nat (p * 4096) :: u64) = p * 4096" using p by (intro unat_of_nat_64) simp
  have "vpage (page_addr L p) = (p + unat (boot_proto_hhdm_offset L) div 4096) mod 2 ^ 36"
    unfolding page_addr_def vpage_direct [OF al] u by simp
  then have ri: "range_index (b + boot_proto_hhdm_offset L) (page_addr L p) =
      (if unat b div 4096 \<le> p then p - unat b div 4096 else p + 2 ^ 36 - unat b div 4096)"
    unfolding range_index_def vpage_direct [OF al] using p fits by (simp only: idx)
  show "range_index (b + boot_proto_hhdm_offset L) (page_addr L p) < n
      \<longleftrightarrow> unat b div 4096 \<le> p \<and> p < unat b div 4096 + n"
    using fits p by (auto simp: ri)
  show "unat b div 4096 \<le> p \<Longrightarrow> range_index (b + boot_proto_hhdm_offset L) (page_addr L p) = p - unat b div 4096"
    by (simp add: ri)
qed

lemma kernel_flag_view: "flag_view f kernel_flags = Some (f, True, False, True)"
  by (simp add: flag_view_def VMM_PRESENT_def VMM_RWX_def VMM_RW_def VMM_EXEC_def VMM_USER_def)

lemma memmap_view_direct:
  assumes ok: "direct_map_ok L" and p: "p < 2 ^ 36"
  shows "n \<le> entry_count L \<Longrightarrow> memmap_view L n (page_addr L p) =
    (if \<exists>i < n. p \<in> mapped_pages L i then Some (p, True, False, True) else None)"
proof (induction n)
  case 0
  show ?case by simp
next
  case (Suc n)
  let ?e = "skip_page_0 (memmap_entry L n)"
  let ?b = "unat (entry_base ?e) div 4096" and ?n = "range_pages (entry_length ?e)"
  have al: "unat (boot_proto_hhdm_offset L) mod 4096 = 0" using ok by (simp add: direct_map_ok_def)
  have "unat (entry_base ?e) + unat (entry_length ?e) \<le> 2 ^ 48"
    using ok Suc.prems by (simp add: direct_map_ok_def Let_def)
  then have fits: "?b + ?n \<le> 2 ^ 36" unfolding range_pages_def by simp
  note ri = range_index_direct [OF al p fits]
  have view: "memmap_view L (Suc n) (page_addr L p) =
      (if range_index (entry_base ?e + boot_proto_hhdm_offset L) (page_addr L p) < ?n
       then Some ((?b + range_index (entry_base ?e + boot_proto_hhdm_offset L) (page_addr L p)) mod 2 ^ 51, True, False, True)
       else memmap_view L n (page_addr L p))"
    by (simp add: Let_def range_view_def kernel_flag_view)
  show ?case
  proof (cases "p \<in> mapped_pages L n")
    case True
    then have m: "?b \<le> p" "p < ?b + ?n" by (auto simp: mapped_pages_def Let_def)
    then show ?thesis unfolding view ri(1) using ri(2) [OF m(1)] p True by auto
  next
    case False
    then have "\<not> (?b \<le> p \<and> p < ?b + ?n)" by (auto simp: mapped_pages_def Let_def)
    then have "memmap_view L (Suc n) (page_addr L p) = memmap_view L n (page_addr L p)"
      unfolding view ri(1) by (rule if_not_P)
    then show ?thesis using Suc False by (auto simp: less_Suc_eq)
  qed
qed

end
