(* ===== verification/Teardown.thy ===== *)
theory Teardown
  imports Paging
begin

text \<open>
  Tearing down an address space: the nested loops of \<^verbatim>\<open>arch_vmm_destroy_pt\<close> as one recursion over
  the levels, and that they release exactly the tables of the lower half and the frames mapped
  there. A table is poisoned when it is released, so the proof keeps track of the tables the
  loops have still to read: no released page is one of them.
\<close>

section \<open>Released pages\<close>

text \<open>From \<open>s\<close> to \<open>s'\<close> exactly the pages \<open>B\<close> are released and poisoned.\<close>

definition released :: "limine \<Rightarrow> nat set \<Rightarrow> kstate \<Rightarrow> kstate \<Rightarrow> bool" where
  "released L B s s' \<longleftrightarrow> s' = s\<lparr>mem := mem s'\<rparr> \<and> free_pages s' = free_pages s \<union> B
     \<and> (\<forall>x. \<not> in_rng (bitmap s) (unat (bitmapSize s)) x \<longrightarrow>
            mem s' x = (if page_of L x \<in> B then 0xff else mem s x))"

lemma released_refl [simp]: "released L {} s s"
  by (simp add: released_def)

lemma released_fields:
  assumes "released L B s s'"
  shows "bitmap s' = bitmap s" "bitmapSize s' = bitmapSize s" "npages s' = npages s"
    "free_pages s' = free_pages s \<union> B" "s' = s\<lparr>mem := mem s'\<rparr>"
proof -
  show eq: "s' = s\<lparr>mem := mem s'\<rparr>" using assms by (simp only: released_def)
  show "bitmap s' = bitmap s" "bitmapSize s' = bitmapSize s" by (subst eq, simp)+
  then show "npages s' = npages s" by (simp add: npages_def)
  show "free_pages s' = free_pages s \<union> B" using assms by (simp only: released_def)
qed

lemma released_mem: "released L B s s' \<Longrightarrow> \<not> in_rng (bitmap s) (unat (bitmapSize s)) x \<Longrightarrow>
    mem s' x = (if page_of L x \<in> B then 0xff else mem s x)"
  unfolding released_def by blast

lemma released_trans:
  assumes 1: "released L A s s1" and 2: "released L B s1 s2"
  shows "released L (A \<union> B) s s2"
proof -
  note f1 = released_fields [OF 1] and f2 = released_fields [OF 2]
  have "s2 = s\<lparr>mem := mem s2\<rparr>" by (rule mem_only_trans [OF f1(5) f2(5)])
  moreover have "free_pages s2 = free_pages s \<union> (A \<union> B)" using f1(4) f2(4) by blast
  moreover have "mem s2 x = (if page_of L x \<in> A \<union> B then 0xff else mem s x)"
    if "\<not> in_rng (bitmap s) (unat (bitmapSize s)) x" for x
    using released_mem [OF 1 that] released_mem [OF 2, of x] that by (simp add: f1(1,2))
  ultimately show ?thesis unfolding released_def by blast
qed

lemma released_ready:
  assumes "pmm_ready L M s" and "released L B s s'" and "B \<subseteq> M"
  shows "pmm_ready L M s'"
  using assms(1,3) released_fields [OF assms(2)] by (simp add: pmm_ready_def pmm_wf_def)

lemma released_slot:
  assumes "pmm_ready L M s" and "released L B s s'" and "t \<in> M" and "t \<notin> B" and "j < 512"
  shows "slots L (mem s') (512 * t + j) = slots L (mem s) (512 * t + j)"
proof (rule slots_cong)
  fix x assume "slot_of L x = 512 * t + j"
  then have x: "page_of L x = t" using assms(5) by (simp add: page_of_slot)
  then have "\<not> in_rng (bitmap s) (unat (bitmapSize s)) x" using assms(1,3) by (auto simp: pmm_ready_def)
  from released_mem [OF assms(2) this] show "mem s' x = mem s x" using x assms(4) by simp
qed

lemma free_table_releases:
  assumes "pmm_ready L M s" and "q \<in> M"
  shows "\<exists>s'. free_table L (page_addr L q) s = Inr s' \<and> released L {q} s s'"
proof -
  have "pmm_wf s" "q + 1 \<le> npages s"
    "\<And>x. in_rng (bitmap s) (unat (bitmapSize s)) x \<Longrightarrow> page_of L x \<notin> {q..<q + 1}"
    using assms by (auto simp: pmm_ready_def)
  then obtain s' where free: "pmm_free L (of_nat (q * 4096)) 1 s = Inr (0, s')"
      "s' = s\<lparr>mem := mem s'\<rparr>" "free_pages s' = free_pages s \<union> {q}"
      and m: "\<forall>x. mem s' x = (if page_of L x \<in> {q} then 0xff
            else if in_rng (bitmap s) (unat (bitmapSize s)) x then mem s' x else mem s x)"
    using pmm_free_spec [of s 1 q L] by auto
  moreover have "mem s' x = (if page_of L x \<in> {q} then 0xff else mem s x)"
    if "\<not> in_rng (bitmap s) (unat (bitmapSize s)) x" for x
    using spec [OF m, of x] that by (simp split: if_splits)
  ultimately have "released L {q} s s'" unfolding released_def by blast
  then show ?thesis using free
    by (simp add: free_table_def page_addr_def del: of_nat_mult)
qed

section \<open>What the loops reach\<close>

text \<open>The page \<open>p\<close> and what its entries lead to within \<open>n\<close> levels, released in this order last.\<close>

primrec reach :: "(nat \<Rightarrow> u64) \<Rightarrow> nat \<Rightarrow> nat \<Rightarrow> nat set" where
  "reach f 0 p = {p}"
| "reach f (Suc n) p = insert p (\<Union>i<512. case child f (512 * p + i) of None \<Rightarrow> {} | Some c \<Rightarrow> reach f n c)"

lemma reach_walk: "q \<in> reach f n p \<longleftrightarrow> (\<exists>is. length is \<le> n \<and> set is \<subseteq> {..<512} \<and> walk f p is = Some q)"
proof (induction n arbitrary: p)
  case 0
  then show ?case by auto
next
  case (Suc n)
  show ?case
  proof
    assume "q \<in> reach f (Suc n) p"
    then consider "q = p" | i c where "i < 512" "child f (512 * p + i) = Some c" "q \<in> reach f n c"
      by (auto split: option.splits)
    then show "\<exists>is. length is \<le> Suc n \<and> set is \<subseteq> {..<512} \<and> walk f p is = Some q"
    proof cases
      case 1
      then show ?thesis by (intro exI [of _ "[]"]) simp
    next
      case 2
      then obtain "is" where "length is \<le> n" "set is \<subseteq> {..<512}" "walk f c is = Some q" using Suc by blast
      then show ?thesis using 2 by (intro exI [of _ "i # is"]) simp
    qed
  next
    assume "\<exists>is. length is \<le> Suc n \<and> set is \<subseteq> {..<512} \<and> walk f p is = Some q"
    then obtain "is" where w: "length is \<le> Suc n" "set is \<subseteq> {..<512}" "walk f p is = Some q" by blast
    show "q \<in> reach f (Suc n) p"
    proof (cases "is")
      case Nil
      then show ?thesis using w by simp
    next
      case (Cons i js)
      then obtain c where "child f (512 * p + i) = Some c" "walk f c js = Some q"
        using w(3) by (auto split: option.splits)
      then show ?thesis using w(1,2) Cons Suc [of c] by (auto intro!: bexI [of _ i])
    qed
  qed
qed

text \<open>
  The pages below \<open>p\<close> can be released: they are managed, those of the upper levels hold tables,
  and those at the end, the mapped frames, do not.
\<close>

primrec releasable :: "(nat \<Rightarrow> u64) \<Rightarrow> (nat \<Rightarrow> nat option) \<Rightarrow> nat set \<Rightarrow> nat \<Rightarrow> nat \<Rightarrow> bool" where
  "releasable f D M 0 p \<longleftrightarrow> p \<in> M \<and> p \<notin> dom D"
| "releasable f D M (Suc n) p \<longleftrightarrow> p \<in> M \<and> D p = Some n
     \<and> (\<forall>i<512. \<forall>c. child f (512 * p + i) = Some c \<longrightarrow> releasable f D M n c)"

lemma releasable_walk:
  "releasable f D M n p \<Longrightarrow> set is \<subseteq> {..<512} \<Longrightarrow> length is \<le> n \<Longrightarrow> walk f p is = Some q
    \<Longrightarrow> releasable f D M (n - length is) q"
proof (induction "is" arbitrary: n p)
  case Nil
  then show ?case by simp
next
  case (Cons i "is")
  then obtain m where n: "n = Suc m" by (cases n) auto
  obtain c where c: "child f (512 * p + i) = Some c" "walk f c is = Some q"
    using Cons.prems(4) by (auto split: option.splits)
  have "releasable f D M (Suc m) p" "i < 512" using Cons.prems(1,2) n by simp_all
  then have "releasable f D M m c" using c(1) unfolding releasable.simps by blast
  then show ?case using Cons.IH [of m c] Cons.prems(2,3) c(2) n by simp
qed

lemma releasable_page: "releasable f D M n p \<Longrightarrow> p \<in> M"
  by (cases n) simp_all

lemma reach_managed: "releasable f D M n p \<Longrightarrow> reach f n p \<subseteq> M"
  unfolding subset_iff reach_walk using releasable_walk releasable_page by blast

text \<open>A table that is reached has the level of its depth.\<close>

lemma reach_level:
  assumes "releasable f D M n p" and "set is \<subseteq> {..<512}" and "length is \<le> n"
    and "walk f p is = Some q" and "D q = Some l"
  shows "n = Suc l + length is"
proof -
  have r: "releasable f D M (n - length is) q" by (rule releasable_walk [OF assms(1-4)])
  show ?thesis using assms(3,5) r by (cases "n - length is") auto
qed

lemma reach_tables_disjoint:
  assumes t: "tree f D r" and p: "D p = Some n" and i: "i < 512" "i' < 512" "i \<noteq> i'"
    and c: "child f (512 * p + i) = Some c" "releasable f D M n c"
    and c': "child f (512 * p + i') = Some c'" "releasable f D M n c'"
  shows "reach f n c \<inter> reach f n c' \<inter> dom D = {}"
proof (rule ccontr)
  assume "reach f n c \<inter> reach f n c' \<inter> dom D \<noteq> {}"
  then obtain q l where q: "q \<in> reach f n c" "q \<in> reach f n c'" "D q = Some l" by blast
  obtain "is" js where w: "length is \<le> n" "set is \<subseteq> {..<512}" "walk f c is = Some q"
      "length js \<le> n" "set js \<subseteq> {..<512}" "walk f c' js = Some q"
    using q(1,2) unfolding reach_walk by blast
  have "n = Suc l + length is" "n = Suc l + length js"
    using reach_level [OF c(2) w(2,1,3) q(3)] reach_level [OF c'(2) w(5,4,6) q(3)] by simp_all
  then have "i # is = i' # js"
    using w i c(1) c'(1) by (intro walk_inj [OF t, of "i # is" "i' # js" p n q]) (simp_all add: p)
  with i(3) show False by simp
qed

lemma reach_not_above:
  assumes "D p = Some n" and "releasable f D M n c"
  shows "p \<notin> reach f n c"
proof
  assume "p \<in> reach f n c"
  then obtain "is" where "length is \<le> n" "set is \<subseteq> {..<512}" "walk f c is = Some p"
    unfolding reach_walk by blast
  from reach_level [OF assms(2) this(2,1,3) assms(1)] show False by simp
qed

section \<open>The loops\<close>

text \<open>The shift in \<^verbatim>\<open>arch_vmm_destroy_pt\<close> keeps 51 bits, so that the frame number must fit in 39.\<close>

lemma table_target:
  assumes "unat (addr e) < 2 ^ 39"
  shows "table_of L e = page_addr L (unat (addr e))"
proof -
  have cast: "(ucast a :: u64) = of_nat (unat a)" for a :: "51 word" by simp
  have "unat (push_bit 12 (addr e)) = unat (addr e) * 4096"
    using assms by (simp add: push_bit_eq_mult unat_word_ariths(2))
  then have "(ucast (push_bit 12 (addr e)) :: u64) = of_nat (unat (addr e) * 4096)"
    by (simp only: cast)
  then show ?thesis by (simp add: table_of_def page_addr_def del: of_nat_mult)
qed

text \<open>The entries of one table, of a directory with its tables, of a pointer table with those.\<close>

primrec free_level :: "limine \<Rightarrow> nat \<Rightarrow> u64 \<Rightarrow> kstate \<Rightarrow> kerror + kstate" where
  "free_level L 0 = (\<lambda>_ s. Inr s)"
| "free_level L (Suc n) = (\<lambda>t. forE 0 512 (free_present L (free_level L n) t))"

definition branch :: "(nat \<Rightarrow> u64) \<Rightarrow> nat \<Rightarrow> nat \<Rightarrow> nat \<Rightarrow> nat set" where
  "branch f n p i = (case child f (512 * p + i) of None \<Rightarrow> {} | Some c \<Rightarrow> reach f n c)"

text \<open>The tables below a page still hold what the processor saw in them.\<close>

definition intact :: "limine \<Rightarrow> (nat \<Rightarrow> u64) \<Rightarrow> (nat \<Rightarrow> nat option) \<Rightarrow> nat set \<Rightarrow> kstate \<Rightarrow> bool" where
  "intact L f D B s \<longleftrightarrow> (\<forall>t \<in> B \<inter> dom D. \<forall>j<512. slots L (mem s) (512 * t + j) = f (512 * t + j))"

lemma intact_released:
  assumes "intact L f D B s" and "pmm_ready L M s" and "released L A s s'" and "B \<subseteq> M"
    and "A \<inter> B \<inter> dom D = {}"
  shows "intact L f D B s'"
  unfolding intact_def
proof (intro ballI allI impI)
  fix t and j :: nat assume t: "t \<in> B \<inter> dom D" and j: "j < 512"
  then have "slots L (mem s') (512 * t + j) = slots L (mem s) (512 * t + j)"
    using assms(4,5) by (intro released_slot [OF assms(2,3)]) auto
  then show "slots L (mem s') (512 * t + j) = f (512 * t + j)" using assms(1) t j by (simp add: intact_def)
qed

lemma intact_subset: "intact L f D B s \<Longrightarrow> A \<subseteq> B \<Longrightarrow> intact L f D A s"
  by (auto simp: intact_def)

text \<open>One level: when the bodies release what is below the entries, the loop over the first
  \<open>m\<close> entries of a table releases all of it.\<close>

lemma free_loop:
  fixes m :: cint
  assumes t: "tree f D r" and p: "D p = Some n" "p \<in> M" "p < 2 ^ 52" "page_addr L p \<noteq> 0"
    and m: "m \<le> 512" and M: "M \<subseteq> {..<2 ^ 39}"
    and below: "\<And>i c. i < unat m \<Longrightarrow> child f (512 * p + i) = Some c \<Longrightarrow> releasable f D M n c"
    and body: "\<And>i c s. i < unat m \<Longrightarrow> child f (512 * p + i) = Some c \<Longrightarrow> pmm_ready L M s \<Longrightarrow>
        intact L f D (reach f n c) s \<Longrightarrow>
        \<exists>s'. bindE (sub (page_addr L c) s) (free_table L (page_addr L c)) = Inr s'
           \<and> released L (reach f n c) s s'"
    and ready: "pmm_ready L M s" and int: "intact L f D (insert p (\<Union>i<unat m. branch f n p i)) s"
  shows "\<exists>s'. forE 0 m (free_present L sub (page_addr L p)) s = Inr s'
    \<and> released L (\<Union>i<unat m. branch f n p i) s s'"
proof (rule forE_total_rule [where P = "\<lambda>k s1. released L (\<Union>i<k. branch f n p i) s s1"])
  show "(0 :: cint) \<le> m" by simp
  show "released L (\<Union>i<unat (0 :: cint). branch f n p i) s s" by simp
next
  fix k :: cint and s1
  assume k: "k < m" and s1: "released L (\<Union>i<unat k. branch f n p i) s s1"
  define i where "i = unat k"
  have i: "i < unat m" "i < 512" "k = of_nat i"
    using k m by (simp_all add: i_def word_less_nat_alt word_le_nat_alt)
  let ?B = "\<Union>j<i. branch f n p j"
  have managed: "branch f n p j \<subseteq> M" if "j < unat m" for j
    using reach_managed [OF below [OF that]] by (cases "child f (512 * p + j)") (auto simp: branch_def)
  then have BM: "?B \<subseteq> M" using i(1) by (intro UN_least) simp
  have ready1: "pmm_ready L M s1" by (rule released_ready [OF ready s1 [folded i_def] BM])
  have pB: "p \<notin> branch f n p j" if "j < unat m" for j
    using reach_not_above [OF p(1) below [OF that]]
    by (cases "child f (512 * p + j)") (auto simp: branch_def)
  have "slots L (mem s1) (512 * p + i) = slots L (mem s) (512 * p + i)"
    using pB i(1) by (intro released_slot [OF ready s1 [folded i_def] p(2) _ i(2)]) auto
  also have "\<dots> = f (512 * p + i)" using int p(1) i(2) by (auto simp: intact_def)
  finally have e: "read_pte (entry_addr (page_addr L p) k) s1 = decode_pte (f (512 * p + i))"
    using read_entry [OF p(3) i(2), of L s1] by (simp add: i(3) entry_addr_slot [OF i(2)])
  have "\<exists>s'. free_present L sub (page_addr L p) k s1 = Inr s' \<and> released L (branch f n p i) s1 s'"
  proof (cases "child f (512 * p + i)")
    case None
    then show ?thesis using e
      by (auto simp: free_present_def child_def branch_def Let_def split: if_splits)
  next
    case (Some c)
    then have c: "present (decode_pte (f (512 * p + i)))" "c = unat (addr (decode_pte (f (512 * p + i))))"
      by (auto simp: child_def Let_def split: if_splits)
    have "?B \<inter> reach f n c \<inter> dom D = {}"
    proof -
      have "reach f n c' \<inter> reach f n c \<inter> dom D = {}"
        if "j < i" "child f (512 * p + j) = Some c'" for j c'
        using reach_tables_disjoint [OF t p(1) _ i(2) _ that(2) below [OF _ that(2)] Some below [OF i(1) Some]]
          that(1) i by simp
      then show ?thesis by (auto simp: branch_def split: option.splits) blast
    qed
    moreover have "intact L f D (reach f n c) s"
      by (rule intact_subset [OF int]) (use Some i(1) in \<open>force simp: branch_def\<close>)
    ultimately have "intact L f D (reach f n c) s1"
      using reach_managed [OF below [OF i(1) Some]]
      by (intro intact_released [OF _ ready s1 [folded i_def]])
    from body [OF i(1) Some ready1 this] show ?thesis
      using c Some e p(4) table_target [of "decode_pte (f (512 * p + i))" L] M
        releasable_page [OF below [OF i(1) Some]]
      by (auto simp: free_present_def branch_def)
  qed
  then obtain s2 where s2: "free_present L sub (page_addr L p) k s1 = Inr s2"
      "released L (branch f n p i) s1 s2" by blast
  have "(\<Union>j<Suc i. branch f n p j) = ?B \<union> branch f n p i" by (auto simp: less_Suc_eq)
  then show "\<exists>s'. free_present L sub (page_addr L p) k s1 = Inr s'
      \<and> released L (\<Union>j<Suc (unat k). branch f n p j) s s'"
    using s2 released_trans [OF s1 [folded i_def] s2(2)] by (simp add: i_def)
qed

text \<open>All levels: a table and everything below it.\<close>

lemma free_tree:
  assumes t: "tree f D r" and fit: "\<And>p. p \<in> dom D \<Longrightarrow> page_addr L p \<noteq> 0" and M: "M \<subseteq> {..<2 ^ 39}"
  shows "releasable f D M n c \<Longrightarrow> pmm_ready L M s \<Longrightarrow> intact L f D (reach f n c) s \<Longrightarrow>
    \<exists>s'. bindE (free_level L n (page_addr L c) s) (free_table L (page_addr L c)) = Inr s'
       \<and> released L (reach f n c) s s'"
proof (induction n arbitrary: c s)
  case 0
  then show ?case using free_table_releases [of L M s c] by simp
next
  case (Suc n)
  have c: "D c = Some n" "c \<in> M" "page_addr L c \<noteq> 0" "c < 2 ^ 52"
    using Suc.prems(1) fit [of c] M by auto
  have below: "releasable f D M n d" if "i < 512" "child f (512 * c + i) = Some d" for i d
    using Suc.prems(1) that by auto
  have R: "reach f (Suc n) c = insert c (\<Union>i<512. branch f n c i)" by (simp add: branch_def)
  have "\<exists>s'. forE 0 512 (free_present L (free_level L n) (page_addr L c)) s = Inr s'
      \<and> released L (\<Union>i<unat (512 :: cint). branch f n c i) s s'"
    using c below Suc.IH Suc.prems(2,3) unfolding R
    by (intro free_loop [OF t, where M = M]) (use M in simp_all)
  then obtain s1 where s1: "free_level L (Suc n) (page_addr L c) s = Inr s1"
      "released L (\<Union>i<512. branch f n c i) s s1" by auto
  have "pmm_ready L M s1"
    using released_ready [OF Suc.prems(2) s1(2)] reach_managed [OF Suc.prems(1)] unfolding R by blast
  then obtain s2 where s2: "free_table L (page_addr L c) s1 = Inr s2" "released L {c} s1 s2"
    using free_table_releases c(2) by blast
  have "(\<Union>i<512. branch f n c i) \<union> {c} = reach f (Suc n) c" unfolding R by blast
  then show ?case using s1(1) s2 released_trans [OF s1(2) s2(2)] by (simp del: reach.simps)
qed

section \<open>The lower half of an address space\<close>

lemma releasable_tree:
  assumes t: "tree f D r" and M: "dom D \<subseteq> M"
  shows "D p = Some n \<Longrightarrow> (\<And>is q. length is = Suc n \<Longrightarrow> set is \<subseteq> {..<512} \<Longrightarrow> walk f p is = Some q
      \<Longrightarrow> q \<in> M \<and> q \<notin> dom D) \<Longrightarrow> releasable f D M (Suc n) p"
proof (induction n arbitrary: p)
  case 0
  have "c \<in> M \<and> c \<notin> dom D" if "i < 512" "child f (512 * p + i) = Some c" for i c
    using 0(2) [of "[i]" c] that by simp
  then show ?case using 0(1) M by auto
next
  case (Suc n)
  have "releasable f D M (Suc n) c" if i: "i < 512" "child f (512 * p + i) = Some c" for i c
  proof (rule Suc.IH)
    show "D c = Some n" by (rule tree_child [OF t Suc.prems(1) i])
    show "q \<in> M \<and> q \<notin> dom D" if "length is = Suc n" "set is \<subseteq> {..<512}" "walk f c is = Some q" for "is" q
      using Suc.prems(2) [of "i # is" q] that i by simp
  qed
  then show ?case using Suc.prems(1) M unfolding releasable.simps(2) [of f D M "Suc n"] by auto
qed

text \<open>An address for every path.\<close>

lemma path_address:
  assumes "length is = 4" and "set is \<subseteq> {..<512}" and "hd is < 256"
  shows "\<exists>va. vpath va = is \<and> unat va < 2 ^ 47"
proof -
  obtain a b c d where abcd: "is = [a, b, c, d]"
    using assms(1) by (auto simp: numeral_eq_Suc length_Suc_conv)
  then have lt: "a < 256" "b < 512" "c < 512" "d < 512" using assms(2,3) by auto
  define ab where "ab = a * 512 + b"
  define abc where "abc = ab * 512 + c"
  define k where "k = (abc * 512 + d) * 4096"
  note ks = k_def abc_def ab_def
  have k: "k < 2 ^ 47" unfolding ks using lt by simp
  then have u: "unat (of_nat k :: u64) = k" by (intro unat_of_nat_64) simp
  have d: "k div 4096 = abc * 512 + d" by (simp add: k_def)
  then have c: "k div 2097152 = abc" using lt(4) div_mult2_eq [of k 4096 512] by simp
  then have b: "k div 1073741824 = ab" using lt(3) div_mult2_eq [of k 2097152 512] by (simp add: abc_def)
  then have a: "k div 549755813888 = a" using lt(2) div_mult2_eq [of k 1073741824 512] by (simp add: ab_def)
  have "abc mod 512 = c" using lt(3) by (simp add: abc_def)
  moreover have "ab mod 512 = b" using lt(2) by (simp add: ab_def)
  moreover have "(abc * 512 + d) mod 512 = d" "a mod 512 = a" using lt(1,4) by simp_all
  moreover note m = calculation
  have "vidx 0 (of_nat k) = d" "vidx 1 (of_nat k) = c" "vidx 2 (of_nat k) = b" "vidx 3 (of_nat k) = a"
    unfolding vidx_def u using a b c d by (simp_all add: m)
  then show ?thesis using k u by (intro exI [of _ "of_nat k"]) (simp add: vpath_def abcd)
qed

lemma address_path: "unat va < 2 ^ 47 \<Longrightarrow> hd (vpath va) < 256"
  by (simp add: vpath_def vidx_def)

text \<open>The tables of the lower half and the frames that are mapped there.\<close>

definition user_tables :: "limine \<Rightarrow> nat \<Rightarrow> kstate \<Rightarrow> nat set" where
  "user_tables L r s = {q. \<exists>va l. unat va < 2 ^ 47 \<and> l \<le> 3 \<and> walk (slots L (mem s)) r (take l (vpath va)) = Some q}"

definition user_frames :: "limine \<Rightarrow> nat \<Rightarrow> kstate \<Rightarrow> nat set" where
  "user_frames L r s = {q. \<exists>va w u x. unat va < 2 ^ 47 \<and> translate L r s va = Some (q, w, u, x)}"

lemma translate_walk:
  assumes "vm_ok L M D r s"
  shows "(\<exists>w u x. translate L r s va = Some (q, w, u, x)) \<longleftrightarrow> walk (slots L (mem s)) r (vpath va) = Some q"
proof -
  let ?f = "slots L (mem s)" and ?up = "[vidx 3 va, vidx 2 va, vidx 1 va]"
  have t: "tree ?f D r" using assms by (simp add: vm_ok_def)
  have "mmu ?f r (?up @ [vidx 0 va])
      = (case walk ?f r ?up of None \<Rightarrow> None | Some p \<Rightarrow> leaf_view (?f (512 * p + vidx 0 va)))"
    using tree_root [OF t] by (intro mmu_walk [OF t]) (simp_all add: vidx_lt)
  then show ?thesis
    unfolding translate_def vpath_split walk_append
    by (auto simp: leaf_view_def child_def Let_def split: option.splits)
qed

text \<open>What the loops reach below the first 256 entries of the root, as paths.\<close>

lemma lower_walk: "q \<in> insert r (\<Union>i<256. branch f 3 r i) \<longleftrightarrow>
    (\<exists>is. length is \<le> 4 \<and> set is \<subseteq> {..<512} \<and> (is \<noteq> [] \<longrightarrow> hd is < 256) \<and> walk f r is = Some q)"
  (is "q \<in> ?B \<longleftrightarrow> _")
proof
  assume "q \<in> ?B"
  then consider "q = r" | i c where "i < 256" "child f (512 * r + i) = Some c" "q \<in> reach f 3 c"
    by (auto simp: branch_def split: option.splits)
  then show "\<exists>is. length is \<le> 4 \<and> set is \<subseteq> {..<512} \<and> (is \<noteq> [] \<longrightarrow> hd is < 256) \<and> walk f r is = Some q"
  proof cases
    case 1
    then show ?thesis by (intro exI [of _ "[]"]) simp
  next
    case 2
    then obtain "is" where "length is \<le> 3" "set is \<subseteq> {..<512}" "walk f c is = Some q"
      unfolding reach_walk by blast
    then show ?thesis using 2 by (intro exI [of _ "i # is"]) simp
  qed
next
  assume "\<exists>is. length is \<le> 4 \<and> set is \<subseteq> {..<512} \<and> (is \<noteq> [] \<longrightarrow> hd is < 256) \<and> walk f r is = Some q"
  then obtain "is" where w: "length is \<le> 4" "set is \<subseteq> {..<512}" "is \<noteq> [] \<longrightarrow> hd is < 256"
      "walk f r is = Some q" by blast
  show "q \<in> ?B"
  proof (cases "is")
    case Nil
    then show ?thesis using w by simp
  next
    case (Cons i js)
    then obtain c where "child f (512 * r + i) = Some c" "walk f c js = Some q"
      using w(4) by (auto split: option.splits)
    then have "q \<in> branch f 3 r i" using w(1,2) Cons by (auto simp: branch_def reach_walk)
    then show ?thesis using w(3) Cons by auto
  qed
qed

text \<open>Both together are what the loops reach below the first 256 entries of the root.\<close>

lemma user_pages:
  assumes "vm_ok L M D r s"
  shows "user_tables L r s \<union> user_frames L r s
    = insert r (\<Union>i<256. branch (slots L (mem s)) 3 r i)" (is "?U = ?B")
proof -
  let ?f = "slots L (mem s)"
  have U: "q \<in> ?U \<longleftrightarrow> (\<exists>va l. unat va < 2 ^ 47 \<and> l \<le> 4 \<and> walk ?f r (take l (vpath va)) = Some q)" for q
  proof -
    have upto: "(\<exists>l\<le>4. P l) \<longleftrightarrow> (\<exists>l\<le>3. P l) \<or> P 4" for P :: "nat \<Rightarrow> bool"
      by (metis Suc_numeral add_num_simps(1,7) le_Suc_eq numeral_3_eq_3 le_refl)
    have "take 4 (vpath va) = vpath va" for va by simp
    then have "q \<in> user_frames L r s
        \<longleftrightarrow> (\<exists>va. unat va < 2 ^ 47 \<and> walk ?f r (take 4 (vpath va)) = Some q)"
      using translate_walk [OF assms, of _ q] by (simp add: user_frames_def)
    then show ?thesis using upto by (auto simp: user_tables_def)
  qed
  have "q \<in> ?U \<longleftrightarrow> q \<in> ?B" for q
    unfolding U lower_walk
  proof
    assume "\<exists>va l. unat va < 2 ^ 47 \<and> l \<le> 4 \<and> walk ?f r (take l (vpath va)) = Some q"
    then obtain va l where va: "unat va < 2 ^ 47" "l \<le> 4" "walk ?f r (take l (vpath va)) = Some q" by blast
    have "set (take l (vpath va)) \<subseteq> {..<512}"
      by (rule subset_trans [OF set_take_subset vpath_ok(2)])
    moreover have "take l (vpath va) \<noteq> [] \<longrightarrow> hd (take l (vpath va)) < 256"
      using address_path [OF va(1)] by (cases l; cases "vpath va") simp_all
    ultimately show "\<exists>is. length is \<le> 4 \<and> set is \<subseteq> {..<512} \<and> (is \<noteq> [] \<longrightarrow> hd is < 256) \<and> walk ?f r is = Some q"
      using va(3) by (intro exI [of _ "take l (vpath va)"]) simp
  next
    assume "\<exists>is. length is \<le> 4 \<and> set is \<subseteq> {..<512} \<and> (is \<noteq> [] \<longrightarrow> hd is < 256) \<and> walk ?f r is = Some q"
    then obtain "is" where w: "length is \<le> 4" "set is \<subseteq> {..<512}" "is \<noteq> [] \<longrightarrow> hd is < 256"
        "walk ?f r is = Some q" by blast
    let ?js = "is @ replicate (4 - length is) 0"
    have "\<exists>va. vpath va = ?js \<and> unat va < 2 ^ 47"
      using w(1,2,3) by (intro path_address) (auto simp: hd_append hd_replicate)
    then obtain va where "vpath va = ?js" "unat va < 2 ^ 47" by blast
    then show "\<exists>va l. unat va < 2 ^ 47 \<and> l \<le> 4 \<and> walk ?f r (take l (vpath va)) = Some q"
      using w(1,4) by (intro exI [of _ va] exI [of _ "length is"]) simp
  qed
  then show ?thesis by blast
qed

section \<open>Destroying an address space\<close>

lemma destroy_levels:
  assumes "pt \<noteq> 0"
  shows "arch_vmm_destroy_pt L pt s
    = bindE (forE 0 256 (free_present L (free_level L 3) pt) s) (free_table L pt)"
proof -
  have "free_present L (free_level L 3) pt = (\<lambda>i s.
       if present (read_pte (entry_addr pt i) s) then
         (let PDP = table_of L (read_pte (entry_addr pt i) s) in
          bindE (forE 0 512 (free_present L (\<lambda>PD. forE 0 512 (free_present L (\<lambda>PT.
                   forE 0 512 (free_present L (\<lambda>_ s. Inr s) PT)) PD)) PDP) s)
            (\<lambda>s. free_table L PDP s))
       else Inr s)"
    using assms by (intro ext) (simp add: free_present_def numeral_3_eq_3)
  then show ?thesis unfolding arch_vmm_destroy_pt_def by simp
qed

lemma destroy_spec:
  assumes ok: "vm_ok L M D r s" and M: "M \<subseteq> {..<2 ^ 39}"
    and fit: "\<And>p. p \<in> dom D \<Longrightarrow> page_addr L p \<noteq> 0"
    and owned: "user_frames L r s \<subseteq> M - dom D"
  shows "\<exists>s'. arch_vmm_destroy_pt L (page_addr L r) s = Inr s'
    \<and> released L (user_tables L r s \<union> user_frames L r s) s s' \<and> pmm_ready L M s'
    \<and> user_tables L r s \<subseteq> dom D"
proof -
  let ?f = "slots L (mem s)"
  have t: "tree ?f D r" and ready: "pmm_ready L M s" and DM: "dom D \<subseteq> M" using ok by (simp_all add: vm_ok_def)
  have r: "D r = Some 3" by (rule tree_root [OF t])
  then have r': "r \<in> M" "r < 2 ^ 52" "page_addr L r \<noteq> 0" using vm_ok_page [OF ok r] fit [of r] by auto
  have below: "releasable ?f D M 3 c" if i: "i < 256" "child ?f (512 * r + i) = Some c" for i c
  proof -
    have "D c = Some 2" using r i by (intro tree_child [OF t, of r 2 i]) simp_all
    moreover have "q \<in> M \<and> q \<notin> dom D"
      if "length is = Suc 2" "set is \<subseteq> {..<512}" "walk ?f c is = Some q" for "is" q
    proof -
      have "length (i # is) = 4" "set (i # is) \<subseteq> {..<512}" "hd (i # is) < 256" using that i by simp_all
      then obtain va where "vpath va = i # is" "unat va < 2 ^ 47" using path_address by blast
      then have "q \<in> user_frames L r s"
        using translate_walk [OF ok, of va q] that(3) i(2) by (auto simp: user_frames_def)
      then show ?thesis using owned by blast
    qed
    ultimately show ?thesis using releasable_tree [OF t DM, of c 2] by (simp add: numeral_3_eq_3)
  qed
  have "\<exists>s1. forE 0 256 (free_present L (free_level L 3) (page_addr L r)) s = Inr s1
      \<and> released L (\<Union>i<unat (256 :: cint). branch ?f 3 r i) s s1"
    using r r' below M free_tree [OF t fit M] ready
    by (intro free_loop [OF t, where M = M]) (simp_all add: intact_def)
  then obtain s1 where s1: "forE 0 256 (free_present L (free_level L 3) (page_addr L r)) s = Inr s1"
      "released L (\<Union>i<256. branch ?f 3 r i) s s1" by auto
  have R: "(\<Union>i<256. branch ?f 3 r i) \<union> {r} = user_tables L r s \<union> user_frames L r s"
    unfolding user_pages [OF ok] by blast
  have "branch ?f 3 r i \<subseteq> M" if "i < 256" for i
    using reach_managed [OF below [OF that]] by (cases "child ?f (512 * r + i)") (auto simp: branch_def)
  then have BM: "(\<Union>i<256. branch ?f 3 r i) \<subseteq> M" by (intro UN_least) simp
  have ready1: "pmm_ready L M s1" by (rule released_ready [OF ready s1(2) BM])
  obtain s2 where s2: "free_table L (page_addr L r) s1 = Inr s2" "released L {r} s1 s2"
    using free_table_releases [OF ready1 r'(1)] by blast
  have "pmm_ready L M s2" by (rule released_ready [OF ready1 s2(2)]) (simp add: r'(1))
  moreover have "user_tables L r s \<subseteq> dom D"
  proof
    fix q assume "q \<in> user_tables L r s"
    then obtain va l where "l \<le> 3" "walk ?f r (take l (vpath va)) = Some q" by (auto simp: user_tables_def)
    moreover have "set (take l (vpath va)) \<subseteq> {..<512}"
      by (rule subset_trans [OF set_take_subset vpath_ok(2)])
    ultimately show "q \<in> dom D" using walk_level [OF t r, of "take l (vpath va)" q] by auto
  qed
  ultimately show ?thesis
    using s1(1) s2(1) released_trans [OF s1(2) s2(2)] unfolding R destroy_levels [OF r'(3)] by simp
qed

section \<open>Frames for an address space\<close>

text \<open>An allocation leaves the tables alone and gives a run of pages that are no tables.\<close>

lemma alloc_for_space:
  assumes ok: "vm_ok L M D r s" and small: "small_request pages" and eq: "pmm_alloc pages s = Inr (a, s')"
  shows "vm_ok L M D r s'" "frames a pages \<subseteq> M - dom D" "translate L r s' = translate L r s"
    "free_pages s' = free_pages s - frames a pages" "npages s' = npages s"
proof -
  have ready: "pmm_ready L M s" and t: "tree (slots L (mem s)) D r" using ok by (simp_all add: vm_ok_def)
  have law: "frames a pages \<subseteq> free_pages s" "free_pages s' = free_pages s - frames a pages" "pmm_ready L M s'"
    using pmm_alloc_law [OF ready small eq] by simp_all
  obtain p where now: "bitmap_now s (\<lambda>q. (p \<le> q \<and> q < p + nat (sint pages)) \<or> page_used s q) s'"
    using pmm_alloc_spec [of pages s] eq small ready by (auto simp: small_request_def pmm_ready_def)
  show n: "npages s' = npages s" by (rule bitmap_now_fields(4) [OF now])
  have "mem s' x = mem s x" if "page_of L x \<in> dom D" for x
    using that ok by (intro bitmap_now_frame [OF now]) (auto simp: vm_ok_def pmm_ready_def)
  then have g: "agree D (slots L (mem s)) (slots L (mem s'))" by (rule slots_agree)
  then show "vm_ok L M D r s'"
    using tree_agree [OF t g] ok law n by (auto simp: vm_ok_def)
  show "frames a pages \<subseteq> M - dom D" using law(1) ok by (auto simp: vm_ok_def pmm_ready_def)
  show "free_pages s' = free_pages s - frames a pages" by (rule law(2))
  show "translate L r s' = translate L r s"
    unfolding translate_def vpath_split using tree_root [OF t]
    by (intro ext mmu_agree [OF t g]) (simp_all add: vidx_lt)
qed

end
