(* ===== verification/Vmm_Spec.thy ===== *)
theory Vmm_Spec
  imports Vmm Teardown Pmm_Spec
begin

text \<open>
  The properties of the page tables and of the virtual memory manager, stated on the
  translations the processor makes: the layout of an entry, what each operation changes, the
  refinement of an abstract page map by sequences of operations, and the address space of the
  kernel after boot.
\<close>

section \<open>An example address space\<close>

text \<open>The machine of \<open>example_limine\<close> after the allocator was initialised and one table was made.\<close>

definition example_space :: "nat \<Rightarrow> kstate \<Rightarrow> bool" where
  "example_space r s \<longleftrightarrow> (\<exists>s0. pmm_init example_limine example_pmm = Inr (0, s0)
     \<and> vmm_new_pt example_limine s0 = Inr (page_addr example_limine r, s))"

lemma example_initial_card: "card (initial_pages example_limine 2 0) = 221"
  unfolding example_initial_pages by (subst card_Un_disjoint) auto

lemma example_space:
  "\<exists>r s. example_space r s \<and> vm_ok example_limine (initial_pages example_limine 2 0) [r \<mapsto> 3] r s
    \<and> (\<forall>va. translate example_limine r s va = None) \<and> card (free_pages s) = 220"
proof -
  obtain s0 where s0: "pmm_init example_limine example_pmm = Inr (0, s0)"
      "free_pages s0 = initial_pages example_limine 2 0"
      "pmm_ready example_limine (initial_pages example_limine 2 0) s0" "npages s0 \<le> 2 ^ 51"
    using example_booted by blast
  note spec = fresh_space [OF s0(3,4)] and c = example_initial_card [folded s0(2)]
  show ?thesis
  proof (cases "vmm_new_pt example_limine s0")
    case (Inl e)
    then show ?thesis using spec c by simp
  next
    case (Inr x)
    then obtain r s where "x = (page_addr example_limine r, s)" "r \<in> free_pages s0"
        "vm_ok example_limine (initial_pages example_limine 2 0) [r \<mapsto> 3] r s"
        "\<forall>va. translate example_limine r s va = None" "free_pages s = free_pages s0 - {r}"
      using spec by (cases x) auto
    then show ?thesis using Inr s0(1) c unfolding example_space_def by (auto simp: card_Diff_singleton)
  qed
qed

lemma all_less_3: "(\<forall>i < 3. P i) \<longleftrightarrow> P 0 \<and> P 1 \<and> P (2 :: nat)"
proof -
  have "i < 3 \<longleftrightarrow> i = 0 \<or> i = 1 \<or> i = 2" for i :: nat by auto
  then show ?thesis by (simp only:) auto
qed

lemma example_small: "small_map example_limine" "direct_map_ok example_limine" "kernel_demand example_limine = 25"
proof -
  have n: "entry_count example_limine = 3" by (simp add: entry_count_def example_limine_def)
  have e: "skip_page_0 (memmap_entry example_limine 0) = \<lparr>entry_base = 0x1000, entry_length = 0x9e000, entry_type = 1\<rparr>"
    "skip_page_0 (memmap_entry example_limine 1) = \<lparr>entry_base = 0xf0000, entry_length = 0x10000, entry_type = 2\<rparr>"
    "skip_page_0 (memmap_entry example_limine 2) = \<lparr>entry_base = 0x100000, entry_length = 0x40000, entry_type = 1\<rparr>"
    by (simp_all add: memmap_entry_def example_limine_def memmap_type_def memmap_type_defs skip_page_0_def)
  have k: "boot_proto_kernel_size example_limine = 0x20000" "boot_proto_hhdm_offset example_limine = 0xffff800000000000"
    by (simp_all add: boot_proto_kernel_size_def boot_proto_hhdm_offset_def example_limine_def)
  have sum3: "(\<Sum>j<3. f j) = f 0 + f 1 + f 2" for f :: "nat \<Rightarrow> nat"
    by (simp add: numeral_3_eq_3 numeral_2_eq_2)
  show "small_map example_limine" unfolding small_map_def n k all_less_3 e by simp
  show "direct_map_ok example_limine" unfolding direct_map_ok_def n k all_less_3 e by simp
  show "kernel_demand example_limine = 25"
    unfolding kernel_demand_def table_demand_def n k sum3 e by (simp add: range_pages_def)
qed

lemma page_of_page_addr: "p < 2 ^ 52 \<Longrightarrow> page_of L (page_addr L p) = p"
  using frames_of_page(1) [of p] by (simp add: page_of_def page_addr_def del: of_nat_mult)

section \<open>Entries\<close>

text \<open>The value of an entry as the Intel manual lays it out: each field at the weight of its lowest bit.\<close>

definition pte_word :: "page_table_entry \<Rightarrow> nat" where
  "pte_word e = of_bool (present e) + of_bool (readWrite e) * 2 + of_bool (userSupervisor e) * 2 ^ 2
     + of_bool (writeThrough e) * 2 ^ 3 + of_bool (cacheDisable e) * 2 ^ 4 + of_bool (accessed e) * 2 ^ 5
     + of_bool (avl0 e) * 2 ^ 6 + of_bool (pageSize e) * 2 ^ 7 + unat (avl1 e) * 2 ^ 8
     + unat (addr e) * 2 ^ 12 + of_bool (nx e) * 2 ^ 63"

lemma of_bool_bit: "of_bool (bit w n) = unat w div 2 ^ n mod 2" for w :: u64
proof -
  have "bit (unat w) n = bit w n" by (simp add: bit_unsigned_iff)
  then have "(of_bool (bit w n) :: nat) = of_bool (bit (unat w) n)" by simp
  also have "\<dots> = unat w div 2 ^ n mod 2" unfolding bit_iff_odd by (rule of_bool_odd_eq_mod_2)
  finally show ?thesis .
qed

lemma field_split: "N div m * m = N div m mod k * m + N div (m * k) * (m * k)" for N m k :: nat
proof -
  have "N div m = N div m div k * k + N div m mod k" by (rule div_mult_mod_eq [symmetric])
  then have "N div m * m = (N div m div k * k + N div m mod k) * m" by (rule arg_cong)
  moreover have "N div (m * k) = N div m div k" by (rule div_mult2_eq)
  ultimately show ?thesis by (simp only: add_mult_distrib mult.assoc mult.commute [of k] add.commute)
qed

lemma pte_word_decode: "pte_word (decode_pte w) = unat w"
proof -
  define q where "q k = unat w div 2 ^ k * 2 ^ k" for k
  define g where "g k l = unat w div 2 ^ k mod 2 ^ l * 2 ^ k" for k l
  have step: "q k = g k l + q (k + l)" for k l
    unfolding q_def g_def power_add by (rule field_split)
  then have next_q: "k + l = m \<Longrightarrow> q k = g k l + q m" for k l m by blast
  have flag: "of_bool (bit w k) * 2 ^ k = g k 1" for k unfolding g_def of_bool_bit by simp
  have "unat (avl1 (decode_pte w)) * 2 ^ 8 = g 8 4" "unat (addr (decode_pte w)) * 2 ^ 12 = g 12 51"
    by (simp_all add: g_def decode_pte_def unsigned_ucast_eq unat_div take_bit_eq_mod drop_bit_eq_div)
  then have "pte_word (decode_pte w)
      = g 0 1 + g 1 1 + g 2 1 + g 3 1 + g 4 1 + g 5 1 + g 6 1 + g 7 1 + g 8 4 + g 12 51 + g 63 1"
    using flag [of 0] flag [of 1] flag [of 2] flag [of 3] flag [of 4] flag [of 5] flag [of 6] flag [of 7] flag [of 63]
    unfolding pte_word_def decode_pte_def page_table_entry.simps by (simp only: power_0 power_one_right mult_1_right)
  moreover have "q 0 = g 0 1 + q 1" "q 1 = g 1 1 + q 2" "q 2 = g 2 1 + q 3" "q 3 = g 3 1 + q 4" "q 4 = g 4 1 + q 5"
    "q 5 = g 5 1 + q 6" "q 6 = g 6 1 + q 7" "q 7 = g 7 1 + q 8" "q 8 = g 8 4 + q 12" "q 12 = g 12 51 + q 63"
    "q 63 = g 63 1 + q 64"
    by (rule next_q; simp)+
  moreover have "unat w < 2 ^ 64" using unsigned_less [of w, where ?'a = nat] by simp
  then have "q 64 = 0" by (simp add: q_def)
  moreover have "q 0 = unat w" by (simp add: q_def)
  ultimately show ?thesis by linarith
qed

text \<open>C35: the bit-fields of an entry are where the processor looks for them: the word of an entry is
  the sum of present (bit 0), writable (1), user (2), write-through (3), cache-disable (4),
  accessed (5), the first available bit (6), page size (7), the four available bits (8 to 11),
  the address from bit 12 to 62 and no-execute (63). Reading back what was written gives
  the same fields, and writing back what was read the same word.\<close>

theorem pte_layout:
  "unat (encode_pte e) = pte_word e \<and> decode_pte (encode_pte e) = e
   \<and> unat w = pte_word (decode_pte w) \<and> encode_pte (decode_pte w) = w"
  using pte_word_decode [of "encode_pte e"] pte_word_decode [of w] by simp

section \<open>The walk of the processor\<close>

text \<open>
  The processor's own walk, on the raw words: bit 0 present, bit 1 writable, bit 2 user, bit 7
  large page, bit 63 no execution, and the frame in bits 12 to 51 (the struct's field goes on to
  bit 62, where the processor ignores it). A large page is a run of frames under an entry of the
  second or third level; at the top the bit is reserved and faults.
\<close>

definition frame_bits :: "u64 \<Rightarrow> nat" where
  "frame_bits w = unat (take_bit 40 (drop_bit 12 w))"

fun cpu_walk :: "(nat \<Rightarrow> u64) \<Rightarrow> nat \<Rightarrow> nat list \<Rightarrow> (nat \<times> bool \<times> bool \<times> bool) option" where
  "cpu_walk f p [] = Some (p, True, True, True)"
| "cpu_walk f p (i # is) =
     (let w = f (512 * p + i) in
      if \<not> bit w 0 then None
      else if bit w 7 \<and> is \<noteq> [] then
        (if length is = 3 then None
         else Some (frame_bits w div 512 ^ length is * 512 ^ length is + foldl (\<lambda>a j. a * 512 + j) 0 is,
                bit w 1, bit w 2, \<not> bit w 63))
      else map_option (\<lambda>(q, rw, us, x). (q, rw \<and> bit w 1, us \<and> bit w 2, x \<and> \<not> bit w 63))
             (cpu_walk f (frame_bits w) is))"

definition canonical :: "u64 \<Rightarrow> bool" where
  "canonical va \<longleftrightarrow> unat va < 2 ^ 47 \<or> 2 ^ 64 - 2 ^ 47 \<le> unat va"

definition cpu_translate :: "limine \<Rightarrow> kstate \<Rightarrow> u64 \<Rightarrow> (nat \<times> bool \<times> bool \<times> bool) option" where
  "cpu_translate L s va =
     (if canonical va then cpu_walk (slots L (mem s)) (frame_bits (cr3 s)) (vpath va) else None)"

lemma frame_bits_div: "frame_bits w = unat w div 4096 mod 2 ^ 40"
  by (simp add: frame_bits_def take_bit_eq_mod unat_mod unat_div drop_bit_eq_div)

lemma frame_bits_addr: "frame_bits w = unat (addr (decode_pte w)) mod 2 ^ 40"
proof -
  have "unat (addr (decode_pte w)) = unat w div 4096 mod 2 ^ 51"
    by (simp add: decode_pte_def unsigned_ucast_eq unat_div take_bit_eq_mod drop_bit_eq_div)
  then show ?thesis by (simp add: frame_bits_div mod_mod_cancel)
qed

lemma cpu_walk_mmu:
  assumes t: "tree f D r" and D: "dom D \<subseteq> {..<2 ^ 40}"
  shows "D p = Some n \<Longrightarrow> length is = Suc n \<Longrightarrow> set is \<subseteq> {..<512} \<Longrightarrow>
    cpu_walk f p is = map_option (\<lambda>(q, v). (q mod 2 ^ 40, v)) (mmu f p is)"
proof (induction "is" arbitrary: p n)
  case Nil
  then show ?case by simp
next
  case (Cons i "is")
  define w where "w = f (512 * p + i)"
  have e: "present (decode_pte w) = bit w 0" "readWrite (decode_pte w) = bit w 1"
      "userSupervisor (decode_pte w) = bit w 2" "pageSize (decode_pte w) = bit w 7" "nx (decode_pte w) = bit w 63"
    by (simp_all add: decode_pte_def)
  show ?case
  proof (cases "bit w 0 \<and> is \<noteq> []")
    case True
    then obtain m where m: "n = Suc m" using Cons.prems(2) by (cases n) auto
    have "link_ok w" using tree_link [OF t, of p m i] Cons.prems(1,3) m by (simp add: w_def)
    moreover have "w \<noteq> 0" using True by auto
    ultimately have small: "\<not> bit w 7" by (simp add: link_ok_def Let_def e)
    have "child f (512 * p + i) = Some (unat (addr (decode_pte w)))"
      using True by (simp add: child_def Let_def w_def [symmetric] e)
    then have c: "D (unat (addr (decode_pte w))) = Some m"
      using tree_child [OF t, of p m i] Cons.prems(1,3) m by simp
    then have "unat (addr (decode_pte w)) < 2 ^ 40" using D by blast
    then have fb: "frame_bits w = unat (addr (decode_pte w))" unfolding frame_bits_addr by simp
    have "cpu_walk f (frame_bits w) is = map_option (\<lambda>(q, v). (q mod 2 ^ 40, v)) (mmu f (frame_bits w) is)"
      unfolding fb using c Cons.prems(2,3) m by (intro Cons.IH) simp_all
    then show ?thesis using True small
      by (simp add: Let_def w_def [symmetric] e fb option.map_comp comp_def split_beta')
  next
    case False
    then show ?thesis
      by (cases "is = []") (simp_all add: Let_def w_def [symmetric] e frame_bits_addr)
  qed
qed

lemma cpu_translate_space:
  assumes t: "tree (slots L (mem s)) D r" and D: "dom D \<subseteq> {..<2 ^ 40}" and cr3: "cr3 s = of_nat (r * 4096)"
  shows "cpu_translate L s va =
    (if canonical va then map_option (\<lambda>(q, v). (q mod 2 ^ 40, v)) (translate L r s va) else None)"
proof -
  have r: "D r = Some 3" by (rule tree_root [OF t])
  then have lt: "r < 2 ^ 40" using D by blast
  then have "unat (of_nat (r * 4096) :: u64) = r * 4096" by (intro unat_of_nat_64) simp
  then have "frame_bits (cr3 s) = r" using lt unfolding cr3 frame_bits_div by simp
  moreover have "length (vpath va) = Suc 3" "set (vpath va) \<subseteq> {..<512}"
    using vidx_lt by (simp_all add: vpath_def)
  ultimately show ?thesis
    unfolding cpu_translate_def translate_def using cpu_walk_mmu [OF t D r] by simp
qed

text \<open>C19: in the address space the kernel switches to, the processor finds for every canonical address
  the frame and the rights the model's walk finds, up to the bits of a frame number above
  physical address \<open>2 ^ 52\<close>, which the entries have room for and the processor ignores; there are no
  large pages on the way.\<close>

theorem switched_space_translates:
  assumes "vm_ok L M D r s" and "M \<subseteq> {..<2 ^ 40}"
  shows "cpu_translate L (vmm_switch L (page_addr L r) s) va =
    (if canonical va then map_option (\<lambda>(q, rights). (q mod 2 ^ 40, rights)) (translate L r s va) else None)"
proof -
  let ?s = "vmm_switch L (page_addr L r) s"
  have s: "mem ?s = mem s" "cr3 ?s = of_nat (r * 4096)"
    by (simp_all add: vmm_switch_def arch_vmm_switch_def page_addr_def)
  have D: "tree (slots L (mem ?s)) D r" "dom D \<subseteq> {..<2 ^ 40}" using assms by (auto simp: vm_ok_def s)
  show ?thesis unfolding cpu_translate_space [OF D s(2)] by (simp add: translate_def s)
qed

theorem switched_space_translates_witness:
  "\<exists>s0 s'. pmm_init example_limine example_pmm = Inr (0, s0) \<and> vmm_init example_limine s0 = Inr (0, s')
     \<and> cpu_translate example_limine s' 0xffffffff80001000 = Some (0x121, True, False, True)
     \<and> cpu_translate example_limine s' 0x800000000000 = None"
proof -
  obtain s0 where s0: "pmm_init example_limine example_pmm = Inr (0, s0)"
      "free_pages s0 = initial_pages example_limine 2 0"
      "pmm_ready example_limine (initial_pages example_limine 2 0) s0" "npages s0 \<le> 2 ^ 51"
    using example_booted by blast
  obtain s' r D where s': "vmm_init example_limine s0 = Inr (0, s')" "cr3 s' = of_nat (r * 4096)"
      "vm_ok example_limine (initial_pages example_limine 2 0) D r s'"
      "\<And>va. translate example_limine r s' va = kernel_view example_limine va"
    using vmm_init_spec [OF s0(3,4) example_small(1)]
    by (cases "vmm_init example_limine s0") (auto simp: s0(2) example_initial_card example_small(3))
  have "vmm_switch example_limine (page_addr example_limine r) s' = s'"
    by (simp add: vmm_switch_def arch_vmm_switch_def page_addr_def s'(2) [symmetric] del: of_nat_mult)
  moreover have M: "initial_pages example_limine 2 0 \<subseteq> {..<2 ^ 40}" unfolding example_initial_pages by auto
  ultimately have cpu: "cpu_translate example_limine s' va =
      (if canonical va then map_option (\<lambda>(q, v). (q mod 2 ^ 40, v)) (kernel_view example_limine va) else None)" for va
    using switched_space_translates [OF s'(3) M, of va] unfolding s'(4) by simp
  have "kernel_view example_limine 0xffffffff80001000 = Some (0x121, True, False, True)"
    by (simp add: kernel_view_def range_view_def range_index_def vpage_def range_pages_def kernel_flag_view
        boot_proto_kernel_virtual_base_def boot_proto_kernel_physical_base_def boot_proto_kernel_size_def example_limine_def)
  then have "cpu_translate example_limine s' 0xffffffff80001000 = Some (0x121, True, False, True)"
     "cpu_translate example_limine s' 0x800000000000 = None"
    unfolding cpu by (simp_all add: canonical_def)
  then show ?thesis using s0(1) s'(1) by blast
qed

section \<open>The operations on an address space\<close>

text \<open>C20: the walk to the entry of an address keeps the tables well formed and changes no
  translation and no memory outside tables, free pages and the bitmap; the entry it returns is
  the one the processor uses for the address. It takes at most three free pages, and fails only
  with the out-of-memory panic when fewer than three are left.\<close>

theorem page_walk_keeps_space:
  assumes "vm_ok L M D r s" and "page_index va = (Pi, PTi, PDi, PDPi)"
  shows "case page_from_index L (page_addr L r) Pi PTi PDi PDPi s of
      Inl e \<Rightarrow> e = Halted (con s @ ''[ FATAL ] Kernel Panic! Out of Memory!'') \<and> card (free_pages s) < 3
    | Inr (a, s') \<Rightarrow> (\<exists>D'. vm_ok L M D' r s' \<and> D \<subseteq>\<^sub>m D' \<and> free_pages s' = free_pages s - dom D')
        \<and> translate L r s' = translate L r s
        \<and> translate L r s va = leaf_view (load64 (mem s') a)
        \<and> (\<forall>x. page_of L x \<notin> dom D \<union> free_pages s \<longrightarrow> \<not> in_rng (bitmap s) (unat (bitmapSize s)) x
              \<longrightarrow> mem s' x = mem s x)
        \<and> card (free_pages s) \<le> card (free_pages s') + 3"
proof -
  have idx: "Pi = of_nat (vidx 0 va)" "PTi = of_nat (vidx 1 va)" "PDi = of_nat (vidx 2 va)"
    "PDPi = of_nat (vidx 3 va)" using assms(2) by (simp_all add: page_index_vidx)
  show ?thesis
    using page_walk_cases [OF assms(1), of va]
  proof (elim disjE exE conjE, goal_cases)
    case (1 e)
    then show ?case by (simp add: idx oom_message_def)
  next
    case (2 p D1 s1)
    have "slots L (mem s1) (512 * p + vidx 0 va) = load64 (mem s1) (slot_addr L (512 * p + vidx 0 va))"
      using slot_bound(1) [OF 2(4) vidx_lt] by (simp add: slots_def)
    moreover have "translate L r s1 = translate L r s" using translate_grows [OF 2(2)] by blast
    ultimately show ?case
      using 2 vm_grows_fields(1,6,7) [OF 2(2)] vm_ext_frame [OF vm_grows_ext [OF 2(2)]]
      by (auto simp: idx intro!: exI [of _ D1])
  qed
qed

theorem page_walk_keeps_space_witness:
  "\<exists>r s a s'. example_space r s
     \<and> page_from_index example_limine (page_addr example_limine r) 1 2 0 0 s = Inr (a, s')
     \<and> leaf_view (load64 (mem s') a) = None"
proof -
  obtain r s where s: "example_space r s"
      "vm_ok example_limine (initial_pages example_limine 2 0) [r \<mapsto> 3] r s"
      "\<And>va. translate example_limine r s va = None" "card (free_pages s) = 220"
    using example_space by blast
  have "page_index 0x401123 = (1, 2, 0, 0)" by (simp add: page_index_vidx vidx_def)
  from page_walk_keeps_space [OF s(2) this] s(3,4)
  obtain a s' where "page_from_index example_limine (page_addr example_limine r) 1 2 0 0 s = Inr (a, s')"
      "leaf_view (load64 (mem s') a) = None"
    by (cases "page_from_index example_limine (page_addr example_limine r) 1 2 0 0 s") auto
  with s(1) show ?thesis by blast
qed

text \<open>C21: mapping a page with three free pages at hand succeeds. The processor then translates
  every address of that virtual page to the given frame with the given rights (or not at all
  when the flags lack \<^verbatim>\<open>VMM_PRESENT\<close>), and every other address as before; memory changes only in
  tables, fresh pages and the bitmap. Frame numbers keep 51 bits.\<close>

theorem vmm_map_translates:
  assumes "vm_ok L M D r s" and "3 \<le> card (free_pages s)"
  shows "\<exists>s' D'. vmm_map L (page_addr L r) pa va flags s = Inr s' \<and> vm_ok L M D' r s'
     \<and> (\<forall>va'. translate L r s' va' =
          (if vpage va' \<noteq> vpage va then translate L r s va'
           else if flags AND VMM_PRESENT = 0 then None
           else Some (unat pa div 4096 mod 2 ^ 51, flags AND VMM_RW \<noteq> 0,
                      flags AND VMM_USER \<noteq> 0, flags AND VMM_EXEC \<noteq> 0)))
     \<and> (\<forall>x. page_of L x \<notin> dom D \<union> free_pages s \<longrightarrow> \<not> in_rng (bitmap s) (unat (bitmapSize s)) x
          \<longrightarrow> mem s' x = mem s x)
     \<and> card (free_pages s) \<le> card (free_pages s') + 3"
proof (cases "arch_vmm_map L (page_addr L r) pa va flags s")
  case (Inl e)
  then show ?thesis using map_spec [OF assms(1), where pa = pa and va = va and flags = flags] assms(2) by simp
next
  case (Inr s')
  then obtain D' where D': "vm_ext L M r D s D' s'"
      "\<forall>va'. translate L r s' va' = (if vpath va' = vpath va
         then flag_view (unat pa div 4096 mod 2 ^ 51) flags else translate L r s va')"
      "card (free_pages s) \<le> card (free_pages s') + 3"
    using map_spec [OF assms(1), where pa = pa and va = va and flags = flags] by (auto split: if_splits)
  show ?thesis
    using Inr D' vm_ext_fields(1) [OF D'(1)] vm_ext_frame [OF D'(1)]
    by (auto simp: vmm_map_def vpath_vpage flag_view_def intro!: exI [of _ D'])
qed

theorem vmm_map_translates_witness:
  "\<exists>r s s'. example_space r s
     \<and> vmm_map example_limine (page_addr example_limine r) 0x200000 0x400000 (VMM_PRESENT OR VMM_RW) s = Inr s'
     \<and> translate example_limine r s' 0x400123 = Some (0x200, True, False, False)
     \<and> translate example_limine r s' 0x401000 = None"
proof -
  obtain r s where s: "example_space r s"
      "vm_ok example_limine (initial_pages example_limine 2 0) [r \<mapsto> 3] r s"
      "\<And>va. translate example_limine r s va = None" "card (free_pages s) = 220"
    using example_space by blast
  have "3 \<le> card (free_pages s)" by (simp add: s(4))
  from vmm_map_translates [OF s(2) this, of "0x200000" "0x400000" "VMM_PRESENT OR VMM_RW"]
  obtain s' where s': "vmm_map example_limine (page_addr example_limine r) 0x200000 0x400000 (VMM_PRESENT OR VMM_RW) s = Inr s'"
      "\<And>va'. translate example_limine r s' va' =
          (if vpage va' \<noteq> vpage 0x400000 then translate example_limine r s va' else Some (0x200, True, False, False))"
    by (auto simp: VMM_PRESENT_def VMM_RW_def VMM_USER_def VMM_EXEC_def)
  have "vpage 0x400123 = 0x400" "vpage 0x400000 = 0x400" "vpage 0x401000 = 0x401" by (simp_all add: vpage_def)
  then have "translate example_limine r s' 0x400123 = Some (0x200, True, False, False)"
    "translate example_limine r s' 0x401000 = None" using s(3) by (simp_all add: s'(2))
  with s(1) s'(1) show ?thesis by blast
qed

text \<open>C24: round trip. Mapping a page that was not translated and unmapping it again succeeds with
  six free pages at hand, and leaves every translation as it was before the mapping.\<close>

theorem vmm_map_unmap_roundtrip:
  assumes "vm_ok L M D r s" and "6 \<le> card (free_pages s)" and "translate L r s va = None"
  shows "\<exists>s' s'' D'. vmm_map L (page_addr L r) pa va flags s = Inr s'
     \<and> vmm_unmap L (page_addr L r) va s' = Inr s'' \<and> vm_ok L M D' r s''
     \<and> translate L r s'' = translate L r s"
proof (cases "arch_vmm_map L (page_addr L r) pa va flags s")
  case (Inl e)
  then show ?thesis using map_spec [OF assms(1), where pa = pa and va = va and flags = flags] assms(2) by simp
next
  case (Inr s1)
  then obtain D1 where D1: "vm_ext L M r D s D1 s1"
      "\<forall>va'. vpath va' \<noteq> vpath va \<longrightarrow> translate L r s1 va' = translate L r s va'"
      "card (free_pages s) \<le> card (free_pages s1) + 3"
    using map_spec [OF assms(1), where pa = pa and va = va and flags = flags] by (auto split: if_splits)
  note ok1 = vm_ext_fields(1) [OF D1(1)]
  have same: "translate L r s va' = None" if "vpath va' = vpath va" for va'
    using that assms(3) by (simp add: translate_def)
  show ?thesis
  proof (cases "arch_vmm_unmap L (page_addr L r) va s1")
    case (Inl e)
    then show ?thesis using unmap_spec [OF ok1, of va] assms(2) D1(3) by simp
  next
    case s2: (Inr s2)
    then obtain D2 where D2: "vm_ext L M r D1 s1 D2 s2"
        "\<forall>va'. translate L r s2 va' = (if vpath va' = vpath va then None else translate L r s1 va')"
      using unmap_spec [OF ok1, of va] by auto
    have "translate L r s2 = translate L r s" using D2(2) D1(2) same by auto
    then show ?thesis
      using Inr s2 vm_ext_fields(1) [OF D2(1)] by (auto simp: vmm_map_def vmm_unmap_def)
  qed
qed

theorem vmm_map_unmap_roundtrip_witness:
  "\<exists>r s s' s''. example_space r s
     \<and> vmm_map example_limine (page_addr example_limine r) 0x200000 0x400000 VMM_PRESENT s = Inr s'
     \<and> vmm_unmap example_limine (page_addr example_limine r) 0x400000 s' = Inr s''
     \<and> translate example_limine r s'' = (\<lambda>va. None)"
proof -
  obtain r s where s: "example_space r s"
      "vm_ok example_limine (initial_pages example_limine 2 0) [r \<mapsto> 3] r s"
      "\<And>va. translate example_limine r s va = None" "card (free_pages s) = 220"
    using example_space by blast
  have "6 \<le> card (free_pages s)" by (simp add: s(4))
  from vmm_map_unmap_roundtrip [OF s(2) this s(3), where va = "0x400000" and pa = "0x200000" and flags = VMM_PRESENT]
  obtain s' s'' where
      "vmm_map example_limine (page_addr example_limine r) 0x200000 0x400000 VMM_PRESENT s = Inr s'"
      "vmm_unmap example_limine (page_addr example_limine r) 0x400000 s' = Inr s''"
      "translate example_limine r s'' = translate example_limine r s" by blast
  moreover have "translate example_limine r s = (\<lambda>va. None)" using s(3) by blast
  ultimately show ?thesis using s(1) by auto
qed

text \<open>C25: destroying an address space releases exactly the tables of its lower half, the root
  included, and the frames mapped there, poisons them, and changes no other memory but the bitmap.
  The frames must be managed pages that hold no tables (a frame under the direct map, as the code
  frees them by address), the direct map must not reach address 0, and memory must end below
  2 PiB, as the shift of the 51-bit frame number drops the bits above.\<close>

theorem vmm_destroy_pt_releases:
  assumes "vm_ok L M D r s" and "npages s \<le> 2 ^ 39" and "\<forall>p \<in> dom D. page_addr L p \<noteq> 0"
    and "user_frames L r s \<subseteq> M - dom D"
  shows "\<exists>s'. vmm_destroy_pt L (page_addr L r) s = Inr s' \<and> pmm_ready L M s'
     \<and> r \<in> user_tables L r s \<and> user_tables L r s \<subseteq> dom D
     \<and> free_pages s' = free_pages s \<union> user_tables L r s \<union> user_frames L r s
     \<and> s' = s\<lparr>mem := mem s'\<rparr>
     \<and> (\<forall>x. \<not> in_rng (bitmap s) (unat (bitmapSize s)) x \<longrightarrow> mem s' x =
          (if page_of L x \<in> user_tables L r s \<union> user_frames L r s then 0xff else mem s x))"
proof -
  have M: "M \<subseteq> {..<2 ^ 39}" using assms(1,2) by (auto simp: vm_ok_def pmm_ready_def)
  obtain s' where s': "arch_vmm_destroy_pt L (page_addr L r) s = Inr s'" "pmm_ready L M s'"
      "released L (user_tables L r s \<union> user_frames L r s) s s'" "user_tables L r s \<subseteq> dom D"
    using destroy_spec [OF assms(1) M _ assms(4)] assms(3) by blast
  have "r \<in> user_tables L r s"
    unfolding user_tables_def by (auto intro!: exI [of _ "0 :: u64"] exI [of _ "0 :: nat"])
  then show ?thesis
    using s'(1,2,4) released_fields(4,5) [OF s'(3)] released_mem [OF s'(3)]
    by (auto simp: vmm_destroy_pt_def Un_assoc)
qed

lemma example_npages:
  assumes "example_space r s"
  shows "npages s \<le> 2 ^ 39"
proof -
  obtain s0 where s0: "pmm_init example_limine example_pmm = Inr (0, s0)"
      "vmm_new_pt example_limine s0 = Inr (page_addr example_limine r, s)"
    using assms by (auto simp: example_space_def)
  have b: "bitmap_bytes example_limine 2 = 40" by (simp add: bitmap_bytes_def example_entries)
  note ok = example_bootable [unfolded pmm_bootable_def b]
  obtain s1 where "pmm_init example_limine example_pmm = Inr (0, s1)"
      "pmm_ready example_limine (free_pages s1) s1" "npages s1 = 8 * 40"
    using pmm_init_ok [of example_limine 2 40 0 example_pmm] ok b by metis
  then have n: "npages s0 = 320" "pmm_ready example_limine (free_pages s0) s0" using s0(1) by simp_all
  have "npages s0 \<le> 2 ^ 51" by (simp add: n(1))
  then have "\<exists>m. s = s0\<lparr>mem := m\<rparr>" using fresh_space [OF n(2)] s0(2) by auto
  then have "npages s = npages s0" by (auto simp: npages_def)
  then show ?thesis by (simp add: n(1))
qed

text \<open>One frame, allocated and mapped for user code.\<close>

lemma example_one_page:
  "\<exists>r s q s1 s2 D. example_space r s \<and> pmm_alloc 1 s = Inr (of_nat (q * 4096), s1)
     \<and> vmm_map example_limine (page_addr example_limine r) (of_nat (q * 4096)) 0x400000
         (VMM_PRESENT OR VMM_USER) s1 = Inr s2
     \<and> vm_ok example_limine (initial_pages example_limine 2 0) D r s2 \<and> npages s2 \<le> 2 ^ 39
     \<and> (\<forall>p \<in> dom D. page_addr example_limine p \<noteq> 0)
     \<and> user_frames example_limine r s2 \<subseteq> initial_pages example_limine 2 0 - dom D
     \<and> q \<in> user_frames example_limine r s2 \<and> q \<notin> free_pages s2"
proof -
  let ?L = example_limine and ?M = "initial_pages example_limine 2 0"
  obtain r s where s: "example_space r s" "vm_ok ?L ?M [r \<mapsto> 3] r s" "\<And>va. translate ?L r s va = None"
      "card (free_pages s) = 220"
    using example_space by blast
  have ready: "pmm_ready ?L ?M s" using s(2) by (simp add: vm_ok_def)
  obtain q s1 where q: "pmm_alloc 1 s = Inr (of_nat (q * 4096), s1)" "q < 2 ^ 51"
  proof (cases "pmm_alloc 1 s")
    case (Inl e)
    then have "\<forall>b. \<not> free_run s b 1" using pmm_alloc_spec [of 1 s] ready by (simp add: pmm_ready_def)
    then have "free_pages s = {}" by (auto simp: free_run_def)
    then show thesis using s(4) by simp
  next
    case (Inr x)
    obtain a s1 where x: "x = (a, s1)" by (cases x)
    obtain p where p: "a = of_nat (p * 4096)" "p + 1 \<le> npages s"
      using pmm_alloc_spec [of 1 s] ready Inr x by (auto simp: pmm_ready_def simp del: of_nat_mult)
    have "p < 2 ^ 51" using p(2) s(2) by (simp add: vm_ok_def)
    then show thesis using that [of p s1] Inr x p(1) by simp
  qed
  have fr: "frames (of_nat (q * 4096)) 1 = {q}" using frames_of_page(3) [of q 1] q(2) by simp
  note a = alloc_for_space [OF s(2) small_request_1 q(1), unfolded fr]
  have qf: "q \<noteq> r" "q \<in> ?M" "q \<notin> free_pages s1" using a(2,4) by auto
  have room: "3 \<le> card (free_pages s1)" using s(4) by (simp add: a(4) card_Diff_singleton_if)
  let ?flags = "VMM_PRESENT OR VMM_USER"
  obtain s2 D2 where s2: "arch_vmm_map ?L (page_addr ?L r) (of_nat (q * 4096)) 0x400000 ?flags s1 = Inr s2"
      "vm_ext ?L ?M r [r \<mapsto> 3] s1 D2 s2"
      and tr: "\<And>va. translate ?L r s2 va = (if vpath va = vpath 0x400000
        then flag_view (unat (of_nat (q * 4096) :: u64) div 4096 mod 2 ^ 51) ?flags else None)"
    using map_spec [OF a(1), where pa = "of_nat (q * 4096)" and va = "0x400000" and flags = ?flags] room s(3) a(3)
    by (cases "arch_vmm_map ?L (page_addr ?L r) (of_nat (q * 4096)) 0x400000 ?flags s1") auto
  note e = vm_ext_fields [OF s2(2)]
  have "unat (of_nat (q * 4096) :: u64) = q * 4096" using q(2) by (intro frames_of_page(1)) simp
  then have owned: "user_frames ?L r s2 \<subseteq> {q}"
    using q(2) by (auto simp: user_frames_def tr flag_view_def split: if_splits)
  have managed: "p \<in> ?M" if "p \<in> dom D2" for p using e(1) that by (auto simp: vm_ok_def)
  have nz: "page_addr ?L p \<noteq> 0" if "p \<in> dom D2" for p
  proof
    assume "page_addr ?L p = 0"
    moreover have "p < 0x140" using managed [OF that] unfolding example_initial_pages by auto
    ultimately have "page_of ?L 0 = p" using page_of_page_addr [of p ?L] by simp
    then show False using \<open>p < 0x140\<close>
      by (simp add: page_of_def boot_proto_hhdm_offset_def example_limine_def)
  qed
  have "q \<notin> dom D2" using e(8) qf(1,3) by auto
  then have "user_frames ?L r s2 \<subseteq> ?M - dom D2" using owned qf(2) by blast
  moreover have n: "npages s2 \<le> 2 ^ 39" using example_npages [OF s(1)] e(5) a(5) by simp
  moreover have "translate ?L r s2 0x400000 = Some (q, False, True, False)"
    using q(2) \<open>unat (of_nat (q * 4096) :: u64) = q * 4096\<close>
    by (simp add: tr flag_view_def VMM_PRESENT_def VMM_RW_def VMM_USER_def VMM_EXEC_def)
  then have "q \<in> user_frames ?L r s2"
    unfolding user_frames_def by (auto intro!: exI [of _ "0x400000 :: u64"])
  moreover have "q \<notin> free_pages s2" using e(7) qf(3) by blast
  ultimately show ?thesis using s(1) q(1) s2(1) e(1) nz unfolding vmm_map_def by blast
qed

theorem vmm_destroy_pt_releases_witness:
  "\<exists>r s q s1 s2 s3. example_space r s \<and> pmm_alloc 1 s = Inr (of_nat (q * 4096), s1)
     \<and> vmm_map example_limine (page_addr example_limine r) (of_nat (q * 4096)) 0x400000
         (VMM_PRESENT OR VMM_USER) s1 = Inr s2
     \<and> vmm_destroy_pt example_limine (page_addr example_limine r) s2 = Inr s3
     \<and> q \<notin> free_pages s2 \<and> r \<notin> free_pages s2 \<and> {q, r} \<subseteq> free_pages s3
     \<and> mem s3 (page_addr example_limine r) = 0xff"
proof -
  let ?L = example_limine and ?M = "initial_pages example_limine 2 0"
  obtain r s q s1 s2 D where s: "example_space r s" "pmm_alloc 1 s = Inr (of_nat (q * 4096), s1)"
      "vmm_map ?L (page_addr ?L r) (of_nat (q * 4096)) 0x400000 (VMM_PRESENT OR VMM_USER) s1 = Inr s2"
      and ok: "vm_ok ?L ?M D r s2" "npages s2 \<le> 2 ^ 39" "\<forall>p \<in> dom D. page_addr ?L p \<noteq> 0"
        "user_frames ?L r s2 \<subseteq> ?M - dom D"
      and q: "q \<in> user_frames ?L r s2" "q \<notin> free_pages s2"
    using example_one_page by blast
  obtain s3 where s3: "vmm_destroy_pt ?L (page_addr ?L r) s2 = Inr s3"
      "r \<in> user_tables ?L r s2" "user_tables ?L r s2 \<subseteq> dom D"
      "free_pages s3 = free_pages s2 \<union> user_tables ?L r s2 \<union> user_frames ?L r s2"
      and m: "\<forall>x. \<not> in_rng (bitmap s2) (unat (bitmapSize s2)) x \<longrightarrow> mem s3 x =
          (if page_of ?L x \<in> user_tables ?L r s2 \<union> user_frames ?L r s2 then 0xff else mem s2 x)"
    using vmm_destroy_pt_releases [OF ok] by blast
  have "r \<in> dom D" using s3(2,3) by blast
  then have r: "r \<in> ?M" "r \<notin> free_pages s2" "r < 2 ^ 52" using vm_ok_page [OF ok(1)] by auto
  have p: "page_of ?L (page_addr ?L r) = r" by (rule page_of_page_addr [OF r(3)])
  then have out: "\<not> in_rng (bitmap s2) (unat (bitmapSize s2)) (page_addr ?L r)"
    using ok(1) r(1) by (auto simp: vm_ok_def pmm_ready_def)
  have "mem s3 (page_addr ?L r) = 0xff"
    using spec [OF m, of "page_addr ?L r"] out s3(2) p by simp
  then show ?thesis using s s3(1,2,4) q r(2) by blast
qed

section \<open>The abstract page map\<close>

text \<open>
  The specification: an address space is a function from virtual addresses to translations. A
  mapping replaces the translation of one page, a range replaces those of its pages one after the
  other. A change of the rights keeps the frame of a translated page; on a page that is not
  translated the frame it exposes is not specified.
\<close>

datatype vm_op =
  Op_map u64 u64 cint
| Op_unmap u64
| Op_flags u64 cint
| Op_range u64 u64 u64 cint

type_synonym page_map = "u64 \<Rightarrow> (nat \<times> bool \<times> bool \<times> bool) option"

definition remap :: "u64 \<Rightarrow> (nat \<times> bool \<times> bool \<times> bool) option \<Rightarrow> page_map \<Rightarrow> page_map" where
  "remap va v T va' = (if vpage va' = vpage va then v else T va')"

inductive map_step :: "vm_op \<Rightarrow> page_map \<Rightarrow> page_map \<Rightarrow> bool" where
  map_page: "map_step (Op_map pa va flags) T (remap va (flag_view (unat pa div 4096 mod 2 ^ 51) flags) T)"
| unmap_page: "map_step (Op_unmap va) T (remap va None T)"
| flags_mapped: "T va = Some (frame, w, u, x) \<Longrightarrow>
    map_step (Op_flags va flags) T (remap va (flag_view frame flags) T)"
| flags_unmapped: "T va = None \<Longrightarrow> map_step (Op_flags va flags) T (remap va (flag_view frame flags) T)"
| map_pages: "map_step (Op_range pa va sz flags) T (range_view pa va (range_pages sz) flags T)"

inductive map_steps :: "vm_op list \<Rightarrow> page_map \<Rightarrow> page_map \<Rightarrow> bool" where
  no_step: "map_steps [] T T"
| more_steps: "map_step op T T' \<Longrightarrow> map_steps ops T' T'' \<Longrightarrow> map_steps (op # ops) T T''"

inductive_cases map_steps_Cons: "map_steps (op # ops) T T''"

text \<open>The implementation, on the page table whose root is given.\<close>

primrec vm_exec :: "limine \<Rightarrow> u64 \<Rightarrow> vm_op \<Rightarrow> kstate \<Rightarrow> kerror + kstate" where
  "vm_exec L pt (Op_map pa va flags) s = vmm_map L pt pa va flags s"
| "vm_exec L pt (Op_unmap va) s = vmm_unmap L pt va s"
| "vm_exec L pt (Op_flags va flags) s = vmm_set_flags L pt va flags s"
| "vm_exec L pt (Op_range pa va sz flags) s = vmm_map_range L pt pa va sz flags s"

primrec vm_execs :: "limine \<Rightarrow> u64 \<Rightarrow> vm_op list \<Rightarrow> kstate \<Rightarrow> kerror + kstate" where
  "vm_execs L pt [] s = Inr s"
| "vm_execs L pt (op # ops) s = bindE (vm_exec L pt op s) (vm_execs L pt ops)"

text \<open>The free pages an operation may need, and the ranges it is specified for.\<close>

primrec op_demand :: "vm_op \<Rightarrow> nat" where
  "op_demand (Op_map pa va flags) = 3"
| "op_demand (Op_unmap va) = 3"
| "op_demand (Op_flags va flags) = 3"
| "op_demand (Op_range pa va sz flags) = 3 * (range_pages sz div 512 + 2)"

primrec op_ok :: "vm_op \<Rightarrow> bool" where
  "op_ok (Op_map pa va flags) = True"
| "op_ok (Op_unmap va) = True"
| "op_ok (Op_flags va flags) = True"
| "op_ok (Op_range pa va sz flags) = (unat sz \<le> 2 ^ 48)"

lemma remap_eq: "(\<forall>va'. T' va' = (if vpath va' = vpath va then v else T va')) \<Longrightarrow> T' = remap va v T"
  by (auto simp: remap_def vpath_vpage)

lemma vm_exec_step:
  assumes ok: "vm_ok L M D r s" and op: "op_ok op"
  shows "case vm_exec L (page_addr L r) op s of
      Inl e \<Rightarrow> oom_error s e \<and> card (free_pages s) < op_demand op
    | Inr s' \<Rightarrow> \<exists>D'. vm_ext L M r D s D' s' \<and> map_step op (translate L r s) (translate L r s')
        \<and> card (free_pages s) \<le> card (free_pages s') + op_demand op"
proof (cases op)
  case (Op_map pa va flags)
  note spec = map_spec [OF ok, where pa = pa and va = va and flags = flags]
  show ?thesis
  proof (cases "arch_vmm_map L (page_addr L r) pa va flags s")
    case (Inl e)
    then show ?thesis using spec Op_map by (simp add: vmm_map_def)
  next
    case (Inr s')
    then obtain D' where D': "vm_ext L M r D s D' s'"
        "\<forall>va'. translate L r s' va' = (if vpath va' = vpath va
          then flag_view (unat pa div 4096 mod 2 ^ 51) flags else translate L r s va')"
        "card (free_pages s) \<le> card (free_pages s') + 3"
      using spec by (auto split: if_splits)
    have "map_step op (translate L r s) (translate L r s')"
      unfolding Op_map remap_eq [OF D'(2)] by (rule map_page)
    then show ?thesis using Op_map Inr D'(1,3) by (auto simp: vmm_map_def)
  qed
next
  case (Op_unmap va)
  then show ?thesis
    using unmap_spec [OF ok, of va]
    by (auto simp: vmm_unmap_def split: sum.splits dest!: remap_eq intro: unmap_page)
next
  case (Op_range pa va sz flags)
  then have eq: "T' = range_view pa va (range_pages sz) flags (translate L r s)"
    if "\<forall>va'. T' va' = range_view pa va (range_pages sz) flags (translate L r s) va'" for T'
    using that by blast
  have "unat sz \<le> 2 ^ 48" using Op_range op by simp
  from map_range_spec [OF ok this, of pa va flags] show ?thesis
    unfolding Op_range by (auto split: sum.splits dest!: eq intro: map_pages)
next
  case (Op_flags va flags)
  show ?thesis
  proof (cases "arch_vmm_set_flags L (page_addr L r) va flags s")
    case (Inl e)
    then show ?thesis using set_flags_spec [OF ok, of va flags] Op_flags by (simp add: vmm_set_flags_def)
  next
    case (Inr s')
    then obtain D' frame where D': "vm_ext L M r D s D' s'"
        "\<forall>fr w u x. translate L r s va = Some (fr, w, u, x) \<longrightarrow> frame = fr"
        "translate L r s' = remap va (flag_view frame flags) (translate L r s)"
        "card (free_pages s) \<le> card (free_pages s') + 3"
      using set_flags_spec [OF ok, of va flags] by (auto dest!: remap_eq)
    have "map_step op (translate L r s) (translate L r s')"
    proof (cases "translate L r s va")
      case None
      then show ?thesis unfolding Op_flags D'(3) by (rule flags_unmapped)
    next
      case (Some v)
      then show ?thesis unfolding Op_flags D'(3) using D'(2) by (cases v) (auto intro: flags_mapped)
    qed
    then show ?thesis using Op_flags Inr D'(1,4) by (auto simp: vmm_set_flags_def)
  qed
qed

lemma vm_execs_steps:
  "vm_ok L M D r s \<Longrightarrow> list_all op_ok ops \<Longrightarrow>
   case vm_execs L (page_addr L r) ops s of
      Inl e \<Rightarrow> oom_error s e \<and> card (free_pages s) < sum_list (map op_demand ops)
    | Inr s' \<Rightarrow> \<exists>D'. vm_ext L M r D s D' s' \<and> map_steps ops (translate L r s) (translate L r s')"
proof (induction ops arbitrary: D s)
  case Nil
  then show ?case using vm_ext_refl [OF Nil.prems(1)] no_step by auto
next
  case (Cons op ops)
  have op: "op_ok op" "list_all op_ok ops" using Cons.prems(2) by simp_all
  note step = vm_exec_step [OF Cons.prems(1) op(1)]
  show ?case
  proof (cases "vm_exec L (page_addr L r) op s")
    case (Inl e)
    then show ?thesis using step by simp
  next
    case (Inr s1)
    then obtain D1 where D1: "vm_ext L M r D s D1 s1" "map_step op (translate L r s) (translate L r s1)"
        "card (free_pages s) \<le> card (free_pages s1) + op_demand op"
      using step by auto
    note IH = Cons.IH [OF vm_ext_fields(1) [OF D1(1)] op(2)]
    show ?thesis
      using IH D1 vm_ext_fields(4) [OF D1(1)] vm_ext_trans [OF D1(1)] Inr more_steps [OF D1(2)]
      by (cases "vm_execs L (page_addr L r) ops s1") (fastforce simp: oom_error_def)+
  qed
qed

text \<open>C7: refinement. Every sequence of mappings, unmappings, changes of rights and range mappings
  on a well-formed address space runs as the abstract page map allows: what the processor sees
  before and after is related by the specification's steps, and the address space is well formed
  again. With enough free pages (three for a page, and three for every 512 pages of a range and
  six more) the sequence succeeds; otherwise it may only stop with the out-of-memory panic.\<close>

theorem address_space_refines:
  assumes "vm_ok L M D r s" and "list_all op_ok ops"
  shows "case vm_execs L (page_addr L r) ops s of
      Inl e \<Rightarrow> e = Halted (con s @ ''[ FATAL ] Kernel Panic! Out of Memory!'')
        \<and> card (free_pages s) < sum_list (map op_demand ops)
    | Inr s' \<Rightarrow> (\<exists>D'. vm_ok L M D' r s') \<and> map_steps ops (translate L r s) (translate L r s')"
  using vm_execs_steps [OF assms]
  by (cases "vm_execs L (page_addr L r) ops s")
    (auto simp: oom_error_def oom_message_def dest: vm_ext_fields(1))

theorem address_space_refines_witness:
  "\<exists>r s s'. example_space r s
     \<and> vm_execs example_limine (page_addr example_limine r)
         [Op_range 0x100000 0x400000 0x3000 VMM_PRESENT, Op_unmap 0x401000] s = Inr s'
     \<and> translate example_limine r s' 0x400fff = Some (0x100, False, False, False)
     \<and> translate example_limine r s' 0x401000 = None
     \<and> translate example_limine r s' 0x402008 = Some (0x102, False, False, False)"
proof -
  let ?ops = "[Op_range 0x100000 0x400000 0x3000 VMM_PRESENT, Op_unmap 0x401000]"
  obtain r s where s: "example_space r s"
      "vm_ok example_limine (initial_pages example_limine 2 0) [r \<mapsto> 3] r s"
      "\<And>va. translate example_limine r s va = None" "card (free_pages s) = 220"
    using example_space by blast
  have ops: "list_all op_ok ?ops" by simp
  have demand: "sum_list (map op_demand ?ops) = 9" by (simp add: range_pages_def)
  obtain s' where s': "vm_execs example_limine (page_addr example_limine r) ?ops s = Inr s'"
      "map_steps ?ops (translate example_limine r s) (translate example_limine r s')"
    using address_space_refines [OF s(2) ops, unfolded demand s(4)]
    by (cases "vm_execs example_limine (page_addr example_limine r) ?ops s") auto
  have "translate example_limine r s' = remap 0x401000 None
     (range_view 0x100000 0x400000 3 VMM_PRESENT (translate example_limine r s))"
    using s'(2) by (auto elim!: map_steps_Cons map_step.cases map_steps.cases simp: range_pages_def)
  moreover have "vpage 0x400fff = 0x400" "vpage 0x401000 = 0x401" "vpage 0x402008 = 0x402"
    "range_index 0x400000 0x400fff = 0" "range_index 0x400000 0x402008 = 2"
    by (simp_all add: vpage_def range_index_def)
  ultimately have "translate example_limine r s' 0x400fff = Some (0x100, False, False, False)"
     "translate example_limine r s' 0x401000 = None"
     "translate example_limine r s' 0x402008 = Some (0x102, False, False, False)"
    by (simp_all add: remap_def range_view_def flag_view_def VMM_PRESENT_def VMM_RW_def VMM_USER_def VMM_EXEC_def)
  with s(1) s'(1) show ?thesis by blast
qed

text \<open>C23: changing the rights of a translated page keeps its frame, gives it exactly the rights of
  the flags (or removes it when they lack \<^verbatim>\<open>VMM_PRESENT\<close>) and changes no other translation; it
  needs no memory at all, since the tables are there.\<close>

theorem vmm_set_flags_keeps_frame:
  assumes "vm_ok L M D r s" and "translate L r s va = Some (frame, w, u, x)"
  shows "\<exists>s'. vmm_set_flags L (page_addr L r) va flags s = Inr s' \<and> vm_ok L M D r s'
     \<and> free_pages s' = free_pages s
     \<and> (\<forall>va'. translate L r s' va' =
          (if vpage va' \<noteq> vpage va then translate L r s va'
           else if flags AND VMM_PRESENT = 0 then None
           else Some (frame, flags AND VMM_RW \<noteq> 0, flags AND VMM_USER \<noteq> 0, flags AND VMM_EXEC \<noteq> 0)))"
proof -
  have t: "tree (slots L (mem s)) D r" using assms(1) by (simp add: vm_ok_def)
  obtain p where p: "walk (slots L (mem s)) r [vidx 3 va, vidx 2 va, vidx 1 va] = Some p"
      "leaf_view (slots L (mem s) (512 * p + vidx 0 va)) = Some (frame, w, u, x)"
    using assms(2) mmu_walk [OF t, of r "[vidx 3 va, vidx 2 va, vidx 1 va]" "vidx 0 va"] tree_root [OF t]
    unfolding translate_def vpath_split by (auto simp: vidx_lt split: option.splits)
  let ?e = "decode_pte (slots L (mem s) (512 * p + vidx 0 va))"
  let ?s' = "write_pte (slot_addr L (512 * p + vidx 0 va)) (set_flags_entry flags ?e) s"
  note pfi = page_from_index_present [OF assms(1) p(1)]
  note lt = vm_ok_page(4) [OF assms(1) pfi(2)]
  have run: "vmm_set_flags L (page_addr L r) va flags s = Inr ?s'"
    using pfi(1) read_entry [OF lt vidx_lt, of L 0 va s]
    by (simp add: vmm_set_flags_def arch_vmm_set_flags_def page_index_vidx set_flags_entry_def)
  note wl = write_leaf [OF assms(1) pfi(2) p(1) refl, where e = "set_flags_entry flags ?e"]
  have "unat (addr ?e) = frame" using p(2) by (auto simp: leaf_view_def Let_def split: if_splits)
  then have "translate L r ?s' va' = (if vpage va' \<noteq> vpage va then translate L r s va'
           else if flags AND VMM_PRESENT = 0 then None
           else Some (frame, flags AND VMM_RW \<noteq> 0, flags AND VMM_USER \<noteq> 0, flags AND VMM_EXEC \<noteq> 0))" for va'
    using wl(3) leaf_view_set_flags [of flags ?e] by (simp add: vpath_vpage flag_view_def)
  moreover have "free_pages ?s' = free_pages s"
    using vm_ext_fields(7) [OF wl(1)] assms(1) by (auto simp: vm_ok_def)
  ultimately show ?thesis using run vm_ext_fields(1) [OF wl(1)] by auto
qed

theorem vmm_set_flags_keeps_frame_witness:
  "\<exists>r s s1 s2. example_space r s
     \<and> vmm_map example_limine (page_addr example_limine r) 0x200000 0x400000 VMM_PRESENT s = Inr s1
     \<and> vmm_set_flags example_limine (page_addr example_limine r) 0x400000 (VMM_PRESENT OR VMM_USER) s1 = Inr s2
     \<and> translate example_limine r s2 0x400008 = Some (0x200, False, True, False)"
proof -
  obtain r s where s: "example_space r s"
      "vm_ok example_limine (initial_pages example_limine 2 0) [r \<mapsto> 3] r s" "card (free_pages s) = 220"
    using example_space by blast
  obtain s1 D1 where run: "vmm_map example_limine (page_addr example_limine r) 0x200000 0x400000 VMM_PRESENT s = Inr s1"
      "vm_ext example_limine (initial_pages example_limine 2 0) r [r \<mapsto> 3] s D1 s1"
      "\<forall>va'. translate example_limine r s1 va' = (if vpath va' = vpath 0x400000
         then flag_view (unat (0x200000 :: u64) div 4096 mod 2 ^ 51) VMM_PRESENT else translate example_limine r s va')"
    using map_spec [OF s(2), where pa = "0x200000" and va = "0x400000" and flags = VMM_PRESENT] s(3)
    by (cases "arch_vmm_map example_limine (page_addr example_limine r) 0x200000 0x400000 VMM_PRESENT s")
      (auto simp: vmm_map_def)
  have "translate example_limine r s1 0x400000 = Some (0x200, False, False, False)"
    using run(3) by (simp add: flag_view_def VMM_PRESENT_def VMM_RW_def VMM_USER_def VMM_EXEC_def)
  note s1 = run(1) vm_ext_fields(1) [OF run(2)] this
  obtain s2 where s2: "vmm_set_flags example_limine (page_addr example_limine r) 0x400000 (VMM_PRESENT OR VMM_USER) s1 = Inr s2"
      "\<And>va'. translate example_limine r s2 va' =
          (if vpage va' \<noteq> vpage 0x400000 then translate example_limine r s1 va' else Some (0x200, False, True, False))"
    using vmm_set_flags_keeps_frame [OF s1(2,3), of "VMM_PRESENT OR VMM_USER"]
    by (auto simp: VMM_PRESENT_def VMM_RW_def VMM_USER_def VMM_EXEC_def)
  have "vpage 0x400008 = vpage 0x400000" by (simp add: vpage_def)
  then have "translate example_limine r s2 0x400008 = Some (0x200, False, True, False)" by (simp add: s2(2))
  with s(1) s1(1) s2(1) show ?thesis by blast
qed

text \<open>C22: mapping a range needs few tables. With three free pages for every 512 pages of the range
  and six more the loop ends and succeeds, and the \<open>k\<close>-th page of the range is translated to the
  \<open>k\<close>-th frame, a last page that the range only begins included; every page outside the range is
  translated as before.\<close>

theorem vmm_map_range_maps:
  assumes "vm_ok L M D r s" and "unat sz \<le> 2 ^ 48"
    and "3 * ((unat sz + 4095) div 4096 div 512 + 2) \<le> card (free_pages s)"
  shows "\<exists>s' D'. vmm_map_range L (page_addr L r) pa virt sz flags s = Inr s' \<and> vm_ok L M D' r s'
     \<and> (\<forall>k < (unat sz + 4095) div 4096. translate L r s' (virt + of_nat k * PAGE_SIZE) =
          (if flags AND VMM_PRESENT = 0 then None
           else Some ((unat pa div 4096 + k) mod 2 ^ 51, flags AND VMM_RW \<noteq> 0,
                      flags AND VMM_USER \<noteq> 0, flags AND VMM_EXEC \<noteq> 0)))
     \<and> (\<forall>va. (\<forall>k < (unat sz + 4095) div 4096. vpage va \<noteq> (vpage virt + k) mod 2 ^ 36) \<longrightarrow>
          translate L r s' va = translate L r s va)"
proof (cases "vmm_map_range L (page_addr L r) pa virt sz flags s")
  case (Inl e)
  then show ?thesis
    using map_range_spec [OF assms(1,2), of pa virt flags] assms(3) by (simp add: range_pages_def)
next
  case (Inr s')
  let ?n = "range_pages sz"
  obtain D' where D': "vm_ext L M r D s D' s'"
      "\<And>va. translate L r s' va = range_view pa virt ?n flags (translate L r s) va"
    using map_range_spec [OF assms(1,2), of pa virt flags] Inr by auto
  have n: "?n \<le> 2 ^ 36" using assms(2) by (simp add: range_pages_def)
  have "translate L r s' (virt + of_nat k * PAGE_SIZE) =
      (if flags AND VMM_PRESENT = 0 then None
       else Some ((unat pa div 4096 + k) mod 2 ^ 51, flags AND VMM_RW \<noteq> 0,
                  flags AND VMM_USER \<noteq> 0, flags AND VMM_EXEC \<noteq> 0))" if "k < ?n" for k
    using range_index_eq [of k "virt + of_nat k * PAGE_SIZE" virt] that n
    by (simp add: D'(2) range_view_def flag_view_def)
  moreover have "translate L r s' va = translate L r s va"
    if out: "\<forall>k < ?n. vpage va \<noteq> (vpage virt + k) mod 2 ^ 36" for va
  proof -
    have "range_index virt va < 2 ^ 36" by (simp add: range_index_def)
    then have "vpage va = (vpage virt + range_index virt va) mod 2 ^ 36"
      using range_index_eq [of "range_index virt va" va virt] unfolding vpath_vpage vpage_stride by simp
    then have "\<not> range_index virt va < ?n" using out by blast
    then show ?thesis by (simp add: D'(2) range_view_def)
  qed
  ultimately show ?thesis
    using Inr vm_ext_fields(1) [OF D'(1)] unfolding range_pages_def by blast
qed

theorem vmm_map_range_maps_witness:
  "\<exists>r s s'. example_space r s
     \<and> vmm_map_range example_limine (page_addr example_limine r) 0x100000 0x400000 0x1001 VMM_PRESENT s = Inr s'
     \<and> translate example_limine r s' 0x401000 = Some (0x101, False, False, False)"
proof -
  obtain r s where s: "example_space r s"
      "vm_ok example_limine (initial_pages example_limine 2 0) [r \<mapsto> 3] r s" "card (free_pages s) = 220"
    using example_space by blast
  have sz: "unat (0x1001 :: u64) \<le> 2 ^ 48" by simp
  have fits: "3 * ((unat (0x1001 :: u64) + 4095) div 4096 div 512 + 2) \<le> card (free_pages s)" by (simp add: s(3))
  obtain s' where s': "vmm_map_range example_limine (page_addr example_limine r) 0x100000 0x400000 0x1001 VMM_PRESENT s = Inr s'"
      "\<forall>k < 2. translate example_limine r s' (0x400000 + of_nat k * PAGE_SIZE) = Some ((0x100 + k) mod 2 ^ 51, False, False, False)"
    using vmm_map_range_maps [OF s(2) sz fits, of "0x100000" "0x400000" VMM_PRESENT]
    by (auto simp: VMM_PRESENT_def VMM_RW_def VMM_USER_def VMM_EXEC_def)
  have "translate example_limine r s' 0x401000 = Some (0x101, False, False, False)"
    using s'(2) [rule_format, of 1] by (simp add: PAGE_SIZE_def)
  with s(1) s'(1) show ?thesis by blast
qed

section \<open>The kernel's address space\<close>

text \<open>C18: \<^verbatim>\<open>vmm_init\<close> in any state of the allocator: with enough free pages (\<^term>\<open>kernel_demand\<close>, a
  few for every entry of the memory map) it returns 0, with the new root in \<^verbatim>\<open>kernelPT\<close> and in
  \<^verbatim>\<open>cr3\<close>, and the processor then sees exactly the abstract page map in which the entries of the
  memory map and the kernel are mapped one after the other; the log shows the three messages.
  With too few pages it may only stop with the out-of-memory panic.\<close>

theorem vmm_init_builds:
  assumes "pmm_ready L M s" and "npages s \<le> 2 ^ 51" and "small_map L"
  shows "case vmm_init L s of
      Inl e \<Rightarrow> (\<exists>out. e = Halted (con s @ out @ ''[ FATAL ] Kernel Panic! Out of Memory!''))
        \<and> card (free_pages s) < kernel_demand L
    | Inr (v, s') \<Rightarrow> v = 0 \<and> con s' = con s @ vmm_log
        \<and> (\<exists>r D. kernelPT s' = page_addr L r \<and> cr3 s' = of_nat (r * 4096) \<and> vm_ok L M D r s'
            \<and> translate L r s' = kernel_view L \<and> free_pages s' = free_pages s - dom D)"
proof (cases "vmm_init L s")
  case (Inl e)
  then show ?thesis using vmm_init_spec [OF assms] by (simp add: oom_message_def)
next
  case (Inr x)
  obtain v s' where x: "x = (v, s')" by (cases x)
  obtain r D where r: "v = 0" "con s' = con s @ vmm_log" "kernelPT s' = page_addr L r" "cr3 s' = of_nat (r * 4096)"
      "vm_ok L M D r s'" "\<forall>va. translate L r s' va = kernel_view L va" "free_pages s' = free_pages s - dom D"
    using vmm_init_spec [OF assms] Inr x by auto
  have "translate L r s' = kernel_view L" using r(6) by blast
  then show ?thesis using Inr x r by auto
qed

theorem vmm_init_builds_witness:
  "\<exists>s0 s'. pmm_init example_limine example_pmm = Inr (0, s0) \<and> vmm_init example_limine s0 = Inr (0, s')
     \<and> (\<exists>r. cr3 s' = of_nat (r * 4096) \<and> translate example_limine r s' = kernel_view example_limine)"
proof -
  obtain s0 where s0: "pmm_init example_limine example_pmm = Inr (0, s0)"
      "free_pages s0 = initial_pages example_limine 2 0"
      "pmm_ready example_limine (initial_pages example_limine 2 0) s0" "npages s0 \<le> 2 ^ 51"
    using example_booted by blast
  from vmm_init_builds [OF s0(3,4) example_small(1)]
  obtain s' where "vmm_init example_limine s0 = Inr (0, s')"
     "\<exists>r. cr3 s' = of_nat (r * 4096) \<and> translate example_limine r s' = kernel_view example_limine"
    by (cases "vmm_init example_limine s0") (auto simp: s0(2) example_initial_card example_small(3))
  with s0(1) show ?thesis by blast
qed

text \<open>C6: memory management at boot. On a bootable machine with enough memory, \<^verbatim>\<open>pmm_init\<close> and
  \<^verbatim>\<open>vmm_init\<close> both succeed, and in the address space the processor then uses: the direct map is
  linear, that is, every physical page of the memory map is seen at its address plus the offset
  of the bootloader, writable and executable and not by users, and every other page of the
  direct map is not mapped; the kernel is mapped at its virtual base, page by page. (Pages of the
  direct map that the kernel's own range covers belong to that range.)\<close>

theorem boot_memory_maps:
  assumes "pmm_bootable L k i" and "small_map L" and "direct_map_ok L"
    and "kernel_demand L \<le> card (usable_pages L - {0} - bitmap_pages L (bitmap_bytes L k) i)"
  shows "\<exists>s0 s' r. pmm_init L s = Inr (0, s0) \<and> vmm_init L s0 = Inr (0, s')
     \<and> kernelPT s' = page_addr L r \<and> cr3 s' = of_nat (r * 4096)
     \<and> (\<forall>p < 2 ^ 36.
          \<not> range_index (boot_proto_kernel_virtual_base L) (page_addr L p) < range_pages (boot_proto_kernel_size L)
          \<longrightarrow> translate L r s' (page_addr L p) =
            (if \<exists>j < length (lim_entries L). p \<in> mapped_pages L j then Some (p, True, False, True) else None))
     \<and> (\<forall>n < range_pages (boot_proto_kernel_size L).
          translate L r s' (boot_proto_kernel_virtual_base L + of_nat n * PAGE_SIZE) =
            Some ((unat (boot_proto_kernel_physical_base L) div 4096 + n) mod 2 ^ 51, True, False, True))"
proof -
  obtain s0 where s0: "pmm_init L s = Inr (0, s0)" "free_pages s0 = initial_pages L k i"
      "pmm_ready L (initial_pages L k i) s0" "npages s0 \<le> 2 ^ 51"
    using pmm_init_bootable [OF assms(1), of s] by blast
  have "kernel_demand L \<le> card (free_pages s0)" using assms(4) by (simp add: s0(2) initial_pages_def)
  then obtain s' r where s': "vmm_init L s0 = Inr (0, s')" "kernelPT s' = page_addr L r"
      "cr3 s' = of_nat (r * 4096)" "\<And>va. translate L r s' va = kernel_view L va"
    using vmm_init_spec [OF s0(3,4) assms(2)] by (cases "vmm_init L s0") auto
  let ?v = "boot_proto_kernel_virtual_base L" and ?n = "range_pages (boot_proto_kernel_size L)"
  have "unat (boot_proto_kernel_size L) \<le> 2 ^ 48" using assms(2) by (simp add: small_map_def)
  then have size: "?n \<le> 2 ^ 36" by (simp add: range_pages_def)
  have "kernel_view L (page_addr L p) = (if \<exists>j < length (lim_entries L). p \<in> mapped_pages L j
       then Some (p, True, False, True) else None)"
    if "p < 2 ^ 36" "\<not> range_index ?v (page_addr L p) < ?n" for p
    using that memmap_view_direct [OF assms(3) that(1), of "entry_count L"]
    by (simp add: kernel_view_def range_view_def entry_count_def)
  moreover have "kernel_view L (?v + of_nat n * PAGE_SIZE) =
       Some ((unat (boot_proto_kernel_physical_base L) div 4096 + n) mod 2 ^ 51, True, False, True)"
    if "n < ?n" for n
    using range_index_eq [of n "?v + of_nat n * PAGE_SIZE" ?v] that size
    by (simp add: kernel_view_def range_view_def kernel_flag_view)
  ultimately show ?thesis
    using s0(1) s'(1-3) unfolding s'(4) [symmetric]
    by (intro exI [of _ s0] exI [of _ s'] exI [of _ r]) simp
qed

theorem boot_memory_maps_witness:
  "\<exists>s0 s' r. pmm_init example_limine example_pmm = Inr (0, s0) \<and> vmm_init example_limine s0 = Inr (0, s')
     \<and> cr3 s' = of_nat (r * 4096)
     \<and> translate example_limine r s' 0xffff800000101000 = Some (0x101, True, False, True)
     \<and> translate example_limine r s' 0xffff800000200000 = None
     \<and> translate example_limine r s' 0xffffffff80001000 = Some (0x121, True, False, True)"
proof -
  have room: "kernel_demand example_limine \<le> card (usable_pages example_limine - {0} - bitmap_pages example_limine (bitmap_bytes example_limine 2) 0)"
    using example_initial_card by (simp add: example_small(3) initial_pages_def)
  have k: "boot_proto_kernel_virtual_base example_limine = 0xffffffff80000000"
    "boot_proto_kernel_physical_base example_limine = 0x120000" "boot_proto_kernel_size example_limine = 0x20000"
    "length (lim_entries example_limine) = 3"
    by (simp_all add: boot_proto_kernel_virtual_base_def boot_proto_kernel_physical_base_def boot_proto_kernel_size_def example_limine_def)
  have n: "range_pages 0x20000 = 0x20" by (simp add: range_pages_def)
  obtain s0 s' r where s: "pmm_init example_limine example_pmm = Inr (0, s0)" "vmm_init example_limine s0 = Inr (0, s')"
      "cr3 s' = of_nat (r * 4096)"
      and direct: "\<And>p. p < 2 ^ 36 \<Longrightarrow> \<not> range_index 0xffffffff80000000 (page_addr example_limine p) < 0x20
        \<Longrightarrow> translate example_limine r s' (page_addr example_limine p) =
            (if \<exists>j < 3. p \<in> mapped_pages example_limine j then Some (p, True, False, True) else None)"
      and kern: "\<And>n. n < 0x20 \<Longrightarrow> translate example_limine r s' (0xffffffff80000000 + of_nat n * PAGE_SIZE) =
            Some ((unat (0x120000 :: u64) div 4096 + n) mod 2 ^ 51, True, False, True)"
    using boot_memory_maps [OF example_bootable example_small(1,2) room, of example_pmm]
    unfolding k n by blast
  have pa: "page_addr example_limine 0x101 = 0xffff800000101000" "page_addr example_limine 0x200 = 0xffff800000200000"
    by (simp_all add: page_addr_def boot_proto_hhdm_offset_def example_limine_def)
  have e: "mapped_pages example_limine 0 = {1..<0x9f}" "mapped_pages example_limine 1 = {0xf0..<0x100}"
    "mapped_pages example_limine 2 = {0x100..<0x140}"
    by (simp_all add: mapped_pages_def memmap_entry_def example_limine_def skip_page_0_def range_pages_def)
  have "0x101 \<in> mapped_pages example_limine 2" by (simp add: e)
  then have inside: "\<exists>j < 3. 0x101 \<in> mapped_pages example_limine j" by (intro exI [of _ 2]) simp
  have outside: "\<forall>j < 3. 0x200 \<notin> mapped_pages example_limine j" unfolding all_less_3 e by simp
  have "\<not> range_index 0xffffffff80000000 (page_addr example_limine 0x101) < 0x20"
    "\<not> range_index 0xffffffff80000000 (page_addr example_limine 0x200) < 0x20"
    unfolding pa by (simp_all add: range_index_def vpage_def)
  then have "translate example_limine r s' 0xffff800000101000 = Some (0x101, True, False, True)"
     "translate example_limine r s' 0xffff800000200000 = None"
    using direct [of "0x101"] direct [of "0x200"] inside outside unfolding pa by auto
  moreover have "translate example_limine r s' 0xffffffff80001000 = Some (0x121, True, False, True)"
    using kern [of 1] by (simp add: PAGE_SIZE_def)
  ultimately show ?thesis using s by blast
qed

end
