(* ===== verification/Kheap.thy ===== *)
theory Kheap
  imports Pmm
begin

text \<open>
  The kernel heap of \<^verbatim>\<open>symphony/mm/kheap.c\<close>: a doubly linked list of block headers in memory,
  each followed by the bytes of its block. Searching the list and the recursion of
  \<^verbatim>\<open>kmalloc\<close> are partial functions: a corrupted list may be circular, and the call then does not
  return.
\<close>

section \<open>Headers\<close>

text \<open>
  \<^verbatim>\<open>struct kheap_block_header\<close>: 32 bytes, the fields at the offsets 0, 8, 16 and 24. The
  \<^verbatim>\<open>bool\<close> is one byte.
\<close>

record kheap_block_header =
  blk_size :: u64
  blk_free :: bool
  blk_next :: u64
  blk_prev :: u64

definition header_size :: u64 where "header_size = 32"

definition header_at :: "mem \<Rightarrow> u64 \<Rightarrow> kheap_block_header" where
  "header_at m a =
     \<lparr>blk_size = load64 m a, blk_free = (m (a + 8) \<noteq> 0), blk_next = load64 m (a + 16),
      blk_prev = load64 m (a + 24)\<rparr>"

abbreviation hdr :: "kstate \<Rightarrow> u64 \<Rightarrow> kheap_block_header" where
  "hdr s a \<equiv> header_at (mem s) a"

definition set_size :: "u64 \<Rightarrow> u64 \<Rightarrow> kstate \<Rightarrow> kstate" where
  "set_size a v s = s\<lparr>mem := store64 a v (mem s)\<rparr>"

definition set_free :: "u64 \<Rightarrow> bool \<Rightarrow> kstate \<Rightarrow> kstate" where
  "set_free a v s = s\<lparr>mem := (mem s)(a + 8 := of_bool v)\<rparr>"

definition set_next :: "u64 \<Rightarrow> u64 \<Rightarrow> kstate \<Rightarrow> kstate" where
  "set_next a v s = s\<lparr>mem := store64 (a + 16) v (mem s)\<rparr>"

definition set_prev :: "u64 \<Rightarrow> u64 \<Rightarrow> kstate \<Rightarrow> kstate" where
  "set_prev a v s = s\<lparr>mem := store64 (a + 24) v (mem s)\<rparr>"

definition fill :: "u64 \<Rightarrow> cint \<Rightarrow> u64 \<Rightarrow> kstate \<Rightarrow> kstate" where
  "fill a c n s = s\<lparr>mem := snd (memset a c n (mem s))\<rparr>"

section \<open>Operations\<close>

definition KHEAP_INIT_PAGES :: cint where "KHEAP_INIT_PAGES = 16"

text \<open>Adding pages: a new block at the end of the list.\<close>

definition kheap_extend :: "limine \<Rightarrow> u64 \<Rightarrow> kstate \<Rightarrow> kerror + kstate" where
  "kheap_extend L sz s =
     (let sz = sz + header_size;
          sz = (if sz mod PAGE_SIZE \<noteq> 0 then ALIGN_UP sz PAGE_SIZE else sz)
      in bindE (pmm_alloc (ucast (sz div PAGE_SIZE)) s) (\<lambda>(a, s).
        let newbh = a + boot_proto_hhdm_offset L;
            s = fill newbh 0 sz s;
            s = set_size newbh (sz - header_size) s;
            s = set_free newbh True s;
            s = set_prev newbh (blockListEnd s) s;
            s = set_next (blockListEnd s) newbh s;
            s = s\<lparr>blockListEnd := newbh\<rparr>;
            s = set_next newbh 0 s;
            s = s\<lparr>kheapSize := kheapSize s + sz\<rparr>
        in Inr (s\<lparr>kheapSizeUsable := kheapSizeUsable s + blk_size (hdr s newbh)\<rparr>)))"

text \<open>Splitting a block: the rest becomes a free block behind it.\<close>

definition kheap_create_block :: "u64 \<Rightarrow> u64 \<Rightarrow> kstate \<Rightarrow> kstate" where
  "kheap_create_block bh sz s =
     (let newbh = bh + header_size + sz;
          s = fill newbh 0 header_size s;
          s = set_size newbh (blk_size (hdr s bh) - (sz + header_size)) s;
          s = set_size bh sz s;
          s = set_next newbh (blk_next (hdr s bh)) s;
          s = set_next bh newbh s;
          s = set_prev newbh bh s;
          s = (if blk_next (hdr s newbh) \<noteq> 0 then set_prev (blk_next (hdr s newbh)) newbh s else s);
          s = set_free newbh True s
      in if bh = blockListEnd s then s\<lparr>blockListEnd := newbh\<rparr> else s)"

definition kheap_init :: "limine \<Rightarrow> kstate \<Rightarrow> kerror + (cint \<times> kstate)" where
  "kheap_init L s =
     bindE (pmm_alloc KHEAP_INIT_PAGES s) (\<lambda>(a, s).
       let start = a + boot_proto_hhdm_offset L;
           s = s\<lparr>blockListStart := start, blockListEnd := start\<rparr>;
           s = fill start 0 header_size s;
           s = set_size start (scast KHEAP_INIT_PAGES * PAGE_SIZE - header_size) s;
           s = set_prev start 0 s;
           s = set_next start 0 s;
           s = set_free start True s
       in Inr (0, s\<lparr>kheapSize := scast KHEAP_INIT_PAGES * PAGE_SIZE,
                    kheapSizeUsable := blk_size (hdr s start)\<rparr>))"

text \<open>
  The search of \<^verbatim>\<open>kmalloc\<close>: the first free block that is large enough is taken, whole when at most
  a header would be left over, and split otherwise. \<^term>\<open>None\<close> inside says that the list ends
  without such a block.
\<close>

partial_function (option) kmalloc_scan :: "u64 \<Rightarrow> u64 \<Rightarrow> kstate \<Rightarrow> (u64 \<times> kstate) option option" where
  "kmalloc_scan sz bh s =
     (if bh = 0 then Some None
      else if \<not> blk_free (hdr s bh) \<or> blk_size (hdr s bh) < sz then kmalloc_scan sz (blk_next (hdr s bh)) s
      else if blk_size (hdr s bh) = sz
          \<or> (blk_size (hdr s bh) > sz \<and> blk_size (hdr s bh) \<le> sz + header_size) then
        Some (Some (bh + header_size, set_free bh False s))
      else if blk_size (hdr s bh) > sz + header_size then
        Some (Some (bh + header_size, set_free bh False (kheap_create_block bh sz s)))
      else kmalloc_scan sz (blk_next (hdr s bh)) s)"

text \<open>The condition is \<^verbatim>\<open>size % 10 != 0\<close>, in decimal: a multiple of ten is not rounded up.\<close>

definition kmalloc_size :: "u64 \<Rightarrow> u64" where
  "kmalloc_size sz = (if sz mod 10 \<noteq> 0 then ALIGN_UP sz 0x10 else sz)"

partial_function (option) kmalloc :: "limine \<Rightarrow> u64 \<Rightarrow> kstate \<Rightarrow> (kerror + (u64 \<times> kstate)) option" where
  "kmalloc L sz s =
     (let sz = kmalloc_size sz in
      Option.bind (kmalloc_scan sz (blockListStart s) s) (\<lambda>found.
        case found of
          Some r \<Rightarrow> Some (Inr r)
        | None \<Rightarrow> (case kheap_extend L sz s of Inl e \<Rightarrow> Some (Inl e) | Inr s \<Rightarrow> kmalloc L sz s)))"

definition kzalloc :: "limine \<Rightarrow> u64 \<Rightarrow> kstate \<Rightarrow> (kerror + (u64 \<times> kstate)) option" where
  "kzalloc L sz s =
     map_option (\<lambda>r. bindE r (\<lambda>(ptr, s). Inr (ptr, fill ptr 0 sz s))) (kmalloc L sz s)"

text \<open>The two merges at the end of \<^verbatim>\<open>kfree\<close>.\<close>

definition merge_next :: "u64 \<Rightarrow> kstate \<Rightarrow> kstate" where
  "merge_next bh s =
     (if blk_next (hdr s bh) \<noteq> 0 \<and> blk_free (hdr s (blk_next (hdr s bh)))
         \<and> bh + blk_size (hdr s bh) + header_size = blk_next (hdr s bh) then
        (let s = (if blk_next (hdr s bh) = blockListEnd s then s\<lparr>blockListEnd := bh\<rparr> else s);
             s = set_size bh (blk_size (hdr s bh) + (blk_size (hdr s (blk_next (hdr s bh))) + header_size)) s;
             s = (if blk_next (hdr s (blk_next (hdr s bh))) \<noteq> 0
                  then set_prev (blk_next (hdr s (blk_next (hdr s bh)))) bh s else s)
         in set_next bh (blk_next (hdr s (blk_next (hdr s bh)))) s)
      else s)"

definition merge_prev :: "u64 \<Rightarrow> kstate \<Rightarrow> kstate" where
  "merge_prev bh s =
     (if blk_prev (hdr s bh) \<noteq> 0 \<and> blk_free (hdr s (blk_prev (hdr s bh)))
         \<and> blk_prev (hdr s bh) + blk_size (hdr s (blk_prev (hdr s bh))) + header_size = bh then
        (let s = (if bh = blockListEnd s then s\<lparr>blockListEnd := blk_prev (hdr s bh)\<rparr> else s);
             s = set_size (blk_prev (hdr s bh))
                   (blk_size (hdr s (blk_prev (hdr s bh))) + (blk_size (hdr s bh) + header_size)) s;
             s = (if blk_next (hdr s bh) \<noteq> 0
                  then set_prev (blk_next (hdr s bh)) (blk_prev (hdr s bh)) s else s)
         in set_next (blk_prev (hdr s bh)) (blk_next (hdr s bh)) s)
      else s)"

definition kfree :: "u64 \<Rightarrow> kstate \<Rightarrow> kerror + kstate" where
  "kfree ptr s =
     (if ptr = 0 then Inr s
      else let bh = ptr - header_size in
        if blk_free (hdr s bh) then klog LOGLEVEL_WARN ''Invalid kfree() address!\<newline>'' [] s
        else
          (let s = set_free bh True s;
               s = fill (bh + header_size) 0xFF (blk_size (hdr s bh)) s;
               s = merge_next bh s
           in Inr (merge_prev bh s)))"

end
