(* ===== verification/Heap_List.thy ===== *)
theory Heap_List
  imports Kheap
begin

text \<open>
  The list of blocks as data: what the headers of a list of blocks are, the addresses a block
  occupies, and how splitting and joining change both. Headers are given here by a function of
  their address; the last section relates such a function to the bytes in memory.
\<close>

section \<open>Chains of headers\<close>

datatype heap_block = Block (start: u64) (capacity: u64) (available: bool)

definition first :: "heap_block list \<Rightarrow> u64 \<Rightarrow> u64" where
  "first bs n = (case bs of [] \<Rightarrow> n | b # _ \<Rightarrow> start b)"

lemma first_simps [simp]: "first [] n = n" "first (b # bs) n = start b"
  by (simp_all add: first_def)

lemma first_append: "first (xs @ ys) n = first xs (first ys n)"
  by (cases xs) simp_all

definition last_start :: "u64 \<Rightarrow> heap_block list \<Rightarrow> u64" where
  "last_start p bs = (if bs = [] then p else start (last bs))"

lemma last_start_simps [simp]: "last_start p [] = p" "last_start p (xs @ [b]) = start b"
  "last_start p (b # bs) = last_start (start b) bs"
  by (simp_all add: last_start_def)

lemma last_start_append: "last_start p (xs @ ys) = last_start (last_start p xs) ys"
  by (simp add: last_start_def)

lemma last_start_mem: "ys \<noteq> [] \<Longrightarrow> last_start p ys \<in> start ` set ys"
  by (simp add: last_start_def)

fun chain :: "(u64 \<Rightarrow> kheap_block_header) \<Rightarrow> u64 \<Rightarrow> heap_block list \<Rightarrow> u64 \<Rightarrow> bool" where
  "chain h p [] n = True"
| "chain h p (b # bs) n \<longleftrightarrow>
     h (start b) = \<lparr>blk_size = capacity b, blk_free = available b, blk_next = first bs n, blk_prev = p\<rparr>
     \<and> chain h (start b) bs n"

lemma chain_append:
  "chain h p (xs @ ys) n \<longleftrightarrow> chain h p xs (first ys n) \<and> chain h (last_start p xs) ys n"
  by (induction h p xs n rule: chain.induct) (auto simp: first_append)

lemma chain_cong:
  "(\<And>b. b \<in> set bs \<Longrightarrow> h' (start b) = h (start b)) \<Longrightarrow> chain h' p bs n = chain h p bs n"
  by (induction h p bs n rule: chain.induct) auto

lemma chain_upd_other [simp]:
  "a \<notin> start ` set bs \<Longrightarrow> chain (h(a := v)) p bs n = chain h p bs n"
  by (rule chain_cong) auto

text \<open>The successor of the last block, and the predecessor of the first, can be redirected.\<close>

lemma chain_last_next:
  assumes "chain h p (xs @ [b]) n" and "start b \<notin> start ` set xs"
  shows "chain (h(start b := (h (start b))\<lparr>blk_next := n'\<rparr>)) p (xs @ [b]) n'"
  using assms by (simp add: chain_append)

lemma chain_first_prev:
  assumes "chain h p (c # ys) n" and "start c \<notin> start ` set ys"
  shows "chain (h(start c := (h (start c))\<lparr>blk_prev := p'\<rparr>)) p' (c # ys) n"
  using assms by simp

section \<open>The addresses of a block\<close>

definition extent :: "heap_block \<Rightarrow> u64 set" where
  "extent b = {x. in_rng (start b) (32 + unat (capacity b)) x}"

definition header_bytes :: "u64 \<Rightarrow> u64 set" where
  "header_bytes a = {x. in_rng a 32 x}"

definition payload :: "heap_block \<Rightarrow> u64 set" where
  "payload b = {x. in_rng (start b + header_size) (unat (capacity b)) x}"

lemma in_rng_shift:
  assumes "no_wrap i n"
  shows "in_rng (a + i) n x \<longleftrightarrow> unat i \<le> unat (x - a) \<and> unat (x - a) < unat i + n"
proof -
  have "in_rng (a + i) n x \<longleftrightarrow> in_rng i n (x - a)" by (simp add: in_rng_def algebra_simps)
  then show ?thesis using in_rng_nat [OF assms] by simp
qed

lemma header_in_extent: "header_bytes (start b) \<subseteq> extent b"
  by (auto simp: header_bytes_def extent_def in_rng_def)

lemma start_in_header: "a \<in> header_bytes a"
  by (simp add: header_bytes_def in_rng_def)

lemma unat_header_size [simp]: "unat header_size = 32"
  by (simp add: header_size_def)

lemma in_payload:
  assumes "32 + unat (capacity b) < 2 ^ 64"
  shows "x \<in> payload b \<longleftrightarrow> 32 \<le> unat (x - start b) \<and> unat (x - start b) < 32 + unat (capacity b)"
  unfolding payload_def mem_Collect_eq using assms by (subst in_rng_shift) (simp_all add: no_wrap_def)

lemma payload_in_extent:
  assumes "32 + unat (capacity b) < 2 ^ 64"
  shows "payload b \<subseteq> extent b" and "payload b \<inter> header_bytes (start b) = {}"
  using in_payload [OF assms] by (auto simp: extent_def header_bytes_def in_rng_def)

text \<open>Splitting a block, and joining two adjacent ones.\<close>

lemma extent_split:
  assumes fits: "unat n + 32 \<le> unat sz" and sz: "32 + unat sz < 2 ^ 64"
  shows "extent (Block a sz f) =
      extent (Block a n g) \<union> extent (Block (a + header_size + n) (sz - (n + header_size)) k)"
    and "extent (Block a n g) \<inter> extent (Block (a + header_size + n) (sz - (n + header_size)) k) = {}"
    and "unat (sz - (n + header_size)) = unat sz - unat n - 32"
proof -
  have u: "unat (header_size + n) = 32 + unat n" "unat (n + header_size) = unat n + 32"
    using assms by (simp_all add: unat_add_no_wrap)
  then have "n + header_size \<le> sz" using fits by (simp add: word_le_nat_alt)
  then show rest: "unat (sz - (n + header_size)) = unat sz - unat n - 32"
    using u by (simp add: unat_sub_le)
  have nw: "no_wrap (header_size + n) (32 + (unat sz - unat n - 32))"
    using assms by (simp add: no_wrap_def u)
  have second: "x \<in> extent (Block (a + header_size + n) (sz - (n + header_size)) k)
      \<longleftrightarrow> 32 + unat n \<le> unat (x - a) \<and> unat (x - a) < 32 + unat sz" for x
    unfolding extent_def mem_Collect_eq heap_block.sel add.assoc rest in_rng_shift [OF nw] u
    using fits by linarith
  have whole: "x \<in> extent (Block a v f) \<longleftrightarrow> unat (x - a) < 32 + unat v" for x v f
    by (simp add: extent_def in_rng_def)
  show "extent (Block a sz f) =
      extent (Block a n g) \<union> extent (Block (a + header_size + n) (sz - (n + header_size)) k)"
    unfolding set_eq_iff Un_iff second whole using fits by linarith
  show "extent (Block a n g) \<inter> extent (Block (a + header_size + n) (sz - (n + header_size)) k) = {}"
    unfolding disjoint_iff second whole by linarith
qed

text \<open>Blocks that do not overlap.\<close>

definition spread :: "heap_block list \<Rightarrow> bool" where
  "spread bs \<longleftrightarrow> sorted_wrt (\<lambda>b c. extent b \<inter> extent c = {}) bs"

lemma spread_simps [simp]: "spread []"
  "spread (b # bs) \<longleftrightarrow> (\<forall>c \<in> set bs. extent b \<inter> extent c = {}) \<and> spread bs"
  "spread (xs @ ys) \<longleftrightarrow> spread xs \<and> spread ys \<and> (\<forall>b \<in> set xs. \<forall>c \<in> set ys. extent b \<inter> extent c = {})"
  by (auto simp: spread_def sorted_wrt_append)

lemma spread_distinct: "spread bs \<Longrightarrow> distinct (map start bs)"
proof (induction bs)
  case (Cons b bs)
  have "start c \<noteq> start b" if "c \<in> set bs" for c
  proof
    assume "start c = start b"
    then have "start b \<in> extent b \<inter> extent c"
      using header_in_extent start_in_header by (metis IntI subsetD)
    then show False using Cons.prems that by auto
  qed
  then show ?case using Cons by fastforce
qed simp

lemma spread_disjoint:
  assumes "spread bs" and "b \<in> set bs" and "c \<in> set bs" and "b \<noteq> c"
  shows "extent b \<inter> extent c = {}"
  using assms by (induction bs) auto

section \<open>Headers in memory\<close>

lemma field_ranges:
  "in_rng a 8 x \<longleftrightarrow> unat (x - a) < 8" "x = a + 8 \<longleftrightarrow> unat (x - a) = 8"
  "in_rng (a + 16) 8 x \<longleftrightarrow> 16 \<le> unat (x - a) \<and> unat (x - a) < 24"
  "in_rng (a + 24) 8 x \<longleftrightarrow> 24 \<le> unat (x - a) \<and> unat (x - a) < 32"
proof -
  show "in_rng a 8 x \<longleftrightarrow> unat (x - a) < 8" by (rule in_rng_def)
  show "x = a + 8 \<longleftrightarrow> unat (x - a) = 8" using sub_eq_of_nat [of x a 8] by simp
  show "in_rng (a + 16) 8 x \<longleftrightarrow> 16 \<le> unat (x - a) \<and> unat (x - a) < 24"
    "in_rng (a + 24) 8 x \<longleftrightarrow> 24 \<le> unat (x - a) \<and> unat (x - a) < 32"
    by (subst in_rng_shift; simp add: no_wrap_def)+
qed

lemma in_header: "x \<in> header_bytes a \<longleftrightarrow> unat (x - a) < 32"
  by (simp add: header_bytes_def in_rng_def)

text \<open>The offsets of the fields of a header are inside it.\<close>

lemma field_in_header:
  "in_rng a 8 x \<Longrightarrow> x \<in> header_bytes a" "a + 8 \<in> header_bytes a"
  "in_rng (a + 16) 8 x \<Longrightarrow> x \<in> header_bytes a" "in_rng (a + 24) 8 x \<Longrightarrow> x \<in> header_bytes a"
  unfolding field_ranges(3,4) unfolding field_ranges(1) in_header by simp_all

lemma header_at_cong:
  assumes "\<And>x. x \<in> header_bytes a \<Longrightarrow> m' x = m x"
  shows "header_at m' a = header_at m a"
proof -
  have "load64 m' a = load64 m a" "load64 m' (a + 16) = load64 m (a + 16)"
    "load64 m' (a + 24) = load64 m (a + 24)"
    by (intro load64_cong assms; erule field_in_header)+
  moreover have "m' (a + 8) = m (a + 8)" by (rule assms) (rule field_in_header)
  ultimately show ?thesis by (simp add: header_at_def)
qed

text \<open>Writing one field changes that field only.\<close>

lemma header_at_store:
  "header_at (store64 a v m) a = (header_at m a)\<lparr>blk_size := v\<rparr>"
  "header_at (m(a + 8 := w)) a = (header_at m a)\<lparr>blk_free := (w \<noteq> 0)\<rparr>"
  "header_at (store64 (a + 16) v m) a = (header_at m a)\<lparr>blk_next := v\<rparr>"
  "header_at (store64 (a + 24) v m) a = (header_at m a)\<lparr>blk_prev := v\<rparr>"
proof -
  have e: "unat (a + 8 - a) = 8" by simp
  have out: "store64 (a + 16) v m (a + 8) = m (a + 8)" "store64 (a + 24) v m (a + 8) = m (a + 8)"
    by (rule store64_apply_out, unfold field_ranges(3,4), unfold e, simp)+
  have out': "store64 a v m (a + 8) = m (a + 8)"
    by (rule store64_apply_out, unfold field_ranges(1), unfold e, simp)
  have l: "load64 (store64 a v m) (a + 16) = load64 m (a + 16)"
    "load64 (store64 a v m) (a + 24) = load64 m (a + 24)"
    "load64 (store64 (a + 16) v m) a = load64 m a"
    "load64 (store64 (a + 16) v m) (a + 24) = load64 m (a + 24)"
    "load64 (store64 (a + 24) v m) a = load64 m a"
    "load64 (store64 (a + 24) v m) (a + 16) = load64 m (a + 16)"
    by (rule load64_cong, rule store64_apply_out, unfold field_ranges(3,4), (unfold field_ranges(1))?, linarith)+
  have f: "load64 (m(a + 8 := w)) a = load64 m a"
    "load64 (m(a + 8 := w)) (a + 16) = load64 m (a + 16)"
    "load64 (m(a + 8 := w)) (a + 24) = load64 m (a + 24)"
    by (rule load64_cong, rule fun_upd_other, (unfold field_ranges(3,4))?, unfold field_ranges(1,2), linarith)+
  show "header_at (store64 a v m) a = (header_at m a)\<lparr>blk_size := v\<rparr>"
    "header_at (m(a + 8 := w)) a = (header_at m a)\<lparr>blk_free := (w \<noteq> 0)\<rparr>"
    "header_at (store64 (a + 16) v m) a = (header_at m a)\<lparr>blk_next := v\<rparr>"
    "header_at (store64 (a + 24) v m) a = (header_at m a)\<lparr>blk_prev := v\<rparr>"
    using out out' l f by (simp_all add: header_at_def)
qed

lemma setter_fields [simp]:
  "bitmap (set_size a v s) = bitmap s" "bitmap (set_free a f s) = bitmap s"
  "bitmap (set_next a v s) = bitmap s" "bitmap (set_prev a v s) = bitmap s" "bitmap (fill a c n s) = bitmap s"
  "bitmapSize (set_size a v s) = bitmapSize s" "bitmapSize (set_free a f s) = bitmapSize s"
  "bitmapSize (set_next a v s) = bitmapSize s" "bitmapSize (set_prev a v s) = bitmapSize s"
  "bitmapSize (fill a c n s) = bitmapSize s"
  "con (set_size a v s) = con s" "con (set_free a f s) = con s"
  "con (set_next a v s) = con s" "con (set_prev a v s) = con s" "con (fill a c n s) = con s"
  "blockListStart (set_size a v s) = blockListStart s" "blockListStart (set_free a f s) = blockListStart s"
  "blockListStart (set_next a v s) = blockListStart s" "blockListStart (set_prev a v s) = blockListStart s"
  "blockListStart (fill a c n s) = blockListStart s"
  "blockListEnd (set_size a v s) = blockListEnd s" "blockListEnd (set_free a f s) = blockListEnd s"
  "blockListEnd (set_next a v s) = blockListEnd s" "blockListEnd (set_prev a v s) = blockListEnd s"
  "blockListEnd (fill a c n s) = blockListEnd s"
  "kheapSize (set_size a v s) = kheapSize s" "kheapSize (set_free a f s) = kheapSize s"
  "kheapSize (set_next a v s) = kheapSize s" "kheapSize (set_prev a v s) = kheapSize s"
  "kheapSize (fill a c n s) = kheapSize s"
  by (simp_all add: set_size_def set_free_def set_next_def set_prev_def fill_def)

text \<open>
  \<open>sees A s h\<close>: the headers at the addresses \<open>A\<close>, which do not overlap, are \<open>h\<close>. Each write
  of a field updates \<open>h\<close> at one address.
\<close>

definition separate :: "u64 set \<Rightarrow> bool" where
  "separate A \<longleftrightarrow> (\<forall>a \<in> A. \<forall>b \<in> A. a \<noteq> b \<longrightarrow> header_bytes a \<inter> header_bytes b = {})"

definition sees :: "u64 set \<Rightarrow> kstate \<Rightarrow> (u64 \<Rightarrow> kheap_block_header) \<Rightarrow> bool" where
  "sees A s h \<longleftrightarrow> separate A \<and> (\<forall>a \<in> A. hdr s a = h a)"

lemma seesD: "sees A s h \<Longrightarrow> a \<in> A \<Longrightarrow> hdr s a = h a"
  by (simp add: sees_def)

lemma sees_other:
  assumes "sees A s h" and "a \<in> A" and "\<And>x. x \<notin> header_bytes a \<Longrightarrow> m x = mem s x"
    and "header_at m a = h' a" and "\<And>b. b \<noteq> a \<Longrightarrow> h' b = h b"
  shows "sees A (s\<lparr>mem := m\<rparr>) h'"
  unfolding sees_def
proof (intro conjI ballI)
  show "separate A" using assms(1) by (simp add: sees_def)
  fix b assume b: "b \<in> A"
  show "hdr (s\<lparr>mem := m\<rparr>) b = h' b"
  proof (cases "b = a")
    case False
    then have "header_bytes b \<inter> header_bytes a = {}" using assms(1,2) b by (auto simp: sees_def separate_def)
    then have "header_at m b = hdr s b" using assms(3) by (intro header_at_cong) auto
    then show ?thesis using assms(1,5) b False by (simp add: sees_def)
  qed (use assms(4) in simp)
qed

lemma field_out:
  assumes "x \<notin> header_bytes a"
  shows "store64 a v m x = m x" "(m(a + 8 := w)) x = m x" "store64 (a + 16) v m x = m x"
    "store64 (a + 24) v m x = m x"
proof -
  show "store64 a v m x = m x" "store64 (a + 16) v m x = m x" "store64 (a + 24) v m x = m x"
    using assms field_in_header by (metis store64_apply_out)+
  show "(m(a + 8 := w)) x = m x" using assms field_in_header(2) by auto
qed

lemma sees_set:
  assumes "sees A s h" and "a \<in> A"
  shows "sees A (set_size a v s) (h(a := (h a)\<lparr>blk_size := v\<rparr>))"
    "sees A (set_free a f s) (h(a := (h a)\<lparr>blk_free := f\<rparr>))"
    "sees A (set_next a v s) (h(a := (h a)\<lparr>blk_next := v\<rparr>))"
    "sees A (set_prev a v s) (h(a := (h a)\<lparr>blk_prev := v\<rparr>))"
  unfolding set_size_def set_free_def set_next_def set_prev_def
  by (rule sees_other [OF assms], erule field_out,
      simp add: header_at_store seesD [OF assms], simp)+

lemma sees_fill:
  assumes "sees A s h" and "\<And>a x. a \<in> A \<Longrightarrow> x \<in> header_bytes a \<Longrightarrow> \<not> in_rng p (unat n) x"
  shows "sees A (fill p c n s) h"
proof -
  have "hdr (fill p c n s) a = hdr s a" if "a \<in> A" for a
    using assms(2) [OF that] by (intro header_at_cong) (simp add: fill_def memset_apply)
  then show ?thesis using assms(1) by (simp add: sees_def)
qed

lemma sees_field:
  assumes "sees A s h" and "mem s' = mem s"
  shows "sees A s' h"
  using assms by (simp add: sees_def)

text \<open>A zeroed range that begins with a header.\<close>

lemma sees_new:
  assumes "sees A s h" and n: "32 \<le> unat n"
    and out: "\<And>b x. b \<in> A \<Longrightarrow> x \<in> header_bytes b \<Longrightarrow> \<not> in_rng a (unat n) x"
  shows "sees (insert a A) (fill a 0 n s)
    (h(a := \<lparr>blk_size = 0, blk_free = False, blk_next = 0, blk_prev = 0\<rparr>))"
proof -
  have z: "mem (fill a 0 n s) x = 0" if "x \<in> header_bytes a" for x
    using that n by (simp add: fill_def memset_apply header_bytes_def in_rng_mono)
  have "header_at (mem (fill a 0 n s)) a = header_at (\<lambda>_. 0) a"
    by (rule header_at_cong) (rule z)
  moreover have "load64 (\<lambda>_. 0) x = 0" for x by (rule load64_zero) simp
  ultimately have new: "hdr (fill a 0 n s) a = \<lparr>blk_size = 0, blk_free = False, blk_next = 0, blk_prev = 0\<rparr>"
    by (simp add: header_at_def)
  have old: "sees A (fill a 0 n s) h" by (rule sees_fill [OF assms(1)]) (rule out)
  have sub: "header_bytes a \<subseteq> {x. in_rng a (unat n) x}" using n by (auto simp: header_bytes_def in_rng_mono)
  then have "header_bytes b \<inter> header_bytes a = {}" if "b \<in> A" for b using out [OF that] by blast
  moreover from this have "a \<notin> A" using start_in_header by blast
  ultimately show ?thesis using new old by (auto simp: sees_def separate_def)
qed

end
