(* ===== verification/Heap_Ops.thy ===== *)
theory Heap_Ops
  imports Heap_List
begin

text \<open>
  What the operations of the heap do to its list of blocks: the invariant that ties the list to
  the headers in memory, and for each operation the new list and the memory it leaves alone.
\<close>

section \<open>The list in memory\<close>

text \<open>
  \<open>H\<close> are the pages of the heap. A block ends within the first 8 EiB of physical addresses, which
  every page of the allocator does, and the pointer to it is not null.
\<close>

definition block_ok :: "limine \<Rightarrow> nat set \<Rightarrow> heap_block \<Rightarrow> bool" where
  "block_ok L H b \<longleftrightarrow> unat (start b - boot_proto_hhdm_offset L) + 32 + unat (capacity b) \<le> 2 ^ 63
     \<and> (\<forall>x \<in> extent b. page_of L x \<in> H) \<and> start b + header_size \<noteq> 0"

definition heap_list :: "limine \<Rightarrow> nat set \<Rightarrow> heap_block list \<Rightarrow> kstate \<Rightarrow> bool" where
  "heap_list L H bs s \<longleftrightarrow> bs \<noteq> [] \<and> blockListStart s = first bs 0 \<and> blockListEnd s = last_start 0 bs
     \<and> chain (hdr s) 0 bs 0 \<and> spread bs \<and> (\<forall>b \<in> set bs. block_ok L H b) \<and> page_of L 0 \<notin> H"

definition starts :: "heap_block list \<Rightarrow> u64 set" where
  "starts bs = start ` set bs"

definition heads :: "heap_block list \<Rightarrow> u64 set" where
  "heads bs = (\<Union>b \<in> set bs. header_bytes (start b))"

text \<open>The memory outside \<open>X\<close> is left alone.\<close>

definition touches :: "u64 set \<Rightarrow> kstate \<Rightarrow> kstate \<Rightarrow> bool" where
  "touches X s s' \<longleftrightarrow> (\<forall>x. x \<notin> X \<longrightarrow> mem s' x = mem s x)"

lemma touches_refl [simp]: "touches X s s"
  by (simp add: touches_def)

lemma touches_set:
  assumes "touches X s s'" and "header_bytes a \<subseteq> X"
  shows "touches X s (set_size a v s')" "touches X s (set_free a f s')"
    "touches X s (set_next a v s')" "touches X s (set_prev a v s')"
proof -
  have "x \<notin> header_bytes a" "mem s' x = mem s x" if "x \<notin> X" for x
    using assms that by (auto simp: touches_def)
  then show "touches X s (set_size a v s')" "touches X s (set_free a f s')"
    "touches X s (set_next a v s')" "touches X s (set_prev a v s')"
    by (simp_all add: touches_def set_size_def set_free_def set_next_def set_prev_def field_out del: fun_upd_apply)
qed

lemma touches_fill:
  "touches X s s' \<Longrightarrow> (\<And>x. in_rng p (unat n) x \<Longrightarrow> x \<in> X) \<Longrightarrow> touches X s (fill p c n s')"
  by (auto simp: touches_def fill_def memset_apply)

lemma touches_end [simp]: "touches X s (s'\<lparr>blockListEnd := e\<rparr>) \<longleftrightarrow> touches X s s'"
  by (simp add: touches_def)

lemma touches_mono: "touches X s s' \<Longrightarrow> X \<subseteq> Y \<Longrightarrow> touches Y s s'"
  by (auto simp: touches_def)

lemma touches_trans: "touches X s s' \<Longrightarrow> touches X s' s'' \<Longrightarrow> touches X s s''"
  by (simp add: touches_def)

lemma header_in_heads: "b \<in> set bs \<Longrightarrow> header_bytes (start b) \<subseteq> heads bs"
  by (auto simp: heads_def)

lemma block_ok_size: "block_ok L H b \<Longrightarrow> 32 + unat (capacity b) < 2 ^ 64"
  by (simp add: block_ok_def)

lemma start_nonzero:
  assumes "block_ok L H b" and "page_of L 0 \<notin> H"
  shows "start b \<noteq> 0"
proof
  assume "start b = 0"
  then have "0 \<in> extent b" using header_in_extent start_in_header by (metis subsetD)
  then show False using assms by (auto simp: block_ok_def)
qed

lemma heap_list_sees: "heap_list L H bs s \<Longrightarrow> sees (starts bs) s (hdr s)"
proof -
  assume hl: "heap_list L H bs s"
  have "header_bytes (start b) \<inter> header_bytes (start c) = {}"
    if "b \<in> set bs" "c \<in> set bs" "start b \<noteq> start c" for b c
  proof -
    have "extent b \<inter> extent c = {}"
      using hl that by (intro spread_disjoint [of bs]) (auto simp: heap_list_def)
    then show ?thesis using header_in_extent [of b] header_in_extent [of c] by blast
  qed
  then show ?thesis by (auto simp: sees_def separate_def starts_def)
qed

text \<open>Establishing the list again from the headers an operation leaves.\<close>

lemma heap_listI:
  assumes "sees A s' h'" and "starts bs' \<subseteq> A" and "chain h' 0 bs' 0" and "bs' \<noteq> []"
    and "blockListStart s' = first bs' 0" and "blockListEnd s' = last_start 0 bs'" and "spread bs'"
    and "\<And>b. b \<in> set bs' \<Longrightarrow> block_ok L H b" and "page_of L 0 \<notin> H"
  shows "heap_list L H bs' s'"
proof -
  have "chain (hdr s') 0 bs' 0 = chain h' 0 bs' 0"
    using assms(1,2) by (intro chain_cong) (auto simp: starts_def sees_def)
  then show ?thesis using assms(3-9) by (simp add: heap_list_def)
qed

lemma spread_middle:
  "spread (xs @ b # ys) \<longleftrightarrow> spread (xs @ ys) \<and> (\<forall>c \<in> set (xs @ ys). extent c \<inter> extent b = {})"
  by (simp add: ball_Un Int_commute [of "extent b"]) meson

lemma starts_middle:
  assumes "spread (xs @ b # ys)"
  shows "start b \<notin> start ` set xs" "start b \<notin> start ` set ys"
  using spread_distinct [OF assms] by auto

section \<open>Taking a block\<close>

text \<open>Changing whether a block is free.\<close>

lemma set_free_list:
  assumes hl: "heap_list L H (xs @ Block a sz g # ys) s"
  shows "heap_list L H (xs @ Block a sz f # ys) (set_free a f s)"
    and "touches (heads (xs @ Block a sz g # ys)) s (set_free a f s)"
proof -
  let ?bs = "xs @ Block a sz g # ys"
  have sp: "spread ?bs" and ch: "chain (hdr s) 0 ?bs 0" using hl by (simp_all add: heap_list_def)
  have ext: "extent (Block a sz f) = extent (Block a sz g)" by (simp add: extent_def)
  note st = starts_middle [OF sp, simplified]
  have a: "a \<in> starts ?bs" by (simp add: starts_def)
  show "heap_list L H (xs @ Block a sz f # ys) (set_free a f s)"
  proof (rule heap_listI [OF sees_set(2) [OF heap_list_sees [OF hl] a]])
    show "chain ((hdr s)(a := (hdr s a)\<lparr>blk_free := f\<rparr>)) 0 (xs @ Block a sz f # ys) 0"
      using ch st by (simp add: chain_append)
    show "spread (xs @ Block a sz f # ys)" using sp unfolding spread_middle ext .
    show "block_ok L H b" if "b \<in> set (xs @ Block a sz f # ys)" for b
      using hl that ext by (auto simp: heap_list_def block_ok_def)
  qed (use hl in \<open>auto simp: heap_list_def starts_def first_append last_start_def\<close>)
  show "touches (heads ?bs) s (set_free a f s)"
    by (intro touches_set touches_refl header_in_heads [of "Block a sz g", simplified]) simp
qed

section \<open>Splitting\<close>

lemma split_block_ok:
  assumes ok: "block_ok L H (Block a sz f)" and lt: "unat n + 32 < unat sz" and np: "page_of L 0 \<notin> H"
  shows "block_ok L H (Block a n g)" "block_ok L H (Block (a + header_size + n) (sz - (n + header_size)) k)"
proof -
  let ?N = "Block (a + header_size + n) (sz - (n + header_size)) k"
  have sz: "32 + unat sz < 2 ^ 64" using block_ok_size [OF ok] by simp
  have fits: "unat n + 32 \<le> unat sz" using lt by simp
  note sp = extent_split [OF fits sz]
  have off: "unat (a - boot_proto_hhdm_offset L) + 32 + unat sz \<le> 2 ^ 63" using ok by (simp add: block_ok_def)
  then show "block_ok L H (Block a n g)"
    using ok fits sp(1) [where f = f and g = g and k = k and a = a] by (simp add: block_ok_def)
  have "a + header_size + n - boot_proto_hhdm_offset L = (a - boot_proto_hhdm_offset L) + (header_size + n)"
    by simp
  moreover have "unat (header_size + n) = 32 + unat n" using fits sz by (simp add: unat_add_no_wrap)
  ultimately have "unat (a + header_size + n - boot_proto_hhdm_offset L)
      = unat (a - boot_proto_hhdm_offset L) + (32 + unat n)"
    using off fits by (simp only:) (subst unat_add_no_wrap, simp_all)
  moreover have "start ?N + header_size \<in> extent ?N"
    unfolding extent_def mem_Collect_eq in_rng_word_offset using sp(3) lt by simp
  then have "start ?N + header_size \<in> extent (Block a sz f)" using sp(1) by blast
  then have "start ?N + header_size \<noteq> 0" using ok np unfolding block_ok_def by metis
  ultimately show "block_ok L H ?N"
    using ok fits off sp(1) [where f = f and g = g and k = k and a = a] by (auto simp: block_ok_def sp(3))
qed

lemma split_disjoint:
  assumes hl: "heap_list L H (xs @ Block a sz f # ys) s" and fits: "unat n + 32 \<le> unat sz"
  defines "new \<equiv> a + header_size + n"
  shows "spread (xs @ Block a n g # Block new (sz - (n + header_size)) k # ys)"
    and "b \<in> starts (xs @ Block a sz f # ys) \<Longrightarrow> header_bytes b \<inter> header_bytes new = {}"
    and "header_bytes new \<subseteq> extent (Block a sz f)"
proof -
  let ?B = "Block a sz f" and ?A = "Block a n g" and ?N = "Block new (sz - (n + header_size)) k"
  have sp: "spread (xs @ ?B # ys)" and ok: "block_ok L H ?B" using hl by (simp_all add: heap_list_def)
  have sz: "32 + unat sz < 2 ^ 64" using block_ok_size [OF ok] by simp
  note es = extent_split(1) [OF fits sz, where a = a and f = f and g = g and k = k, folded new_def]
    extent_split(2) [OF fits sz, where a = a and g = g and k = k, folded new_def]
  have out: "extent c \<inter> extent ?B = {}" if "c \<in> set (xs @ ys)" for c
    using sp that unfolding spread_middle by blast
  have "extent c \<inter> extent ?A = {}" "extent c \<inter> extent ?N = {}" if "c \<in> set (xs @ ys)" for c
    using out [OF that] unfolding es(1) by blast+
  then show "spread (xs @ ?A # ?N # ys)"
    using sp es(2) unfolding spread_middle by (simp add: Int_commute [of "extent ?A"])
  show hn: "header_bytes new \<subseteq> extent ?B" using header_in_extent [of ?N] es(1) by auto
  have "header_bytes a \<subseteq> extent ?A" using header_in_extent [of ?A] by simp
  then have own: "header_bytes a \<inter> header_bytes new = {}" using header_in_extent [of ?N] es(2) by auto
  show "header_bytes b \<inter> header_bytes new = {}" if b: "b \<in> starts (xs @ ?B # ys)"
  proof (cases "b = a")
    case False
    then obtain c where "c \<in> set (xs @ ys)" "b = start c" using b by (auto simp: starts_def)
    then show ?thesis using out header_in_extent [of c] hn by blast
  qed (use own in simp)
qed

text \<open>The headers after a split.\<close>

lemma split_chain:
  fixes n sz' :: u64
  assumes ch: "chain h p (xs @ Block a sz f # ys) 0" and d: "distinct (map start (xs @ Block a sz f # ys))"
    and new: "new \<notin> starts (xs @ Block a sz f # ys)" and nz: "\<And>b. b \<in> set ys \<Longrightarrow> start b \<noteq> 0"
  defines "nx \<equiv> first ys 0"
  defines "h6 \<equiv> h(new := \<lparr>blk_size = sz', blk_free = False, blk_next = nx, blk_prev = a\<rparr>,
    a := \<lparr>blk_size = n, blk_free = f, blk_next = new, blk_prev = last_start p xs\<rparr>)"
  defines "h8 \<equiv> (if nx \<noteq> 0 then h6(nx := (h6 nx)\<lparr>blk_prev := new\<rparr>) else h6)"
  shows "chain (h8(new := (h8 new)\<lparr>blk_free := True\<rparr>)) p (xs @ Block a n f # Block new sz' True # ys) 0"
proof -
  have st: "a \<notin> start ` set xs" "a \<notin> start ` set ys" "new \<noteq> a" "new \<notin> start ` set xs" "new \<notin> start ` set ys"
    using d new by (auto simp: starts_def)
  show ?thesis
  proof (cases ys)
    case Nil
    then show ?thesis using ch st by (simp add: h8_def h6_def nx_def chain_append)
  next
    case (Cons c zs)
    then have "start c \<noteq> 0" "start c \<notin> start ` set xs" "start c \<notin> start ` set zs"
      "start c \<noteq> a" "start c \<noteq> new" using nz d st by auto
    then show ?thesis using ch st Cons by (simp add: h8_def h6_def nx_def chain_append)
  qed
qed

lemma create_block_list:
  assumes hl: "heap_list L H (xs @ Block a sz f # ys) s" and lt: "unat n + 32 < unat sz"
  defines "new \<equiv> a + header_size + n"
  shows "heap_list L H (xs @ Block a n f # Block new (sz - (n + header_size)) True # ys) (kheap_create_block a n s)"
    and "touches (heads (xs @ ys) \<union> extent (Block a sz f)) s (kheap_create_block a n s)"
proof -
  let ?bs = "xs @ Block a sz f # ys" and ?X = "heads (xs @ ys) \<union> extent (Block a sz f)"
  let ?A = "insert new (starts ?bs)" and ?h0 = "hdr s" and ?sz' = "sz - (n + header_size)"
  have sp: "spread ?bs" and ch: "chain ?h0 0 ?bs 0" and ok: "\<forall>b \<in> set ?bs. block_ok L H b"
    and np: "page_of L 0 \<notin> H" and ends: "blockListStart s = first ?bs 0" "blockListEnd s = last_start 0 ?bs"
    using hl unfolding heap_list_def by blast+
  have fits: "unat n + 32 \<le> unat sz" using lt by simp
  note dj = split_disjoint [OF hl fits, folded new_def]
  have mem: "new \<in> ?A" "a \<in> ?A" and new: "new \<notin> starts ?bs"
    using dj(2) start_in_header by (auto simp: starts_def)
  note st = starts_middle [OF sp, simplified]
  have ha: "?h0 a = \<lparr>blk_size = sz, blk_free = f, blk_next = first ys 0, blk_prev = last_start 0 xs\<rparr>"
    using ch by (simp add: chain_append)
  have na: "new \<noteq> a" using new by (auto simp: starts_def)
  define nx where "nx = first ys 0"
  have nx: "nx \<noteq> 0 \<Longrightarrow> nx \<in> ?A" "nx \<noteq> new" if "nx \<noteq> 0" using that new by (cases ys; auto simp: nx_def starts_def)+
  define s1 where "s1 = fill new 0 header_size s"
  define h1 where "h1 = ?h0(new := \<lparr>blk_size = 0, blk_free = False, blk_next = 0, blk_prev = 0\<rparr>)"
  have 1: "sees ?A s1 h1" unfolding s1_def h1_def 
    by (rule sees_new [OF heap_list_sees [OF hl]]) (use dj(2) in \<open>auto simp: header_bytes_def\<close>)
  define s2 where "s2 = set_size new ?sz' s1"
  define s3 where "s3 = set_size a n s2"
  define s4 where "s4 = set_next new nx s3"
  define s5 where "s5 = set_next a new s4"
  define s6 where "s6 = set_prev new a s5"
  define s7 where "s7 = (if nx \<noteq> 0 then set_prev nx new s6 else s6)"
  define s8 where "s8 = set_free new True s7"
  define s9 where "s9 = (if a = blockListEnd s8 then s8\<lparr>blockListEnd := new\<rparr> else s8)"
  note 2 = sees_set(1) [OF 1 mem(1), of ?sz', folded s2_def]
  note 3 = sees_set(1) [OF 2 mem(2), of n, folded s3_def]
  note 4 = sees_set(3) [OF 3 mem(1), of nx, folded s4_def]
  note 5 = sees_set(3) [OF 4 mem(2), of new, folded s5_def]
  note six = sees_set(4) [OF 5 mem(1), of a, folded s6_def]
  define h6 where "h6 = ?h0(new := \<lparr>blk_size = ?sz', blk_free = False, blk_next = nx, blk_prev = a\<rparr>,
    a := \<lparr>blk_size = n, blk_free = f, blk_next = new, blk_prev = last_start 0 xs\<rparr>)"
  have 6: "sees ?A s6 h6"
    using six na by (auto simp: h6_def h1_def ha fun_upd_twist sees_def)
  have 7: "sees ?A s7 (if nx \<noteq> 0 then h6(nx := (h6 nx)\<lparr>blk_prev := new\<rparr>) else h6)"
    using 6 sees_set(4) [OF 6 nx(1), of new] by (simp add: s7_def del: fun_upd_apply)
  note 8 = sees_set(2) [OF 7 mem(1), of True, folded s8_def]
  have rd: "blk_size (hdr s1 a) = sz" "blk_next (hdr s3 a) = nx" "blk_next (hdr s6 new) = nx"
    using seesD [OF 1 mem(2)] seesD [OF 3 mem(2)] seesD [OF 6 mem(1)] na
    by (simp_all add: h1_def h6_def ha nx_def)
  have run: "kheap_create_block a n s = s9"
    unfolding kheap_create_block_def Let_def new_def [symmetric] s1_def [symmetric] rd(1) s2_def [symmetric]
      s3_def [symmetric] rd(2) s4_def [symmetric] s5_def [symmetric] s6_def [symmetric] rd(3)
      s7_def [symmetric] s8_def [symmetric] s9_def [symmetric] ..
  let ?bs' = "xs @ Block a n f # Block new ?sz' True # ys"
  define h8 where "h8 = (if nx \<noteq> 0 then h6(nx := (h6 nx)\<lparr>blk_prev := new\<rparr>) else h6)"
  have 9: "sees ?A s9 (h8(new := (h8 new)\<lparr>blk_free := True\<rparr>))"
    by (rule sees_field [OF 8 [folded h8_def]]) (simp add: s9_def)
  have fields: "blockListStart s9 = blockListStart s"
    "blockListEnd s9 = (if a = blockListEnd s then new else blockListEnd s)"
    by (simp_all add: s9_def s8_def s7_def s6_def s5_def s4_def s3_def s2_def s1_def)
  show "heap_list L H ?bs' (kheap_create_block a n s)" unfolding run
  proof (rule heap_listI [OF 9])
    show "starts ?bs' \<subseteq> ?A" by (auto simp: starts_def)
    show "spread ?bs'" by (rule dj(1))
    show "block_ok L H b" if "b \<in> set ?bs'" for b
      using that ok split_block_ok [of L H a sz f n] lt np by (auto simp: new_def)
    show "blockListEnd s9 = last_start 0 ?bs'"
      using st(2) last_start_mem [of ys a] unfolding fields ends
      by (cases "ys = []") (auto simp: last_start_append last_start_def)
    show "chain (h8(new := (h8 new)\<lparr>blk_free := True\<rparr>)) 0 ?bs' 0"
      unfolding h8_def h6_def nx_def
      by (rule split_chain [OF ch spread_distinct [OF sp] new]) (use ok np start_nonzero in auto)
  qed (use np ends in \<open>simp_all add: fields first_append\<close>)
  have X: "header_bytes a \<subseteq> ?X" "header_bytes new \<subseteq> ?X"
    using header_in_extent [of "Block a sz f"] dj(3) by auto
  moreover have "header_bytes nx \<subseteq> ?X" if "nx \<noteq> 0" using that by (cases ys) (auto simp: nx_def heads_def)
  moreover have "touches ?X s s1"
    unfolding s1_def using X(2) by (intro touches_fill) (auto simp: header_bytes_def)
  ultimately show "touches ?X s (kheap_create_block a n s)"
    unfolding run s9_def s8_def s7_def s6_def s5_def s4_def s3_def s2_def by (simp add: touches_set)
qed

section \<open>Joining two adjacent blocks\<close>

lemma join_block_ok:
  assumes a: "block_ok L H (Block a sz f)" and c: "block_ok L H (Block (a + header_size + sz) szc g)"
  shows "unat (sz + (szc + header_size)) = unat sz + unat szc + 32"
    and "extent (Block a (sz + (szc + header_size)) k) =
      extent (Block a sz f) \<union> extent (Block (a + header_size + sz) szc g)"
    and "block_ok L H (Block a (sz + (szc + header_size)) k)"
proof -
  let ?o = "boot_proto_hhdm_offset L"
  have off: "unat (a - ?o) + 32 + unat sz \<le> 2 ^ 63"
    "unat (a + header_size + sz - ?o) + 32 + unat szc \<le> 2 ^ 63" using a c by (simp_all add: block_ok_def)
  have e: "a + header_size + sz - ?o = (a - ?o) + (header_size + sz)" by simp
  have u: "unat (header_size + sz) = 32 + unat sz" using off(1) by (simp add: unat_add_no_wrap)
  have "unat (a + header_size + sz - ?o) = unat (a - ?o) + (32 + unat sz)"
    unfolding e u [symmetric] using off(1) by (intro unat_add_no_wrap) (simp add: u)
  then have total: "unat (a - ?o) + 64 + unat sz + unat szc \<le> 2 ^ 63" using off(2) by linarith
  have uc: "unat (szc + header_size) = unat szc + 32" using total by (simp add: unat_add_no_wrap)
  then show us: "unat (sz + (szc + header_size)) = unat sz + unat szc + 32"
    using total by (subst unat_add_no_wrap) simp_all
  have rest: "sz + (szc + header_size) - (sz + header_size) = szc" by simp
  show ex: "extent (Block a (sz + (szc + header_size)) k) =
      extent (Block a sz f) \<union> extent (Block (a + header_size + sz) szc g)"
    using extent_split(1) [of sz "sz + (szc + header_size)" a k f g] total unfolding rest us by simp
  show "block_ok L H (Block a (sz + (szc + header_size)) k)"
    using a c total unfolding block_ok_def ex by (auto simp: us)
qed

lemma join_chain:
  fixes sz' :: u64
  assumes ch: "chain h p (xs @ Block a sz f # Block c szc g # ys) 0"
    and d: "distinct (map start (xs @ Block a sz f # Block c szc g # ys))"
    and nz: "\<And>b. b \<in> set ys \<Longrightarrow> start b \<noteq> 0"
  defines "nx \<equiv> first ys 0"
  defines "h1 \<equiv> h(a := (h a)\<lparr>blk_size := sz'\<rparr>)"
  defines "h2 \<equiv> (if nx \<noteq> 0 then h1(nx := (h1 nx)\<lparr>blk_prev := a\<rparr>) else h1)"
  shows "chain (h2(a := (h2 a)\<lparr>blk_next := nx\<rparr>)) p (xs @ Block a sz' f # ys) 0"
proof -
  have st: "a \<notin> start ` set xs" "a \<notin> start ` set ys" using d by auto
  show ?thesis
  proof (cases ys)
    case Nil
    then show ?thesis using ch st by (simp add: h2_def h1_def nx_def chain_append)
  next
    case (Cons b zs)
    then have "start b \<noteq> 0" "start b \<notin> start ` set xs" "start b \<notin> start ` set zs" "start b \<noteq> a"
      using nz d by auto
    then show ?thesis using ch st Cons by (simp add: h2_def h1_def nx_def chain_append)
  qed
qed

text \<open>The writes of both merges, with what they read.\<close>

definition join_blocks :: "u64 \<Rightarrow> u64 \<Rightarrow> u64 \<Rightarrow> u64 \<Rightarrow> kstate \<Rightarrow> kstate" where
  "join_blocks a c sz' nx s =
     (let s = (if c = blockListEnd s then s\<lparr>blockListEnd := a\<rparr> else s);
          s = set_size a sz' s;
          s = (if nx \<noteq> 0 then set_prev nx a s else s)
      in set_next a nx s)"

lemma join_blocks_touches:
  "touches (header_bytes a \<union> (if nx = 0 then {} else header_bytes nx)) s (join_blocks a c sz' nx s)"
  unfolding join_blocks_def Let_def by (auto intro!: touches_set)

lemma join_list:
  assumes hl: "heap_list L H (xs @ Block a sz f # Block c szc g # ys) s" and c: "c = a + header_size + sz"
  defines "s' \<equiv> join_blocks a c (sz + (szc + header_size)) (first ys 0) s"
  shows "heap_list L H (xs @ Block a (sz + (szc + header_size)) f # ys) s'"
    and "touches (heads (xs @ Block a sz f # Block c szc g # ys)) s s'"
proof -
  let ?A = "Block a sz f" and ?C = "Block c szc g" and ?sz' = "sz + (szc + header_size)"
  let ?bs = "xs @ ?A # ?C # ys" and ?bs' = "xs @ Block a ?sz' f # ys" and ?nx = "first ys 0"
  have sp: "spread ?bs" and ch: "chain (hdr s) 0 ?bs 0" and ok: "\<forall>b \<in> set ?bs. block_ok L H b"
    and np: "page_of L 0 \<notin> H" and ends: "blockListStart s = first ?bs 0" "blockListEnd s = last_start 0 ?bs"
    using hl unfolding heap_list_def by blast+
  note d = spread_distinct [OF sp]
  have okA: "block_ok L H ?A" and okC: "block_ok L H (Block (a + header_size + sz) szc g)"
    using ok by (simp_all add: c)
  note j = join_block_ok(1) [OF okA okC, folded c] join_block_ok(2,3) [OF okA okC, where k = f, folded c]
  define s1 where "s1 = (if c = blockListEnd s then s\<lparr>blockListEnd := a\<rparr> else s)"
  define s2 where "s2 = set_size a ?sz' s1"
  define s3 where "s3 = (if ?nx \<noteq> 0 then set_prev ?nx a s2 else s2)"
  have run: "s' = set_next a ?nx s3"
    by (simp add: s'_def join_blocks_def s1_def s2_def s3_def Let_def)
  have a: "a \<in> starts ?bs" and nx: "?nx \<noteq> 0 \<Longrightarrow> ?nx \<in> starts ?bs"
    by (auto simp: starts_def) (cases ys; auto)
  have "sees (starts ?bs) s1 (hdr s)" by (rule sees_field [OF heap_list_sees [OF hl]]) (simp add: s1_def)
  note 2 = sees_set(1) [OF this a, of ?sz', folded s2_def]
  let ?h2 = "(hdr s)(a := (hdr s a)\<lparr>blk_size := ?sz'\<rparr>)"
  have 3: "sees (starts ?bs) s3 (if ?nx \<noteq> 0 then ?h2(?nx := (?h2 ?nx)\<lparr>blk_prev := a\<rparr>) else ?h2)"
    using 2 sees_set(4) [OF 2 nx, of a] by (simp add: s3_def del: fun_upd_apply)
  note 4 = sees_set(3) [OF 3 a, of ?nx, folded run]
  have fields: "blockListStart s' = blockListStart s"
    "blockListEnd s' = (if c = blockListEnd s then a else blockListEnd s)"
    by (simp_all add: run s3_def s2_def s1_def)
  show "heap_list L H ?bs' s'"
  proof (rule heap_listI [OF 4])
    show "chain ((if ?nx \<noteq> 0 then ?h2(?nx := (?h2 ?nx)\<lparr>blk_prev := a\<rparr>) else ?h2)
        (a := ((if ?nx \<noteq> 0 then ?h2(?nx := (?h2 ?nx)\<lparr>blk_prev := a\<rparr>) else ?h2) a)\<lparr>blk_next := ?nx\<rparr>)) 0 ?bs' 0"
      by (rule join_chain [OF ch d]) (use ok np start_nonzero in auto)
    show "spread ?bs'"
      using sp unfolding spread_middle j(2) by (auto simp: Int_Un_distrib)
    show "block_ok L H b" if "b \<in> set ?bs'" for b using that ok j(3) by auto
    have "c \<notin> start ` set ys" using d by auto
    then show "blockListEnd s' = last_start 0 ?bs'"
      using last_start_mem [of ys c] unfolding fields ends
      by (cases "ys = []") (auto simp: last_start_append last_start_def)
  qed (use np ends in \<open>auto simp: fields first_append starts_def\<close>)
  have "header_bytes a \<subseteq> heads ?bs" "?nx \<noteq> 0 \<Longrightarrow> header_bytes ?nx \<subseteq> heads ?bs"
    by (auto simp: heads_def) (cases ys; auto)
  moreover have "touches (heads ?bs) s s1" by (simp add: s1_def)
  ultimately show "touches (heads ?bs) s s'"
    unfolding run s3_def s2_def by (simp add: touches_set)
qed

section \<open>The merges of \<^verbatim>\<open>kfree\<close>\<close>

definition in_use :: "heap_block list \<Rightarrow> heap_block set" where
  "in_use bs = {b \<in> set bs. \<not> available b}"

lemma in_use_simps [simp]:
  "in_use [] = {}" "in_use (xs @ ys) = in_use xs \<union> in_use ys"
  "in_use (Block a sz True # ys) = in_use ys" "in_use (Block a sz False # ys) = insert (Block a sz False) (in_use ys)"
  by (auto simp: in_use_def)

lemma heap_list_header:
  assumes "heap_list L H (xs @ Block a sz f # ys) s"
  shows "hdr s a = \<lparr>blk_size = sz, blk_free = f, blk_next = first ys 0, blk_prev = last_start 0 xs\<rparr>"
  using assms by (simp add: heap_list_def chain_append)

lemma heap_list_nonzero:
  assumes "heap_list L H bs s" and "b \<in> set bs"
  shows "start b \<noteq> 0"
  using assms start_nonzero by (auto simp: heap_list_def)

lemma hdr_end [simp]: "hdr (s\<lparr>blockListEnd := e\<rparr>) a = hdr s a"
  by simp

text \<open>The two fields that are read back after the size was written.\<close>

lemma hdr_set_size:
  assumes "sees A s h" and "a \<in> A" and "b \<in> A"
  shows "blk_next (hdr (set_size a v s) b) = blk_next (h b)"
    and "blk_prev (hdr (set_size a v s) b) = blk_prev (h b)"
  using seesD [OF sees_set(1) [OF assms(1,2)] assms(3)] by auto

lemma hdr_set_prev:
  assumes "sees A s h" and "a \<in> A" and "b \<in> A"
  shows "blk_next (hdr (set_prev a v s) b) = blk_next (h b)"
  using seesD [OF sees_set(4) [OF assms(1,2)] assms(3)] by auto

lemma merge_next_join:
  assumes hl: "heap_list L H (xs @ Block a sz f # Block c szc True # ys) s"
    and adj: "a + sz + header_size = c"
  shows "merge_next a s = join_blocks a c (sz + (szc + header_size)) (first ys 0) s"
proof -
  let ?bs = "xs @ Block a sz f # Block c szc True # ys"
  note ha = heap_list_header [OF hl] and hc = heap_list_header [of L H "xs @ [Block a sz f]" c szc True ys, simplified, OF hl]
  have cz: "c \<noteq> 0" using heap_list_nonzero [OF hl, of "Block c szc True"] by simp
  define s1 where "s1 = (if c = blockListEnd s then s\<lparr>blockListEnd := a\<rparr> else s)"
  have h1: "hdr s1 x = hdr s x" for x by (simp add: s1_def)
  have 1: "sees (starts ?bs) s1 (hdr s)" by (rule sees_field [OF heap_list_sees [OF hl]]) (simp add: s1_def)
  have in_A: "a \<in> starts ?bs" "c \<in> starts ?bs" "first ys 0 \<noteq> 0 \<Longrightarrow> first ys 0 \<in> starts ?bs"
    by (auto simp: starts_def) (cases ys; auto)
  define s2 where "s2 = set_size a (sz + (szc + header_size)) s1"
  have r2: "blk_next (hdr s2 a) = c" "blk_next (hdr s2 c) = first ys 0"
    using hdr_set_size(1) [OF 1 in_A(1)] in_A ha hc by (simp_all add: s2_def)
  note 2 = sees_set(1) [OF 1 in_A(1), of "sz + (szc + header_size)", folded s2_def]
  define s3 where "s3 = (if first ys 0 \<noteq> 0 then set_prev (first ys 0) a s2 else s2)"
  have r3: "blk_next (hdr s3 a) = c" "blk_next (hdr s3 c) = first ys 0"
    using hdr_set_prev [OF 2 in_A(3)] in_A r2 ha hc by (auto simp: s3_def)
  have cond: "blk_next (hdr s a) \<noteq> 0 \<and> blk_free (hdr s (blk_next (hdr s a)))
         \<and> a + blk_size (hdr s a) + header_size = blk_next (hdr s a)"
    using ha hc cz adj by simp
  have reads: "blk_next (hdr s a) = c" "blk_next (hdr s1 a) = c" "blk_size (hdr s1 a) = sz" "blk_size (hdr s1 c) = szc"
    using ha hc by (simp_all add: h1)
  show ?thesis
    unfolding merge_next_def join_blocks_def Let_def if_P [OF cond]
    unfolding reads(1) s1_def [symmetric] reads(2-4) s2_def [symmetric] r2 s3_def [symmetric] r3 ..
qed

lemma merge_prev_join:
  assumes hl: "heap_list L H (xs @ Block p szp True # Block a sz f # ys) s"
    and adj: "p + szp + header_size = a"
  shows "merge_prev a s = join_blocks p a (szp + (sz + header_size)) (first ys 0) s"
proof -
  let ?bs = "xs @ Block p szp True # Block a sz f # ys"
  note hp = heap_list_header [OF hl] and ha = heap_list_header [of L H "xs @ [Block p szp True]" a sz f ys, simplified, OF hl]
  have pz: "p \<noteq> 0" using heap_list_nonzero [OF hl, of "Block p szp True"] by simp
  define s1 where "s1 = (if a = blockListEnd s then s\<lparr>blockListEnd := p\<rparr> else s)"
  have h1: "hdr s1 x = hdr s x" for x by (simp add: s1_def)
  have 1: "sees (starts ?bs) s1 (hdr s)" by (rule sees_field [OF heap_list_sees [OF hl]]) (simp add: s1_def)
  have in_A: "p \<in> starts ?bs" "a \<in> starts ?bs" "first ys 0 \<noteq> 0 \<Longrightarrow> first ys 0 \<in> starts ?bs"
    by (auto simp: starts_def) (cases ys; auto)
  define s2 where "s2 = set_size p (szp + (sz + header_size)) s1"
  have r2: "blk_prev (hdr s2 a) = p" "blk_next (hdr s2 a) = first ys 0"
    using hdr_set_size [OF 1 in_A(1)] in_A ha by (simp_all add: s2_def)
  note 2 = sees_set(1) [OF 1 in_A(1), of "szp + (sz + header_size)", folded s2_def]
  define s3 where "s3 = (if first ys 0 \<noteq> 0 then set_prev (first ys 0) p s2 else s2)"
  have "first ys 0 \<noteq> a"
    using spread_distinct [of ?bs] hl pz heap_list_nonzero [OF hl, of "Block a sz f"]
    by (cases ys) (auto simp: heap_list_def)
  then have r3: "blk_prev (hdr s3 a) = p" "blk_next (hdr s3 a) = first ys 0"
    using hdr_set_prev [OF 2 in_A(3)] seesD [OF sees_set(4) [OF 2 in_A(3)] in_A(2)] seesD [OF 2 in_A(2)] in_A r2 ha
    by (auto simp: s3_def split: if_splits)
  have cond: "blk_prev (hdr s a) \<noteq> 0 \<and> blk_free (hdr s (blk_prev (hdr s a)))
         \<and> blk_prev (hdr s a) + blk_size (hdr s (blk_prev (hdr s a))) + header_size = a"
    using ha hp pz adj by simp
  have reads: "blk_prev (hdr s a) = p" "blk_prev (hdr s1 a) = p" "blk_size (hdr s1 a) = sz" "blk_size (hdr s1 p) = szp"
    using ha hp by (simp_all add: h1)
  show ?thesis
    unfolding merge_prev_def join_blocks_def Let_def if_P [OF cond]
    unfolding reads(1) s1_def [symmetric] reads(2-4) s2_def [symmetric] r2 s3_def [symmetric] r3 ..
qed

lemma heads_append [simp]: "heads (xs @ ys) = heads xs \<union> heads ys"
  and heads_Nil [simp]: "heads [] = {}"
  and heads_Cons [simp]: "heads (b # ys) = header_bytes (start b) \<union> heads ys"
  by (auto simp: heads_def)

text \<open>The merges as operations on the list.\<close>

fun join_next :: "heap_block list \<Rightarrow> heap_block list" where
  "join_next (Block a k f # Block c l g # ys) =
     (if g \<and> a + k + header_size = c then Block a (k + (l + header_size)) f # ys
      else Block a k f # Block c l g # ys)"
| "join_next bs = bs"

definition join_prev :: "heap_block list \<Rightarrow> heap_block list \<Rightarrow> heap_block list" where
  "join_prev xs ys = (if xs \<noteq> [] \<and> available (last xs) then butlast xs @ join_next (last xs # ys) else xs @ ys)"

lemma in_use_join_next [simp]: "in_use (join_next (Block a k True # ys)) = in_use ys"
  by (cases "Block a k True # ys" rule: join_next.cases) auto

lemma heads_join_next: "heads (join_next bs) \<subseteq> heads bs"
  by (cases bs rule: join_next.cases) auto

lemma join_next_first: "\<exists>k' ys'. join_next (Block a k f # ys) = Block a k' f # ys'"
  by (cases "Block a k f # ys" rule: join_next.cases) auto

lemma in_use_join_prev [simp]: "in_use (join_prev xs ys) = in_use (xs @ ys)"
proof (cases "xs \<noteq> [] \<and> available (last xs)")
  case True
  then obtain zs a k where "xs = zs @ [Block a k True]"
    by (cases xs rule: rev_cases; cases "last xs") auto
  then show ?thesis by (simp add: join_prev_def)
qed (auto simp: join_prev_def)

lemma merge_next_list:
  assumes hl: "heap_list L H (xs @ Block a sz f # ys) s"
  shows "heap_list L H (xs @ join_next (Block a sz f # ys)) (merge_next a s)"
    and "touches (heads (xs @ Block a sz f # ys)) s (merge_next a s)"
proof -
  note ha = heap_list_header [OF hl]
  have "heap_list L H (xs @ join_next (Block a sz f # ys)) (merge_next a s)
    \<and> touches (heads (xs @ Block a sz f # ys)) s (merge_next a s)"
  proof (cases "\<exists>c szc zs. ys = Block c szc True # zs \<and> a + sz + header_size = c")
    case True
    then obtain c szc zs where c: "ys = Block c szc True # zs" "a + sz + header_size = c" by blast
    have c': "c = a + header_size + sz" using c(2) by (simp add: ac_simps)
    note j = join_list [OF hl [unfolded c(1)] c'] and m = merge_next_join [OF hl [unfolded c(1)] c(2)]
    show ?thesis using j c by (simp add: m [symmetric])
  next
    case False
    have "merge_next a s = s \<and> join_next (Block a sz f # ys) = Block a sz f # ys"
    proof (cases ys)
      case Nil
      then show ?thesis using ha by (simp add: merge_next_def)
    next
      case (Cons b zs)
      obtain c szc g where b: "b = Block c szc g" by (cases b)
      have "hdr s c = \<lparr>blk_size = szc, blk_free = g, blk_next = first zs 0, blk_prev = a\<rparr>"
        using heap_list_header [of L H "xs @ [Block a sz f]" c szc g zs] hl Cons b by simp
      then show ?thesis using ha False Cons b by (auto simp: merge_next_def)
    qed
    then show ?thesis using hl by simp
  qed
  then show "heap_list L H (xs @ join_next (Block a sz f # ys)) (merge_next a s)"
    "touches (heads (xs @ Block a sz f # ys)) s (merge_next a s)" by simp_all
qed

text \<open>The header of the block that was merged away still says that it is free.\<close>

lemma merge_prev_list:
  assumes hl: "heap_list L H (xs @ Block a sz True # ys) s"
  shows "heap_list L H (join_prev xs (Block a sz True # ys)) (merge_prev a s)"
    and "touches (heads (xs @ Block a sz True # ys)) s (merge_prev a s)"
    and "mem (merge_prev a s) (a + 8) = mem s (a + 8)"
proof -
  note ha = heap_list_header [OF hl]
  have "heap_list L H (join_prev xs (Block a sz True # ys)) (merge_prev a s)
    \<and> touches (heads (xs @ Block a sz True # ys)) s (merge_prev a s)
    \<and> mem (merge_prev a s) (a + 8) = mem s (a + 8)"
  proof (cases "\<exists>p szp zs. xs = zs @ [Block p szp True] \<and> p + szp + header_size = a")
    case True
    then obtain p szp zs where p: "xs = zs @ [Block p szp True]" "p + szp + header_size = a" by blast
    have a: "a = p + header_size + szp" using p(2) by (simp add: ac_simps)
    have hl': "heap_list L H (zs @ Block p szp True # Block a sz True # ys) s" using hl p(1) by simp
    note j = join_list [OF hl' a] and m = merge_prev_join [OF hl' p(2)]
    have "join_prev xs (Block a sz True # ys) = zs @ Block p (szp + (sz + header_size)) True # ys"
      using p by (simp add: join_prev_def)
    moreover have "mem (merge_prev a s) (a + 8) = mem s (a + 8)"
    proof -
      have sp: "spread (zs @ Block p szp True # Block a sz True # ys)" using hl' by (simp add: heap_list_def)
      have at: "a + 8 \<in> header_bytes a" by (simp add: header_bytes_def in_rng_def)
      then have "a + 8 \<in> extent (Block a sz True)" using header_in_extent [of "Block a sz True"] by auto
      then have out: "a + 8 \<notin> header_bytes (start b)" if "b \<in> insert (Block p szp True) (set ys)" for b
        using that sp header_in_extent [of b] unfolding spread_middle by auto
      have "a + 8 \<notin> header_bytes p" using out [of "Block p szp True"] by simp
      moreover have "a + 8 \<notin> header_bytes (first ys 0)" if "first ys 0 \<noteq> 0"
        using that out by (cases ys) auto
      ultimately show ?thesis
        using join_blocks_touches [of p "first ys 0" s a] by (auto simp: m touches_def split: if_splits)
    qed
    ultimately show ?thesis using j p(1) by (simp add: m [symmetric] Un_assoc)
  next
    case False
    have "merge_prev a s = s \<and> join_prev xs (Block a sz True # ys) = xs @ Block a sz True # ys"
    proof (cases xs rule: rev_cases)
      case Nil
      then show ?thesis using ha by (simp add: merge_prev_def join_prev_def)
    next
      case (snoc zs b)
      obtain p szp g where b: "b = Block p szp g" by (cases b)
      have "hdr s p = \<lparr>blk_size = szp, blk_free = g, blk_next = a, blk_prev = last_start 0 zs\<rparr>"
        using heap_list_header [of L H zs p szp g "Block a sz True # ys"] hl snoc b by simp
      then show ?thesis using ha False snoc b by (auto simp: merge_prev_def join_prev_def)
    qed
    then show ?thesis using hl by simp
  qed
  then show "heap_list L H (join_prev xs (Block a sz True # ys)) (merge_prev a s)"
    "touches (heads (xs @ Block a sz True # ys)) s (merge_prev a s)"
    "mem (merge_prev a s) (a + 8) = mem s (a + 8)" by simp_all
qed

section \<open>Releasing\<close>

text \<open>Poisoning: bytes of the payload of one block only.\<close>

lemma fill_payload_list:
  assumes hl: "heap_list L H (xs @ Block a sz f # ys) s" and n: "unat n \<le> unat sz"
  shows "heap_list L H (xs @ Block a sz f # ys) (fill (a + header_size) c n s)"
    and "touches (payload (Block a sz f)) s (fill (a + header_size) c n s)"
proof -
  let ?B = "Block a sz f" and ?bs = "xs @ Block a sz f # ys"
  have sp: "spread ?bs" and ok: "block_ok L H ?B" using hl by (simp_all add: heap_list_def)
  note sz = block_ok_size [OF ok]
  have pl: "x \<in> payload ?B" if "in_rng (a + header_size) (unat n) x" for x
    using in_rng_mono [OF that n] by (simp add: payload_def)
  have "\<not> in_rng (a + header_size) (unat n) x" if "b \<in> starts ?bs" "x \<in> header_bytes b" for b x
  proof (cases "b = a")
    case True
    then show ?thesis using payload_in_extent(2) [OF sz] that(2) pl by auto
  next
    case False
    then have "b \<in> start ` set (xs @ ys)" using that(1) by (auto simp: starts_def)
    then obtain d where "d \<in> set (xs @ ys)" "b = start d" by blast
    then have "extent d \<inter> extent ?B = {}" "header_bytes b \<subseteq> extent d"
      using sp header_in_extent unfolding spread_middle by blast+
    then show ?thesis using payload_in_extent(1) [OF sz] that(2) pl by blast
  qed
  then have "sees (starts ?bs) (fill (a + header_size) c n s) (hdr s)"
    by (intro sees_fill [OF heap_list_sees [OF hl]]) blast
  then show "heap_list L H ?bs (fill (a + header_size) c n s)"
    by (rule heap_listI) (use hl in \<open>auto simp: heap_list_def\<close>)
  show "touches (payload ?B) s (fill (a + header_size) c n s)"
    by (intro touches_fill touches_refl) (rule pl)
qed

definition release_between :: "heap_block list \<Rightarrow> heap_block \<Rightarrow> heap_block list \<Rightarrow> heap_block list" where
  "release_between xs b ys = join_prev xs (join_next (Block (start b) (capacity b) True # ys))"

lemma in_use_release_between [simp]: "in_use (release_between xs b ys) = in_use (xs @ ys)"
  by (simp add: release_between_def)

definition release_block :: "u64 \<Rightarrow> heap_block list \<Rightarrow> heap_block list" where
  "release_block p bs =
     (case dropWhile (\<lambda>b. start b + header_size \<noteq> p) bs of
        [] \<Rightarrow> bs
      | b # ys \<Rightarrow> release_between (takeWhile (\<lambda>b. start b + header_size \<noteq> p) bs) b ys)"

lemma release_block_at:
  assumes "spread (xs @ Block a k f # ys)"
  shows "release_block (a + header_size) (xs @ Block a k f # ys) = release_between xs (Block a k f) ys"
proof -
  have "start b + header_size \<noteq> a + header_size" if "b \<in> set xs" for b
    using that starts_middle [OF assms] by auto
  then have "takeWhile (\<lambda>b. start b + header_size \<noteq> a + header_size) (xs @ Block a k f # ys) = xs"
      "dropWhile (\<lambda>b. start b + header_size \<noteq> a + header_size) (xs @ Block a k f # ys) = Block a k f # ys"
    by (subst takeWhile_append2 dropWhile_append2; simp)+
  then show ?thesis by (simp add: release_block_def)
qed

lemma kfree_list:
  assumes hl: "heap_list L H (xs @ Block a sz False # ys) s"
  shows "\<exists>s'. kfree (a + header_size) s = Inr s'
    \<and> heap_list L H (release_between xs (Block a sz False) ys) s'
    \<and> touches (heads (xs @ Block a sz False # ys) \<union> payload (Block a sz False)) s s'
    \<and> (\<forall>x. x \<in> payload (Block a sz False) \<longrightarrow> x \<notin> heads (xs @ Block a sz False # ys) \<longrightarrow> mem s' x = 0xff)
    \<and> blk_free (hdr s' a)"
proof -
  let ?bs = "xs @ Block a sz False # ys" and ?X = "heads (xs @ Block a sz False # ys)"
  have ok: "block_ok L H (Block a sz False)" and np: "page_of L 0 \<notin> H" using hl by (simp_all add: heap_list_def)
  have nz: "a + header_size \<noteq> 0" using ok by (simp add: block_ok_def)
  note ha = heap_list_header [OF hl]
  define s1 where "s1 = set_free a True s"
  note 1 = set_free_list [OF hl, of True, folded s1_def]
  have r1: "blk_size (hdr s1 a) = sz" using heap_list_header [OF 1(1)] by simp
  define s2 where "s2 = fill (a + header_size) 0xFF sz s1"
  note 2 = fill_payload_list [OF 1(1) order_refl, of "0xFF", folded s2_def]
  obtain sz' ys' where j: "join_next (Block a sz True # ys) = Block a sz' True # ys'"
    using join_next_first by blast
  note 3 = merge_next_list [OF 2(1), unfolded j]
  note 4 = merge_prev_list [OF 3(1)]
  have "blk_free (hdr (merge_next a s2) a)" using heap_list_header [OF 3(1)] by simp
  then have flag: "blk_free (hdr (merge_prev a (merge_next a s2)) a)" using 4(3) by (simp add: header_at_def)
  have sub: "heads (xs @ Block a sz' True # ys') \<subseteq> ?X"
    using heads_join_next [of "Block a sz True # ys"] by (auto simp: j)
  have run: "kfree (a + header_size) s = Inr (merge_prev a (merge_next a s2))"
    using nz ha r1 by (simp add: kfree_def s2_def s1_def Let_def)
  let ?Y = "?X \<union> payload (Block a sz False)"
  have "touches ?Y s s1" "touches ?Y (merge_next a s2) (merge_prev a (merge_next a s2))"
    by (rule touches_mono [OF 1(2)], simp) (rule touches_mono [OF 4(2)], use sub in blast)
  moreover have "touches ?Y s1 s2"
    by (rule touches_mono [OF 2(2)]) (simp add: payload_def)
  moreover have "touches ?Y s2 (merge_next a s2)"
    by (rule touches_mono [OF 3(2)]) simp
  ultimately have t: "touches ?Y s (merge_prev a (merge_next a s2))" by (blast intro: touches_trans)
  have "mem s2 x = 0xff" if "x \<in> payload (Block a sz False)" for x
    using that by (simp add: s2_def fill_def memset_apply payload_def)
  moreover have "touches ?X s2 (merge_prev a (merge_next a s2))"
    using 3(2) touches_mono [OF 4(2) sub] by (simp add: touches_def)
  ultimately show ?thesis using run 4(1) t flag by (auto simp: touches_def release_between_def j)
qed

end
