(* ===== verification/Heap_Alloc.thy ===== *)
theory Heap_Alloc
  imports Heap_Ops Slots
begin

text \<open>
  \<^verbatim>\<open>kmalloc\<close>: the search of the list, the extension of the heap by pages of the page-frame
  allocator, and both together, which always returns.
\<close>

section \<open>The search\<close>

definition fits :: "u64 \<Rightarrow> heap_block \<Rightarrow> bool" where
  "fits n b \<longleftrightarrow> available b \<and> unat n \<le> unat (capacity b)"

definition take_block :: "u64 \<Rightarrow> heap_block \<Rightarrow> kstate \<Rightarrow> kstate" where
  "take_block n b s =
     (if unat (capacity b) \<le> unat n + 32 then set_free (start b) False s
      else set_free (start b) False (kheap_create_block (start b) n s))"

lemma unat_plus_header: "unat n + 32 < 2 ^ 64 \<Longrightarrow> unat (n + header_size) = unat n + 32"
  by (simp add: unat_add_no_wrap)

lemma kmalloc_scan_none:
  "chain (hdr s) p bs 0 \<Longrightarrow> (\<And>b. b \<in> set bs \<Longrightarrow> start b \<noteq> 0 \<and> \<not> fits n b) \<Longrightarrow>
   kmalloc_scan n (first bs 0) s = Some None"
proof (induction bs arbitrary: p)
  case Nil
  then show ?case by (simp add: kmalloc_scan.simps)
next
  case (Cons b bs)
  have h: "hdr s (start b) = \<lparr>blk_size = capacity b, blk_free = available b, blk_next = first bs 0, blk_prev = p\<rparr>"
    "chain (hdr s) (start b) bs 0" using Cons.prems(1) by simp_all
  have "start b \<noteq> 0" "\<not> blk_free (hdr s (start b)) \<or> blk_size (hdr s (start b)) < n"
    using Cons.prems(2) [of b] by (auto simp: h(1) fits_def word_less_nat_alt)
  then have "kmalloc_scan n (start b) s = kmalloc_scan n (first bs 0) s"
    by (subst kmalloc_scan.simps) (auto simp: h(1))
  then show ?case using Cons.IH [OF h(2)] Cons.prems(2) by simp
qed

lemma kmalloc_scan_hit:
  assumes n: "unat n + 32 < 2 ^ 64"
  shows "chain (hdr s) p (xs @ b # ys) 0 \<Longrightarrow> (\<And>c. c \<in> set xs \<Longrightarrow> start c \<noteq> 0 \<and> \<not> fits n c) \<Longrightarrow>
   start b \<noteq> 0 \<Longrightarrow> fits n b \<Longrightarrow>
   kmalloc_scan n (first (xs @ b # ys) 0) s = Some (Some (start b + header_size, take_block n b s))"
proof (induction xs arbitrary: p)
  case Nil
  have h: "blk_size (hdr s (start b)) = capacity b" "blk_free (hdr s (start b))"
    using Nil.prems(1,4) by (simp_all add: fits_def)
  have "n \<le> capacity b" using Nil.prems(4) by (simp add: fits_def word_le_nat_alt)
  moreover have "capacity b \<le> n + header_size \<longleftrightarrow> unat (capacity b) \<le> unat n + 32"
    by (simp only: word_le_nat_alt unat_plus_header [OF n])
  ultimately show ?case
    using Nil.prems(3) h by (subst append_Nil, subst first_simps, subst kmalloc_scan.simps) (auto simp: take_block_def)
next
  case (Cons c xs)
  have h: "hdr s (start c) = \<lparr>blk_size = capacity c, blk_free = available c, blk_next = first (xs @ b # ys) 0, blk_prev = p\<rparr>"
    "chain (hdr s) (start c) (xs @ b # ys) 0" using Cons.prems(1) by simp_all
  have "start c \<noteq> 0" "\<not> blk_free (hdr s (start c)) \<or> blk_size (hdr s (start c)) < n"
    using Cons.prems(2) [of c] by (auto simp: h(1) fits_def word_less_nat_alt)
  then have "kmalloc_scan n (start c) s = kmalloc_scan n (first (xs @ b # ys) 0) s"
    by (subst kmalloc_scan.simps) (auto simp: h(1))
  then show ?case using Cons.IH [OF h(2)] Cons.prems(2-4) by simp
qed

text \<open>The list after a block was taken.\<close>

definition carve :: "u64 \<Rightarrow> heap_block \<Rightarrow> heap_block list" where
  "carve n b =
     (if unat (capacity b) \<le> unat n + 32 then [Block (start b) (capacity b) False]
      else [Block (start b) n False,
            Block (start b + header_size + n) (capacity b - (n + header_size)) True])"

definition carved :: "u64 \<Rightarrow> heap_block \<Rightarrow> heap_block" where
  "carved n b = hd (carve n b)"

lemma in_use_carve [simp]: "in_use (carve n b) = {carved n b}"
  by (simp add: carve_def carved_def)

lemma carved_simps [simp]: "start (carved n b) = start b" "available (carved n b) = False"
  by (simp_all add: carve_def carved_def)

lemma carved_size: "fits n b \<Longrightarrow> unat n \<le> unat (capacity (carved n b)) \<and> unat (capacity (carved n b)) \<le> unat n + 32"
  by (simp add: carve_def carved_def fits_def)

lemma take_block_list:
  assumes hl: "heap_list L H (xs @ Block a sz True # ys) s" and fit: "unat n \<le> unat sz"
  shows "heap_list L H (xs @ carve n (Block a sz True) @ ys) (take_block n (Block a sz True) s)"
    and "touches (heads (xs @ ys) \<union> extent (Block a sz True)) s (take_block n (Block a sz True) s)"
proof -
  let ?B = "Block a sz True" and ?t = "take_block n (Block a sz True) s"
  have "heap_list L H (xs @ carve n ?B @ ys) ?t \<and> touches (heads (xs @ ys) \<union> extent ?B) s ?t"
  proof (cases "unat sz \<le> unat n + 32")
    case True
    have "header_bytes a \<subseteq> extent ?B" using header_in_extent [of ?B] by simp
    then have "touches (heads (xs @ ys) \<union> extent ?B) s (set_free a False s)"
      by (intro touches_mono [OF set_free_list(2) [OF hl]]) auto
    moreover have "?t = set_free a False s" using True by (simp add: take_block_def)
    ultimately show ?thesis using set_free_list(1) [OF hl, of False] True by (simp add: carve_def)
  next
    case False
    let ?N = "Block (a + header_size + n) (sz - (n + header_size)) True"
    note c = create_block_list [OF hl, of n]
    have lt: "unat n + 32 < unat sz" using False by simp
    note f = set_free_list [OF c(1) [OF lt], of False]
    have sz: "32 + unat sz < 2 ^ 64" using hl block_ok_size [of L H ?B] by (simp add: heap_list_def)
    have "extent ?B = extent (Block a n True) \<union> extent ?N"
      using extent_split(1) [of n sz a True True True] lt sz by simp
    then have "header_bytes a \<union> header_bytes (a + header_size + n) \<subseteq> extent ?B"
      using header_in_extent [of "Block a n True"] header_in_extent [of ?N] by auto
    then have "touches (heads (xs @ ys) \<union> extent ?B) (kheap_create_block a n s)
        (set_free a False (kheap_create_block a n s))"
      by (intro touches_mono [OF f(2)]) auto
    then have "touches (heads (xs @ ys) \<union> extent ?B) s (set_free a False (kheap_create_block a n s))"
      using c(2) [OF lt] by (blast intro: touches_trans)
    moreover have "?t = set_free a False (kheap_create_block a n s)" using False by (simp add: take_block_def)
    ultimately show ?thesis using f(1) False by (simp add: carve_def)
  qed
  then show "heap_list L H (xs @ carve n ?B @ ys) ?t" "touches (heads (xs @ ys) \<union> extent ?B) s ?t" by simp_all
qed

text \<open>Allocation on the list: the first block that fits, or none.\<close>

fun first_fit :: "u64 \<Rightarrow> heap_block list \<Rightarrow> (u64 \<times> heap_block list) option" where
  "first_fit n [] = None"
| "first_fit n (b # bs) =
     (if fits n b then Some (start b + header_size, carve n b @ bs)
      else map_option (map_prod id (Cons b)) (first_fit n bs))"

lemma first_fit_None: "first_fit n bs = None \<longleftrightarrow> (\<forall>b \<in> set bs. \<not> fits n b)"
  by (induction bs) auto

lemma first_fit_append:
  "(\<And>c. c \<in> set xs \<Longrightarrow> \<not> fits n c) \<Longrightarrow>
   first_fit n (xs @ ys) = map_option (map_prod id ((@) xs)) (first_fit n ys)"
  by (induction xs) (auto simp: option.map_comp map_prod.comp comp_def map_prod_def split_def option.map_ident
      intro!: option.map_cong)

section \<open>The invariant\<close>

text \<open>
  The list lies in the pages \<open>H\<close>, which the allocator manages (\<open>M\<close>) and which are not free. No
  managed page is at the virtual address 0.
\<close>

definition heap_ok :: "limine \<Rightarrow> nat set \<Rightarrow> nat set \<Rightarrow> heap_block list \<Rightarrow> kstate \<Rightarrow> bool" where
  "heap_ok L M H bs s \<longleftrightarrow> pmm_ready L M s \<and> npages s \<le> 2 ^ 51 \<and> page_of L 0 \<notin> M
     \<and> H \<subseteq> M \<and> H \<inter> free_pages s = {} \<and> heap_list L H bs s"

lemma block_pages: "heap_list L H bs s \<Longrightarrow> b \<in> set bs \<Longrightarrow> x \<in> extent b \<Longrightarrow> page_of L x \<in> H"
  by (auto simp: heap_list_def block_ok_def)

lemma heads_pages:
  assumes "heap_list L H bs s" and "x \<in> heads bs"
  shows "page_of L x \<in> H"
  using assms header_in_extent block_pages by (fastforce simp: heads_def)

text \<open>An operation that writes heap pages only keeps the rest of the invariant.\<close>

lemma heap_ok_list:
  assumes ok: "heap_ok L M H bs s" and hl: "heap_list L H bs' s'"
    and t: "touches X s s'" and X: "\<And>x. x \<in> X \<Longrightarrow> page_of L x \<in> H"
    and same: "bitmap s' = bitmap s" "bitmapSize s' = bitmapSize s"
  shows "heap_ok L M H bs' s'" and "free_pages s' = free_pages s"
proof -
  have bm: "mem s' x = mem s x" if "in_rng (bitmap s) (unat (bitmapSize s)) x" for x
  proof -
    have "page_of L x \<notin> H" using ok that by (auto simp: heap_ok_def pmm_ready_def)
    then show ?thesis using t X by (auto simp: touches_def)
  qed
  note o = pmm_ready_other [OF same bm]
  show "free_pages s' = free_pages s" by (rule o(1))
  then show "heap_ok L M H bs' s'"
    using ok hl o(2) same by (simp add: heap_ok_def npages_def)
qed

section \<open>Extending the heap\<close>

definition extend_pages :: "u64 \<Rightarrow> nat" where
  "extend_pages n = (unat n + 32 + 4095) div 4096"

lemma extend_size:
  assumes "unat n \<le> 2 ^ 30"
  defines "sz \<equiv> (if (n + header_size) mod PAGE_SIZE \<noteq> 0 then ALIGN_UP (n + header_size) PAGE_SIZE else n + header_size)"
  shows "unat sz = extend_pages n * 4096" and "sint (ucast (sz div PAGE_SIZE) :: cint) = int (extend_pages n)"
    and "small_request (ucast (sz div PAGE_SIZE))" and "0 < extend_pages n" and "extend_pages n < 2 ^ 19"
    and "unat n + 32 \<le> extend_pages n * 4096"
proof -
  have un: "unat (n + header_size) = unat n + 32" using assms(1) by (simp add: unat_plus_header)
  have "sz = ALIGN_UP (n + header_size) PAGE_SIZE" by (simp add: sz_def ALIGN_UP_def)
  moreover have "unat (ALIGN_UP (n + header_size) PAGE_SIZE) = extend_pages n * 4096"
    using ALIGN_UP_nat [of PAGE_SIZE "n + header_size"] assms(1) by (simp add: un extend_pages_def)
  ultimately show u: "unat sz = extend_pages n * 4096" by simp
  show k: "0 < extend_pages n" "extend_pages n < 2 ^ 19" using assms(1) by (simp_all add: extend_pages_def)
  have "(ucast (sz div PAGE_SIZE) :: cint) = of_nat (unat (sz div PAGE_SIZE))" by (simp only: of_nat_unat)
  also have "unat (sz div PAGE_SIZE) = extend_pages n" by (simp add: unat_div u)
  finally have "(ucast (sz div PAGE_SIZE) :: cint) = of_nat (extend_pages n)" .
  moreover have "sint (of_nat (extend_pages n) :: cint) = int (extend_pages n)"
  proof -
    have "sint (of_nat (extend_pages n) :: cint) = signed_take_bit 31 (int (extend_pages n))"
      by (simp add: signed_of_nat)
    also have "\<dots> = int (extend_pages n)" using k(2) by (intro signed_take_bit_int_eq_self) simp_all
    finally show ?thesis .
  qed
  ultimately show si: "sint (ucast (sz div PAGE_SIZE) :: cint) = int (extend_pages n)" by simp
  show "small_request (ucast (sz div PAGE_SIZE))" using k by (simp add: small_request_def si)
  have "unat n + 32 \<le> (unat n + 32 + 4095) div 4096 * 4096" by linarith
  then show "unat n + 32 \<le> extend_pages n * 4096" by (simp add: extend_pages_def)
qed

text \<open>The pages of an allocation, through the direct map.\<close>

lemma heap_pages:
  assumes ready: "pmm_ready L M s" and np: "npages s \<le> 2 ^ 51"
    and small: "small_request pages" and k: "sint pages = int k"
  shows "case pmm_alloc pages s of
      Inl e \<Rightarrow> e = Halted (con s @ oom_message) \<and> (\<forall>b. \<not> {b..<b + k} \<subseteq> free_pages s)
    | Inr (a, s1) \<Rightarrow> \<exists>q. a + boot_proto_hhdm_offset L = page_addr L q \<and> q + k \<le> 2 ^ 51
        \<and> {q..<q + k} \<subseteq> free_pages s \<and> free_pages s1 = free_pages s - {q..<q + k}
        \<and> pmm_ready L M s1 \<and> s1 = s\<lparr>mem := mem s1\<rparr>
        \<and> (\<forall>x. \<not> in_rng (bitmap s) (unat (bitmapSize s)) x \<longrightarrow> mem s1 x = mem s x)
        \<and> (\<forall>x. in_rng (page_addr L q) (k * 4096) x \<longleftrightarrow> page_of L x \<in> {q..<q + k})"
proof -
  have wf: "pmm_wf s" and pos: "0 < sint pages" using ready small by (simp_all add: pmm_ready_def small_request_def)
  note spec = pmm_alloc_spec [OF pos wf, unfolded k nat_int]
  show ?thesis
  proof (cases "pmm_alloc pages s")
    case (Inl e)
    then show ?thesis using spec by (simp add: free_run_def)
  next
    case (Inr r)
    obtain a s1 where r: "r = (a, s1)" by (cases r)
    obtain q where q: "a = of_nat (q * 4096)" "q + k \<le> npages s" "free_run s q k"
      and now: "bitmap_now s (\<lambda>p. (q \<le> p \<and> p < q + k) \<or> page_used s p) s1"
      using spec Inr r by auto
    have qk: "q + k \<le> 2 ^ 51" "q < 2 ^ 52" using q(2) np by simp_all
    note law = pmm_alloc_law [OF ready small, of a s1, unfolded q(1) frames_of_page(3) [OF qk(2)] k nat_int]
    have "\<forall>x. in_rng (page_addr L q) (k * 4096) x \<longleftrightarrow> page_of L x \<in> {q..<q + k}"
      using in_rng_pages [of q k L] qk by (simp add: page_addr_def del: of_nat_mult)
    moreover have "a + boot_proto_hhdm_offset L = page_addr L q" by (simp only: q(1) page_addr_def)
    ultimately show ?thesis
      using Inr r law q(1,3) qk(1) bitmap_now_fields(5) [OF now] bitmap_now_frame [OF now]
      by (auto simp: free_run_def intro!: exI [of _ q])
  qed
qed

lemma new_block:
  assumes in_pages: "\<And>x. in_rng (page_addr L q) (k * 4096) x \<longleftrightarrow> page_of L x \<in> {q..<q + k}"
    and qk: "q + k \<le> 2 ^ 51" and k: "0 < k" and np: "page_of L 0 \<notin> {q..<q + k}" and sz: "unat sz = k * 4096 - 32"
  shows "extent (Block (page_addr L q) sz f) = {x. page_of L x \<in> {q..<q + k}}"
    and "{q..<q + k} \<subseteq> H \<Longrightarrow> block_ok L H (Block (page_addr L q) sz f)"
proof -
  let ?B = "Block (page_addr L q) sz f"
  have "32 + unat sz = k * 4096" using k by (simp add: sz)
  then show ex: "extent ?B = {x. page_of L x \<in> {q..<q + k}}" by (simp add: extent_def in_pages)
  have "start ?B + header_size \<in> extent ?B"
    unfolding extent_def mem_Collect_eq in_rng_word_offset using k by (simp add: sz)
  then have "start ?B + header_size \<noteq> 0" using np unfolding ex by (metis mem_Collect_eq)
  moreover have "unat (page_addr L q - boot_proto_hhdm_offset L) = q * 4096"
    using frames_of_page(1) [of q] qk k by (simp add: page_addr_def del: of_nat_mult)
  ultimately show "block_ok L H ?B" if "{q..<q + k} \<subseteq> H"
    using that qk k unfolding block_ok_def ex by (auto simp: sz)
qed

text \<open>The list depends on the headers only, and on the set of pages monotonically.\<close>

lemma heap_list_frame:
  assumes hl: "heap_list L H bs s" and same: "\<And>x. x \<in> heads bs \<Longrightarrow> mem s' x = mem s x"
    and ends: "blockListStart s' = blockListStart s" "blockListEnd s' = blockListEnd s"
  shows "heap_list L H bs s'"
proof -
  have "chain (hdr s') 0 bs 0 = chain (hdr s) 0 bs 0"
    by (intro chain_cong header_at_cong same) (auto simp: heads_def)
  then show ?thesis using hl ends by (simp add: heap_list_def)
qed

lemma heap_list_mono:
  assumes "heap_list L H bs s" and "H \<subseteq> H'" and "page_of L 0 \<notin> H'"
  shows "heap_list L H' bs s"
  using assms by (auto simp: heap_list_def block_ok_def)

text \<open>Linking a new block behind the last one.\<close>

definition append_block :: "u64 \<Rightarrow> u64 \<Rightarrow> kstate \<Rightarrow> kstate" where
  "append_block new sz s =
     (let s = set_size new sz s;
          s = set_free new True s;
          s = set_prev new (blockListEnd s) s;
          s = set_next (blockListEnd s) new s;
          s = s\<lparr>blockListEnd := new\<rparr>
      in set_next new 0 s)"

lemma append_list:
  assumes hl: "heap_list L H bs s" and new: "block_ok L H (Block new sz True)"
    and dj: "\<And>c. c \<in> set bs \<Longrightarrow> extent c \<inter> extent (Block new sz True) = {}"
  shows "heap_list L H (bs @ [Block new sz True]) (append_block new sz s)"
    and "touches (heads (bs @ [Block new sz True])) s (append_block new sz s)"
proof -
  let ?N = "Block new sz True" and ?A = "insert new (starts bs)"
  obtain zs b where bs: "bs = zs @ [b]" using hl by (cases bs rule: rev_cases) (auto simp: heap_list_def)
  have e: "blockListEnd s = start b" "blockListStart s = first bs 0" "chain (hdr s) 0 bs 0" "spread bs"
    using hl by (simp_all add: heap_list_def bs)
  have hd: "header_bytes c \<inter> header_bytes new = {}" if c: "c \<in> starts bs" for c
  proof -
    obtain d where "d \<in> set bs" "c = start d" using c by (auto simp: starts_def)
    then show ?thesis using dj header_in_extent [of d] header_in_extent [of ?N] by fastforce
  qed
  then have out: "new \<notin> starts bs" using start_in_header by blast
  have 0: "sees ?A s (hdr s)" using heap_list_sees [OF hl] hd by (auto simp: sees_def separate_def)
  have inA: "new \<in> ?A" "start b \<in> ?A" by (simp_all add: bs starts_def)
  note 1 = sees_set(1) [OF 0 inA(1), of sz]
  note 2 = sees_set(2) [OF 1 inA(1), of True]
  note 3 = sees_set(4) [OF 2 inA(1), of "start b"]
  note 4 = sees_set(3) [OF 3 inA(2), of new]
  define s5 where "s5 = (set_next (start b) new (set_prev new (start b) (set_free new True (set_size new sz s))))\<lparr>blockListEnd := new\<rparr>"
  have "mem s5 = mem (set_next (start b) new (set_prev new (start b) (set_free new True (set_size new sz s))))"
    by (simp add: s5_def)
  note 5 = sees_field [OF 4 this]
  note 6 = sees_set(3) [OF 5 inA(1), of 0]
  have run: "append_block new sz s = set_next new 0 s5"
    by (simp add: append_block_def Let_def s5_def e(1))
  have nb: "new \<noteq> start b" "new \<notin> start ` set zs" "start b \<notin> start ` set zs"
    using out spread_distinct [OF e(4)] by (auto simp: bs starts_def)
  show "heap_list L H (bs @ [?N]) (append_block new sz s)" unfolding run
  proof (rule heap_listI [OF 6])
    show "spread (bs @ [?N])" using e(4) dj by auto
    show "block_ok L H c" if "c \<in> set (bs @ [?N])" for c using that hl new by (auto simp: heap_list_def)
  qed (use hl e nb in \<open>auto simp: heap_list_def starts_def bs s5_def chain_append first_append last_start_append\<close>)
  have "header_bytes new \<subseteq> heads (bs @ [?N])" "header_bytes (start b) \<subseteq> heads (bs @ [?N])"
    by (auto simp: bs)
  then show "touches (heads (bs @ [?N])) s (append_block new sz s)"
    unfolding run s5_def by (simp add: touches_set)
qed

section \<open>The new block\<close>

lemma kheap_extend_spec:
  assumes ok: "heap_ok L M H bs s" and n: "unat n \<le> 2 ^ 30"
  defines "k \<equiv> extend_pages n"
  shows "case kheap_extend L n s of
      Inl e \<Rightarrow> e = Halted (con s @ oom_message) \<and> (\<forall>b. \<not> {b..<b + k} \<subseteq> free_pages s)
    | Inr s' \<Rightarrow> \<exists>q sz. {q..<q + k} \<subseteq> free_pages s \<and> free_pages s' = free_pages s - {q..<q + k}
        \<and> unat sz = k * 4096 - 32 \<and> heap_ok L M (H \<union> {q..<q + k}) (bs @ [Block (page_addr L q) sz True]) s'
        \<and> con s' = con s \<and> bitmap s' = bitmap s \<and> bitmapSize s' = bitmapSize s
        \<and> (\<forall>x. x \<notin> heads bs \<longrightarrow> page_of L x \<notin> {q..<q + k} \<longrightarrow> \<not> in_rng (bitmap s) (unat (bitmapSize s)) x
            \<longrightarrow> mem s' x = mem s x)"
proof -
  define sz where "sz = (if (n + header_size) mod PAGE_SIZE \<noteq> 0 then ALIGN_UP (n + header_size) PAGE_SIZE else n + header_size)"
  note z = extend_size [OF n, folded sz_def k_def]
  have ready: "pmm_ready L M s" and np: "npages s \<le> 2 ^ 51" and null: "page_of L 0 \<notin> M"
    and HM: "H \<subseteq> M" and Hf: "H \<inter> free_pages s = {}" and hl: "heap_list L H bs s"
    using ok by (simp_all add: heap_ok_def)
  note spec = heap_pages [OF ready np z(3,2)]
  show ?thesis
  proof (cases "pmm_alloc (ucast (sz div PAGE_SIZE)) s")
    case (Inl e)
    then have "kheap_extend L n s = Inl e" unfolding kheap_extend_def Let_def sz_def by simp
    then show ?thesis using spec Inl by simp
  next
    case (Inr r)
    obtain a s1 where r: "r = (a, s1)" by (cases r)
    obtain q where q: "a + boot_proto_hhdm_offset L = page_addr L q" "q + k \<le> 2 ^ 51"
        "{q..<q + k} \<subseteq> free_pages s" "free_pages s1 = free_pages s - {q..<q + k}" "pmm_ready L M s1"
        "s1 = s\<lparr>mem := mem s1\<rparr>"
        "\<And>x. \<not> in_rng (bitmap s) (unat (bitmapSize s)) x \<Longrightarrow> mem s1 x = mem s x"
        "\<And>x. in_rng (page_addr L q) (k * 4096) x \<longleftrightarrow> page_of L x \<in> {q..<q + k}"
      using spec Inr r by auto
    let ?new = "page_addr L q"
    have rest: "unat (sz - header_size) = k * 4096 - 32"
      using z(1,6) by (subst unat_sub_le) (simp_all add: word_le_nat_alt)
    have "page_of L 0 \<notin> {q..<q + k}" using q(3) ready null by (auto simp: pmm_ready_def)
    note nb = new_block [OF q(8) q(2) z(4) this rest]
    have out: "mem s1 x = mem s x" if "page_of L x \<in> M" for x
      using that ready by (intro q(7)) (auto simp: pmm_ready_def)
    obtain m1 where m1: "s1 = s\<lparr>mem := m1\<rparr>" using q(6) by blast
    define s2 where "s2 = fill ?new 0 sz s1"
    have m2: "mem s2 x = (if page_of L x \<in> {q..<q + k} then 0 else mem s1 x)" for x
      unfolding s2_def fill_def using q(8) by (simp add: memset_apply z(1))
    have "mem s2 x = mem s x" if "x \<in> heads bs" for x
      using heads_pages [OF hl that] HM Hf q(3) out by (auto simp: m2)
    then have "heap_list L H bs s2" by (rule heap_list_frame [OF hl]) (simp_all add: s2_def m1)
    then have hl2: "heap_list L (H \<union> {q..<q + k}) bs s2"
      by (rule heap_list_mono) (use null HM q(3) ready in \<open>auto simp: pmm_ready_def\<close>)
    have "extent c \<inter> extent (Block ?new (sz - header_size) True) = {}" if "c \<in> set bs" for c
      using block_pages [OF hl that] Hf q(3) unfolding nb(1) by blast
    note ap = append_list [OF hl2 nb(2) [OF Un_upper2] this]
    define s3 where "s3 = append_block ?new (sz - header_size) s2"
    define s' where "s' = s3\<lparr>kheapSize := kheapSize s3 + sz,
       kheapSizeUsable := kheapSizeUsable s3 + blk_size (hdr s3 ?new)\<rparr>"
    have run: "kheap_extend L n s = Inr s'"
      using Inr r q(1) by (simp add: kheap_extend_def Let_def sz_def [symmetric] s'_def s3_def s2_def append_block_def)
    have same: "con s' = con s" "bitmap s' = bitmap s" "bitmapSize s' = bitmapSize s"
      by (simp_all add: s'_def s3_def append_block_def Let_def s2_def m1)
    have frame: "mem s' x = mem s1 x" if "x \<notin> heads bs" "page_of L x \<notin> {q..<q + k}" for x
    proof -
      have "x \<notin> header_bytes ?new"
        using that(2) header_in_extent [of "Block ?new (sz - header_size) True"] unfolding nb(1) by auto
      then have "mem s3 x = mem s2 x" using ap(2) that(1) by (auto simp: touches_def s3_def)
      then show ?thesis using that(2) m2 [of x] by (auto simp: s'_def)
    qed
    have "mem s' x = mem s1 x" if "in_rng (bitmap s1) (unat (bitmapSize s1)) x" for x
    proof -
      have "page_of L x \<notin> M" using that q(5) by (auto simp: pmm_ready_def)
      moreover have "{q..<q + k} \<subseteq> M" using q(3) ready by (auto simp: pmm_ready_def)
      ultimately have "x \<notin> heads bs" "page_of L x \<notin> {q..<q + k}" using heads_pages [OF hl, of x] HM by blast+
      then show ?thesis by (rule frame)
    qed
    note o = pmm_ready_other [of s' s1, OF _ _ this]
    have f': "free_pages s' = free_pages s - {q..<q + k}" "pmm_ready L M s'"
      using o q(4,5) by (simp_all add: same m1)
    have "heap_list L (H \<union> {q..<q + k}) (bs @ [Block ?new (sz - header_size) True]) s'"
      by (rule heap_list_frame [OF ap(1)]) (simp_all add: s'_def s3_def)
    then have "heap_ok L M (H \<union> {q..<q + k}) (bs @ [Block ?new (sz - header_size) True]) s'"
      using f' np null HM Hf q(3) ready same by (auto simp: heap_ok_def pmm_ready_def npages_def)
    then show ?thesis
      unfolding run using q(3,7) f'(1) rest same frame by (auto intro!: exI [of _ q] exI [of _ "sz - header_size"])
  qed
qed

section \<open>Allocation\<close>

lemma kmalloc_size_fixed:
  assumes "unat sz \<le> 2 ^ 30"
  shows "unat sz \<le> unat (kmalloc_size sz)" and "unat (kmalloc_size sz) < unat sz + 16"
    and "kmalloc_size (kmalloc_size sz) = kmalloc_size sz"
proof -
  note b = ALIGN_UP_bounds [of "0x10 :: u64" sz] 
  show "unat sz \<le> unat (kmalloc_size sz)" "unat (kmalloc_size sz) < unat sz + 16"
    using b assms by (auto simp: kmalloc_size_def)
  show "kmalloc_size (kmalloc_size sz) = kmalloc_size sz"
  proof (cases "sz mod 10 = 0")
    case True
    then show ?thesis by (simp add: kmalloc_size_def)
  next
    case False
    have "ALIGN_UP sz 0x10 mod 0x10 = 0"
      using b(1) assms by (simp add: word_unat_eq_iff unat_mod mod_eq_0_iff_dvd)
    then show ?thesis using False by (simp add: kmalloc_size_def ALIGN_UP_aligned)
  qed
qed

text \<open>The memory an allocation leaves alone: the payload of blocks in use, and what is outside the
  heap, the free pages and the bitmap.\<close>

definition undisturbed :: "limine \<Rightarrow> nat set \<Rightarrow> heap_block set \<Rightarrow> kstate \<Rightarrow> kstate \<Rightarrow> bool" where
  "undisturbed L P B s s' \<longleftrightarrow> (\<forall>b \<in> B. \<forall>x \<in> payload b. mem s' x = mem s x)
     \<and> (\<forall>x. page_of L x \<notin> P \<longrightarrow> \<not> in_rng (bitmap s) (unat (bitmapSize s)) x \<longrightarrow> mem s' x = mem s x)"

lemma payload_not_heads:
  assumes hl: "heap_list L H bs s" and d: "d \<in> set bs" "x \<in> payload d"
  shows "x \<notin> heads bs"
proof -
  have sp: "spread bs" and ok: "block_ok L H d" using hl d(1) by (auto simp: heap_list_def)
  note pd = payload_in_extent [OF block_ok_size [OF ok]]
  have "x \<notin> header_bytes (start e)" if e: "e \<in> set bs" for e
  proof (cases "e = d")
    case False
    then have "extent d \<inter> extent e = {}" using spread_disjoint [OF sp] d(1) e by blast
    then show ?thesis using pd(1) d(2) header_in_extent [of e] by blast
  qed (use pd(2) d(2) in blast)
  then show ?thesis by (auto simp: heads_def)
qed

lemma take_spec:
  assumes ok: "heap_ok L M H bs s" and n: "unat n + 32 < 2 ^ 64" and b: "b \<in> set bs" "fits n b"
  shows "\<exists>p s' k bs'. kmalloc_scan n (blockListStart s) s = Some (Some (p, s')) \<and> heap_ok L M H bs' s'
     \<and> first_fit n bs = Some (p, bs')
     \<and> unat n \<le> unat k \<and> unat k \<le> unat n + 32
     \<and> in_use bs' = insert (Block (p - header_size) k False) (in_use bs)
     \<and> Block (p - header_size) k False \<notin> in_use bs \<and> free_pages s' = free_pages s \<and> con s' = con s
     \<and> bitmap s' = bitmap s \<and> bitmapSize s' = bitmapSize s
     \<and> undisturbed L H (in_use bs) s s'"
proof -
  have hl: "heap_list L H bs s" using ok by (simp add: heap_ok_def)
  then have sp: "spread bs" by (simp add: heap_list_def)
  obtain xs c ys where c: "bs = xs @ c # ys" "fits n c" "\<forall>d \<in> set xs. \<not> fits n d"
    using split_list_first_prop [of bs "fits n"] b by blast
  obtain a sz where a: "c = Block a sz True" using c(2) by (cases c) (simp add: fits_def)
  let ?s' = "take_block n c s"
  have "kmalloc_scan n (first (xs @ c # ys) 0) s = Some (Some (start c + header_size, ?s'))"
    using hl heap_list_nonzero [OF hl] c by (intro kmalloc_scan_hit [OF n]) (auto simp: heap_list_def)
  then have run: "kmalloc_scan n (blockListStart s) s = Some (Some (a + header_size, ?s'))"
    using hl a by (simp add: heap_list_def c(1))
  have ff: "first_fit n bs = Some (a + header_size, xs @ carve n c @ ys)"
    using c(2,3) by (simp add: c(1) a first_fit_append)
  have fit: "unat n \<le> unat sz" using c(2) by (simp add: a fits_def)
  define k where "k = capacity (carved n c)"
  have k12: "unat n \<le> unat k" "unat k \<le> unat n + 32" using carved_size [OF c(2)] by (simp_all add: k_def)
  have cc: "carved n c = Block a k False"
    by (rule heap_block.expand) (simp add: k_def a)
  then have k4: "in_use (xs @ carve n c @ ys) = insert (Block a k False) (in_use (xs @ ys))" by auto
  note k35 = take_block_list [OF hl [unfolded c(1) a] fit, folded a]
  have use: "in_use bs = in_use (xs @ ys)" by (simp add: c(1) a)
  have inH: "page_of L x \<in> H" if "x \<in> heads (xs @ ys) \<union> extent c" for x
    using that heads_pages [OF hl, of x] block_pages [OF hl, of c x] by (auto simp: c(1))
  have same: "bitmap ?s' = bitmap s" "bitmapSize ?s' = bitmapSize s" "con ?s' = con s"
    by (simp_all add: take_block_def kheap_create_block_def Let_def)
  note ok' = heap_ok_list [OF ok k35 inH same(1,2)]
  have "mem ?s' x = mem s x" if d: "d \<in> in_use bs" "x \<in> payload d" for d x
  proof -
    have "d \<in> set bs" "d \<noteq> c" using d(1) a by (auto simp: in_use_def)
    moreover have "c \<in> set bs" by (simp add: c(1))
    ultimately have "extent d \<inter> extent c = {}" using spread_disjoint [OF sp] by blast
    moreover have "x \<notin> heads bs" by (rule payload_not_heads [OF hl \<open>d \<in> set bs\<close> d(2)])
    moreover have "payload d \<subseteq> extent d"
      using hl \<open>d \<in> set bs\<close> block_ok_size by (intro payload_in_extent) (auto simp: heap_list_def)
    ultimately have "x \<notin> heads (xs @ ys) \<union> extent c" using d(2) by (auto simp: heads_def c(1))
    then show ?thesis using k35(2) by (simp add: touches_def)
  qed
  moreover have "mem ?s' x = mem s x" if "page_of L x \<notin> H" for x
    using that inH k35(2) by (auto simp: touches_def)
  ultimately have und: "undisturbed L H (in_use bs) s ?s'" by (simp add: undisturbed_def)
  have "start d \<noteq> a" if "d \<in> set (xs @ ys)" for d
    using that spread_distinct [of bs] hl c(1) a by (auto simp: heap_list_def)
  then have "Block a k False \<notin> in_use bs" unfolding use by (fastforce simp: in_use_def)
  then show ?thesis using run ok' ff k12 k4 use same und by auto
qed

lemma undisturbed_trans:
  assumes "undisturbed L P B s s'" and "undisturbed L P B' s' s''" and "B \<subseteq> B'"
    and "bitmap s' = bitmap s" "bitmapSize s' = bitmapSize s"
  shows "undisturbed L P B s s''"
  using assms by (fastforce simp: undisturbed_def)

lemma undisturbed_mono:
  "undisturbed L P B s s' \<Longrightarrow> P \<subseteq> P' \<Longrightarrow> undisturbed L P' B s s'"
  by (auto simp: undisturbed_def)

definition heap_request :: "u64 \<Rightarrow> bool" where
  "heap_request sz \<longleftrightarrow> unat sz + 16 \<le> 2 ^ 30"

lemma extend_undisturbed:
  assumes ok: "heap_ok L M H bs s" and Q: "Q \<subseteq> free_pages s"
    and frame: "\<And>x. x \<notin> heads bs \<Longrightarrow> page_of L x \<notin> Q \<Longrightarrow> \<not> in_rng (bitmap s) (unat (bitmapSize s)) x
      \<Longrightarrow> mem s' x = mem s x"
  shows "undisturbed L (H \<union> free_pages s) (in_use bs) s s'"
proof -
  have hl: "heap_list L H bs s" and d: "H \<inter> free_pages s = {}" "H \<subseteq> M" and r: "pmm_ready L M s"
    using ok by (simp_all add: heap_ok_def)
  have "mem s' x = mem s x" if b: "b \<in> in_use bs" "x \<in> payload b" for b x
  proof (rule frame)
    have bb: "b \<in> set bs" using b(1) by (simp add: in_use_def)
    show "x \<notin> heads bs" by (rule payload_not_heads [OF hl bb b(2)])
    have "payload b \<subseteq> extent b"
      using hl bb block_ok_size by (intro payload_in_extent) (auto simp: heap_list_def)
    then have "page_of L x \<in> H" using block_pages [OF hl bb] b(2) by blast
    then show "page_of L x \<notin> Q" "\<not> in_rng (bitmap s) (unat (bitmapSize s)) x"
      using d Q r by (auto simp: pmm_ready_def)
  qed
  moreover have "mem s' x = mem s x"
    if "page_of L x \<notin> H \<union> free_pages s" "\<not> in_rng (bitmap s) (unat (bitmapSize s)) x" for x
    using that heads_pages [OF hl] Q by (intro frame) auto
  ultimately show ?thesis by (simp add: undisturbed_def)
qed

lemma kmalloc_spec:
  assumes ok: "heap_ok L M H bs s" and req: "heap_request sz"
  shows "(\<exists>k. unat sz \<le> 4096 * k \<and> (\<forall>b. \<not> {b..<b + k} \<subseteq> free_pages s)
        \<and> k = extend_pages (kmalloc_size sz)
        \<and> kmalloc L sz s = Some (Inl (Halted (con s @ oom_message))))
    \<or> (\<exists>p s' k H' bs'. kmalloc L sz s = Some (Inr (p, s')) \<and> heap_ok L M H' bs' s'
        \<and> H \<subseteq> H' \<and> H' \<subseteq> H \<union> free_pages s \<and> free_pages s' = free_pages s - H'
        \<and> unat sz \<le> unat k \<and> unat k < unat sz + 48
        \<and> in_use bs' = insert (Block (p - header_size) k False) (in_use bs)
        \<and> Block (p - header_size) k False \<notin> in_use bs \<and> con s' = con s
        \<and> undisturbed L (H \<union> free_pages s) (in_use bs) s s')"
    (is "?oom \<or> ?done")
proof -
  let ?n = "kmalloc_size sz"
  have "unat sz \<le> 2 ^ 30" using req by (simp add: heap_request_def)
  note nb = kmalloc_size_fixed [OF this]
  have n: "unat ?n \<le> 2 ^ 30" "unat ?n + 32 < 2 ^ 64" using nb(2) req by (simp_all add: heap_request_def)
  have hl: "heap_list L H bs s" using ok by (simp add: heap_ok_def)
  have disj: "H \<inter> free_pages s = {}" using ok by (simp add: heap_ok_def)
  show ?thesis
  proof (cases "\<exists>b \<in> set bs. fits ?n b")
    case True
    then obtain p s' k bs' where t: "kmalloc_scan ?n (blockListStart s) s = Some (Some (p, s'))"
        "heap_ok L M H bs' s'" "unat ?n \<le> unat k" "unat k \<le> unat ?n + 32"
        "in_use bs' = insert (Block (p - header_size) k False) (in_use bs)"
        "Block (p - header_size) k False \<notin> in_use bs" "free_pages s' = free_pages s" "con s' = con s"
        "undisturbed L H (in_use bs) s s'"
      using take_spec [OF ok n(2)] by blast
    have "kmalloc L sz s = Some (Inr (p, s'))" by (subst kmalloc.simps) (simp add: t(1) Let_def)
    moreover have "undisturbed L (H \<union> free_pages s) (in_use bs) s s'" by (rule undisturbed_mono [OF t(9)]) simp
    moreover have "free_pages s' = free_pages s - H" using disj t(7) by auto
    moreover have "unat sz \<le> unat k" "unat k < unat sz + 48" using t(3,4) nb(1,2) by linarith+
    ultimately have ?done using t(2,5,6,8) by blast
    then show ?thesis ..
  next
    case False
    then have scan: "kmalloc_scan ?n (blockListStart s) s = Some None"
      using hl heap_list_nonzero [OF hl] kmalloc_scan_none [of s 0 bs ?n] by (auto simp: heap_list_def)
    note ext = kheap_extend_spec [OF ok n(1)]
    have room: "unat ?n + 32 \<le> extend_pages ?n * 4096" using extend_size(6) [OF n(1)] .
    show ?thesis
    proof (cases "kheap_extend L ?n s")
      case (Inl e)
      then have "kmalloc L sz s = Some (Inl e)" by (subst kmalloc.simps) (simp add: scan Let_def)
      then have ?oom using ext Inl room nb(1) by (intro exI [of _ "extend_pages ?n"]) auto
      then show ?thesis ..
    next
      case (Inr s1)
      then obtain q z where e: "{q..<q + extend_pages ?n} \<subseteq> free_pages s"
          "free_pages s1 = free_pages s - {q..<q + extend_pages ?n}" "unat z = extend_pages ?n * 4096 - 32"
          "heap_ok L M (H \<union> {q..<q + extend_pages ?n}) (bs @ [Block (page_addr L q) z True]) s1"
          "con s1 = con s" "bitmap s1 = bitmap s" "bitmapSize s1 = bitmapSize s"
          "\<And>x. x \<notin> heads bs \<Longrightarrow> page_of L x \<notin> {q..<q + extend_pages ?n} \<Longrightarrow>
            \<not> in_rng (bitmap s) (unat (bitmapSize s)) x \<Longrightarrow> mem s1 x = mem s x"
        using ext by auto
      let ?Q = "{q..<q + extend_pages ?n}" and ?b = "Block (page_addr L q) z True"
      have "fits ?n ?b" using room e(3) by (simp add: fits_def)
      then obtain p s' k bs' where t: "kmalloc_scan ?n (blockListStart s1) s1 = Some (Some (p, s'))"
          "heap_ok L M (H \<union> ?Q) bs' s'" "unat ?n \<le> unat k" "unat k \<le> unat ?n + 32"
          "in_use bs' = insert (Block (p - header_size) k False) (in_use bs)"
          "Block (p - header_size) k False \<notin> in_use bs" "free_pages s' = free_pages s1" "con s' = con s1"
          "undisturbed L (H \<union> ?Q) (in_use bs) s1 s'"
        using take_spec [OF e(4) n(2), of ?b] by auto
      have "kmalloc L ?n s1 = Some (Inr (p, s'))" by (subst kmalloc.simps) (simp add: t(1) nb(3) Let_def)
      then have run: "kmalloc L sz s = Some (Inr (p, s'))"
        by (subst kmalloc.simps) (simp add: scan Inr Let_def)
      have u1: "undisturbed L (H \<union> free_pages s) (in_use bs) s s1" by (rule extend_undisturbed [OF ok e(1,8)])
      have u2: "undisturbed L (H \<union> free_pages s) (in_use bs) s1 s'"
        by (rule undisturbed_mono [OF t(9)]) (use e(1) in auto)
      have u: "undisturbed L (H \<union> free_pages s) (in_use bs) s s'"
        by (rule undisturbed_trans [OF u1 u2]) (simp_all add: e)
      have "free_pages s' = free_pages s - (H \<union> ?Q)" using disj t(7) e(2) by auto
      moreover have "H \<union> ?Q \<subseteq> H \<union> free_pages s" using e(1) by auto
      moreover have "unat sz \<le> unat k" "unat k < unat sz + 48" using t(3,4) nb(1,2) by linarith+
      moreover have "con s' = con s" using t(8) e(5) by simp
      ultimately have ?done using run t(2,5,6) u by blast
      then show ?thesis ..
    qed
  qed
qed

section \<open>Release\<close>

lemma kfree_fields:
  assumes "kfree p s = Inr s'" and "\<not> blk_free (hdr s (p - header_size))"
  shows "bitmap s' = bitmap s" "bitmapSize s' = bitmapSize s" "con s' = con s"
proof -
  have m: "bitmap (merge_next a s) = bitmap s" "bitmapSize (merge_next a s) = bitmapSize s"
    "con (merge_next a s) = con s" "bitmap (merge_prev a s) = bitmap s"
    "bitmapSize (merge_prev a s) = bitmapSize s" "con (merge_prev a s) = con s" for a s
    by (simp_all add: merge_next_def merge_prev_def Let_def)
  show "bitmap s' = bitmap s" "bitmapSize s' = bitmapSize s" "con s' = con s"
    using assms by (auto simp: kfree_def Let_def m split: if_splits)
qed

lemma kfree_spec:
  assumes ok: "heap_ok L M H bs s" and b: "Block a k False \<in> in_use bs"
  shows "\<exists>s'. kfree (a + header_size) s = Inr s' \<and> heap_ok L M H (release_block (a + header_size) bs) s'
    \<and> in_use (release_block (a + header_size) bs) = in_use bs - {Block a k False} \<and> free_pages s' = free_pages s
    \<and> undisturbed L H (in_use bs - {Block a k False}) s s'
    \<and> (\<forall>x \<in> payload (Block a k False). mem s' x = 0xff)
    \<and> con s' = con s \<and> blk_free (hdr s' a)"
proof -
  let ?b = "Block a k False"
  have hl: "heap_list L H bs s" and bin: "?b \<in> set bs" using ok b by (simp_all add: heap_ok_def in_use_def)
  then have sp: "spread bs" by (simp add: heap_list_def)
  obtain xs ys where bs: "bs = xs @ ?b # ys" using split_list [OF bin] by blast
  let ?X = "heads bs \<union> payload ?b"
  have rb: "release_block (a + header_size) bs = release_between xs ?b ys"
    using release_block_at [of xs a k False ys] sp by (simp add: bs)
  obtain s' where s': "kfree (a + header_size) s = Inr s'" "heap_list L H (release_between xs ?b ys) s'"
      "in_use (release_between xs ?b ys) = in_use (xs @ ys)" "touches ?X s s'"
      "\<And>x. x \<in> payload ?b \<Longrightarrow> x \<notin> heads bs \<Longrightarrow> mem s' x = 0xff" "blk_free (hdr s' a)"
    using kfree_list [of L H xs a k ys s] hl unfolding bs by auto
  have "?b \<notin> set (xs @ ys)" using spread_distinct [OF sp] unfolding bs by force
  then have use: "in_use (xs @ ys) = in_use bs - {?b}" by (auto simp: bs in_use_def)
  have size: "32 + unat (capacity d) < 2 ^ 64" if "d \<in> set bs" for d
    using hl that block_ok_size by (auto simp: heap_list_def)
  have inH: "page_of L x \<in> H" if "x \<in> ?X" for x
    using that heads_pages [OF hl, of x] block_pages [OF hl bin, of x] payload_in_extent(1) [OF size [OF bin]] by auto
  have same: "bitmap s' = bitmap s" "bitmapSize s' = bitmapSize s" "con s' = con s"
    using kfree_fields [OF s'(1)] heap_list_header [OF hl [unfolded bs]] by simp_all
  note ok' = heap_ok_list [OF ok s'(2,4) inH same(1,2)]
  have "mem s' x = mem s x" if d: "d \<in> in_use bs - {?b}" "x \<in> payload d" for d x
  proof -
    have dd: "d \<in> set bs" "d \<noteq> ?b" using d(1) by (auto simp: in_use_def)
    then have "extent d \<inter> extent ?b = {}" using spread_disjoint [OF sp _ bin] by blast
    then have "x \<notin> payload ?b"
      using payload_in_extent(1) [OF size [OF dd(1)]] payload_in_extent(1) [OF size [OF bin]] d(2) by blast
    then show ?thesis using s'(4) payload_not_heads [OF hl dd(1) d(2)] by (simp add: touches_def)
  qed
  moreover have "mem s' x = mem s x" if "page_of L x \<notin> H" for x
    using that inH s'(4) by (auto simp: touches_def)
  ultimately have "undisturbed L H (in_use bs - {?b}) s s'" by (simp add: undisturbed_def)
  then show ?thesis
    using s'(1,3,5,6) ok' use same payload_not_heads [OF hl bin] by (auto simp: rb)
qed

section \<open>Writing objects\<close>

text \<open>Filling the beginning of an object, and writing one byte of it.\<close>

lemma object_fill:
  assumes ok: "heap_ok L M H bs s" and b: "Block a k False \<in> in_use bs" and n: "unat n \<le> unat k"
  shows "heap_ok L M H bs (fill (a + header_size) c n s)"
    and "free_pages (fill (a + header_size) c n s) = free_pages s"
    and "d \<in> in_use bs \<Longrightarrow> d \<noteq> Block a k False \<Longrightarrow> x \<in> payload d \<Longrightarrow> mem (fill (a + header_size) c n s) x = mem s x"
proof -
  let ?b = "Block a k False"
  have hl: "heap_list L H bs s" and bin: "?b \<in> set bs" using ok b by (simp_all add: heap_ok_def in_use_def)
  then have sp: "spread bs" by (simp add: heap_list_def)
  obtain xs ys where bs: "bs = xs @ ?b # ys" using split_list [OF bin] by blast
  have size: "32 + unat (capacity d) < 2 ^ 64" if "d \<in> set bs" for d
    using hl that block_ok_size by (auto simp: heap_list_def)
  note f = fill_payload_list [OF hl [unfolded bs] n, of c, folded bs]
  have "page_of L x \<in> H" if "x \<in> payload ?b" for x
    using that block_pages [OF hl bin, of x] payload_in_extent(1) [OF size [OF bin]] by auto
  note o = heap_ok_list [OF ok f this]
  show "heap_ok L M H bs (fill (a + header_size) c n s)" "free_pages (fill (a + header_size) c n s) = free_pages s"
    by (rule o; simp)+
  assume d: "d \<in> in_use bs" "d \<noteq> ?b" "x \<in> payload d"
  then have dd: "d \<in> set bs" by (auto simp: in_use_def)
  then have "extent d \<inter> extent ?b = {}" using spread_disjoint [OF sp _ bin] d(2) by blast
  then have "x \<notin> payload ?b"
    using payload_in_extent(1) [OF size [OF dd]] payload_in_extent(1) [OF size [OF bin]] d(3) by blast
  then show "mem (fill (a + header_size) c n s) x = mem s x" using f(2) by (simp add: touches_def)
qed

lemma object_write:
  assumes ok: "heap_ok L M H bs s" and b: "Block a k False \<in> in_use bs" and x: "x \<in> payload (Block a k False)"
  shows "heap_ok L M H bs (s\<lparr>mem := (mem s)(x := v)\<rparr>)"
    and "d \<in> in_use bs \<Longrightarrow> d \<noteq> Block a k False \<Longrightarrow> x \<notin> payload d"
proof -
  let ?b = "Block a k False" and ?s = "s\<lparr>mem := (mem s)(x := v)\<rparr>"
  have hl: "heap_list L H bs s" and bin: "?b \<in> set bs" using ok b by (simp_all add: heap_ok_def in_use_def)
  then have sp: "spread bs" by (simp add: heap_list_def)
  have size: "32 + unat (capacity d) < 2 ^ 64" if "d \<in> set bs" for d
    using hl that block_ok_size by (auto simp: heap_list_def)
  have "heap_list L H bs ?s"
    by (rule heap_list_frame [OF hl]) (use payload_not_heads [OF hl bin x] in auto)
  moreover have "touches {x} s ?s" by (simp add: touches_def)
  moreover have "page_of L x \<in> H"
    using x block_pages [OF hl bin, of x] payload_in_extent(1) [OF size [OF bin]] by auto
  ultimately show "heap_ok L M H bs ?s" by (intro heap_ok_list(1) [OF ok]) auto
  assume d: "d \<in> in_use bs" "d \<noteq> ?b"
  then have dd: "d \<in> set bs" by (auto simp: in_use_def)
  then have "extent d \<inter> extent ?b = {}" using spread_disjoint [OF sp _ bin] d(2) by blast
  then show "x \<notin> payload d"
    using payload_in_extent(1) [OF size [OF dd]] payload_in_extent(1) [OF size [OF bin]] x by blast
qed

section \<open>Initialisation\<close>

lemma kheap_init_spec:
  assumes ready: "pmm_ready L M s" and np: "npages s \<le> 2 ^ 51" and null: "page_of L 0 \<notin> M"
  shows "case kheap_init L s of
      Inl e \<Rightarrow> e = Halted (con s @ oom_message) \<and> (\<forall>b. \<not> {b..<b + 16} \<subseteq> free_pages s)
    | Inr (r, s') \<Rightarrow> r = 0 \<and> (\<exists>q. {q..<q + 16} \<subseteq> free_pages s \<and> free_pages s' = free_pages s - {q..<q + 16}
        \<and> heap_ok L M {q..<q + 16} [Block (page_addr L q) 65504 True] s' \<and> con s' = con s
        \<and> kheapSize s' = 65536 \<and> kheapSizeUsable s' = 65504 \<and> kernelPT s' = kernelPT s \<and> cr3 s' = cr3 s
        \<and> (\<forall>x. page_of L x \<notin> {q..<q + 16} \<longrightarrow> \<not> in_rng (bitmap s) (unat (bitmapSize s)) x \<longrightarrow> mem s' x = mem s x))"
proof -
  have pages: "small_request KHEAP_INIT_PAGES" "sint KHEAP_INIT_PAGES = int 16"
    by (simp_all add: small_request_def KHEAP_INIT_PAGES_def)
  note spec = heap_pages [OF ready np pages]
  have sz: "scast KHEAP_INIT_PAGES * PAGE_SIZE = 65536" "(65536 - header_size :: u64) = 65504"
    by (simp_all add: KHEAP_INIT_PAGES_def PAGE_SIZE_def header_size_def)
  show ?thesis
  proof (cases "pmm_alloc KHEAP_INIT_PAGES s")
    case (Inl e)
    then show ?thesis using spec by (simp add: kheap_init_def)
  next
    case (Inr r)
    obtain a s1 where r: "r = (a, s1)" by (cases r)
    obtain q where q: "a + boot_proto_hhdm_offset L = page_addr L q" "q + 16 \<le> 2 ^ 51"
        "{q..<q + 16} \<subseteq> free_pages s" "free_pages s1 = free_pages s - {q..<q + 16}" "pmm_ready L M s1"
        "s1 = s\<lparr>mem := mem s1\<rparr>"
        "\<And>x. in_rng (page_addr L q) (16 * 4096) x \<longleftrightarrow> page_of L x \<in> {q..<q + 16}"
        "\<And>x. \<not> in_rng (bitmap s) (unat (bitmapSize s)) x \<Longrightarrow> mem s1 x = mem s x"
      using spec Inr r by auto
    let ?a = "page_addr L q"
    define s2 where "s2 = s1\<lparr>blockListStart := ?a, blockListEnd := ?a\<rparr>"
    have QM: "{q..<q + 16} \<subseteq> M" using q(3) ready by (auto simp: pmm_ready_def)
    have out: "page_of L 0 \<notin> {q..<q + 16}" using QM null by blast
    note nb = new_block [OF q(7) q(2) _ out, of 65504, simplified]
    have 0: "sees {?a} s2 (hdr s2)" by (simp add: sees_def separate_def)
    define s3 where "s3 = fill ?a 0 header_size s2"
    have 3: "sees {?a} s3 (hdr s3)" by (simp add: sees_def separate_def)
    have inA: "?a \<in> {?a}" by simp
    note 4 = sees_set(1) [OF 3 inA, of 65504]
    note 5 = sees_set(4) [OF 4 inA, of 0]
    note 6 = sees_set(3) [OF 5 inA, of 0]
    note 7 = sees_set(2) [OF 6 inA, of True]
    define s7 where "s7 = set_free ?a True (set_next ?a 0 (set_prev ?a 0 (set_size ?a 65504 s3)))"
    define s' where "s' = s7\<lparr>kheapSize := 65536, kheapSizeUsable := blk_size (hdr s7 ?a)\<rparr>"
    have run: "kheap_init L s = Inr (0, s')"
      using Inr r q(1) by (simp add: kheap_init_def Let_def sz s'_def s7_def s3_def s2_def)
    have h7: "hdr s7 ?a = \<lparr>blk_size = 65504, blk_free = True, blk_next = 0, blk_prev = 0\<rparr>"
      using seesD [OF 7 inA] by (simp add: s7_def)
    have fields: "blockListStart s' = ?a" "blockListEnd s' = ?a" "bitmap s' = bitmap s1"
      "bitmapSize s' = bitmapSize s1" "con s' = con s1" "kheapSize s' = 65536" "kheapSizeUsable s' = 65504"
      using h7 by (simp_all add: s'_def s7_def s3_def s2_def)
    have hl: "heap_list L {q..<q + 16} [Block ?a 65504 True] s'"
      using nb(2) [of "{q..<q + 16}"] h7 out
      by (simp add: heap_list_def fields) (simp add: s'_def)
    have "header_bytes ?a \<subseteq> {x. page_of L x \<in> {q..<q + 16}}"
      using header_in_extent [of "Block ?a 65504 True"] nb(1) by simp
    moreover have "touches (header_bytes ?a) s2 s7"
      unfolding s7_def s3_def by (intro touches_set touches_fill) (auto simp: header_bytes_def)
    ultimately have t7: "touches {x. page_of L x \<in> {q..<q + 16}} s2 s7" by (blast intro: touches_mono)
    then have frame: "mem s' x = mem s x"
      if "page_of L x \<notin> {q..<q + 16}" "\<not> in_rng (bitmap s) (unat (bitmapSize s)) x" for x
      using that q(8) by (simp add: touches_def s'_def s2_def)
    have "touches {x. page_of L x \<in> M} s2 s7" using t7 QM by (blast intro: touches_mono)
    then have "mem s' x = mem s1 x" if "page_of L x \<notin> M" for x
      using that by (simp add: touches_def s'_def s2_def)
    then have "mem s' x = mem s1 x" if "in_rng (bitmap s1) (unat (bitmapSize s1)) x" for x
      using that q(5) by (auto simp: pmm_ready_def)
    note o = pmm_ready_other [OF fields(3,4) this]
    obtain m1 where "s1 = s\<lparr>mem := m1\<rparr>" using q(6) by blast
    then have np': "npages s' = npages s" "con s' = con s" "kernelPT s' = kernelPT s" "cr3 s' = cr3 s"
      using fields(3-5) by (simp_all add: npages_def)
        (simp_all add: s'_def s7_def s3_def s2_def set_free_def set_next_def set_prev_def set_size_def fill_def)
    have "heap_ok L M {q..<q + 16} [Block ?a 65504 True] s'"
      using o q(4,5) np np' null QM hl by (auto simp: heap_ok_def)
    then show ?thesis unfolding run using q(3,4) o(1) np'(2-4) fields(6,7) frame by auto
  qed
qed

end
