(* ===== verification/Object_Heap.thy ===== *)
theory Object_Heap
  imports Prelude
begin

text \<open>
  The interface of a heap of objects as its clients use it: allocation gives a new object,
  release takes one away, and no operation changes the contents of the other objects. The
  client lemmas show that such a heap implements a store: a map from pointers to the lists of
  bytes their owners wrote. The kernel heap of theory \<open>Kheap\<close> interprets the locale.
\<close>

locale object_heap =
  fixes alloc :: "'n \<Rightarrow> 's \<Rightarrow> ('e + ('p \<times> 's)) option"
    and release :: "'p \<Rightarrow> 's \<Rightarrow> 'e + 's"
    and get :: "'s \<Rightarrow> 'p \<Rightarrow> nat \<Rightarrow> 'b"
    and put :: "'p \<Rightarrow> nat \<Rightarrow> 'b \<Rightarrow> 's \<Rightarrow> 's"
    and holds :: "'s \<Rightarrow> ('p \<Rightarrow> nat option) \<Rightarrow> bool"
    and ok :: "'n \<Rightarrow> bool"
    and len :: "'n \<Rightarrow> nat"
  assumes alloc_law: "\<lbrakk>holds s sz; ok n; alloc n s = Some (Inr (p, s'))\<rbrakk> \<Longrightarrow>
      sz p = None \<and> holds s' (sz(p \<mapsto> len n))
      \<and> (\<forall>q j i. sz q = Some j \<longrightarrow> i < j \<longrightarrow> get s' q i = get s q i)"
    and release_law: "\<lbrakk>holds s sz; sz p = Some k\<rbrakk> \<Longrightarrow>
      \<exists>s'. release p s = Inr s' \<and> holds s' (sz(p := None))
        \<and> (\<forall>q j i. q \<noteq> p \<longrightarrow> sz q = Some j \<longrightarrow> i < j \<longrightarrow> get s' q i = get s q i)"
    and put_law: "\<lbrakk>holds s sz; sz p = Some k; i < k\<rbrakk> \<Longrightarrow>
      holds (put p i b s) sz \<and> get (put p i b s) p i = b
      \<and> (\<forall>q j i'. sz q = Some j \<longrightarrow> i' < j \<longrightarrow> (q, i') \<noteq> (p, i) \<longrightarrow> get (put p i b s) q i' = get s q i')"
begin

definition contents :: "'s \<Rightarrow> 'p \<Rightarrow> nat \<Rightarrow> 'b list" where
  "contents s p n = map (get s p) [0..<n]"

text \<open>The state implements a store.\<close>

definition stores :: "'s \<Rightarrow> ('p \<Rightarrow> 'b list option) \<Rightarrow> bool" where
  "stores s \<sigma> \<longleftrightarrow> holds s (\<lambda>p. map_option length (\<sigma> p))
     \<and> (\<forall>p bs. \<sigma> p = Some bs \<longrightarrow> contents s p (length bs) = bs)"

lemma storesI:
  assumes "holds s sz" and "\<And>p. sz p = map_option length (\<sigma> p)"
    and "\<And>p bs i. \<sigma> p = Some bs \<Longrightarrow> i < length bs \<Longrightarrow> get s p i = bs ! i"
  shows "stores s \<sigma>"
proof -
  have "sz = (\<lambda>p. map_option length (\<sigma> p))" using assms(2) by blast
  then show ?thesis
    using assms(1,3) by (auto simp: stores_def contents_def intro!: nth_equalityI)
qed

lemma stores_get: "stores s \<sigma> \<Longrightarrow> \<sigma> p = Some bs \<Longrightarrow> i < length bs \<Longrightarrow> get s p i = bs ! i"
  by (fastforce simp: stores_def contents_def dest: arg_cong [of _ _ "\<lambda>xs. xs ! i"])

lemma stores_alloc:
  assumes "stores s \<sigma>" and "ok n" and "alloc n s = Some (Inr (p, s'))"
  shows "\<sigma> p = None" and "stores s' (\<sigma>(p \<mapsto> contents s' p (len n)))"
proof -
  have h: "holds s (\<lambda>p. map_option length (\<sigma> p))" using assms(1) by (simp add: stores_def)
  note law = alloc_law [OF h assms(2,3)]
  then show "\<sigma> p = None" by simp
  then show "stores s' (\<sigma>(p \<mapsto> contents s' p (len n)))"
    using law stores_get [OF assms(1)]
    by (intro storesI [where sz = "(\<lambda>p. map_option length (\<sigma> p))(p \<mapsto> len n)"])
      (auto simp: contents_def split: if_splits)
qed

lemma stores_release:
  assumes "stores s \<sigma>" and "\<sigma> p = Some bs"
  shows "\<exists>s'. release p s = Inr s' \<and> stores s' (\<sigma>(p := None))"
proof -
  have h: "holds s (\<lambda>p. map_option length (\<sigma> p))" using assms(1) by (simp add: stores_def)
  obtain s' where s': "release p s = Inr s'" "holds s' ((\<lambda>p. map_option length (\<sigma> p))(p := None))"
      "\<forall>q j i. q \<noteq> p \<longrightarrow> map_option length (\<sigma> q) = Some j \<longrightarrow> i < j \<longrightarrow> get s' q i = get s q i"
    using release_law [OF h, of p "length bs"] assms(2) by auto
  then have "stores s' (\<sigma>(p := None))"
    using stores_get [OF assms(1)]
    by (intro storesI [OF s'(2)]) (auto split: if_splits)
  then show ?thesis using s'(1) by blast
qed

lemma stores_put:
  assumes "stores s \<sigma>" and "\<sigma> p = Some bs" and "i < length bs"
  shows "stores (put p i b s) (\<sigma>(p \<mapsto> bs[i := b]))"
proof -
  have h: "holds s (\<lambda>p. map_option length (\<sigma> p))" using assms(1) by (simp add: stores_def)
  have "map_option length (\<sigma> p) = Some (length bs)" using assms(2) by simp
  note law = put_law [OF h this assms(3), of b]
  show ?thesis
  proof (rule storesI)
    show "holds (put p i b s) (\<lambda>p. map_option length (\<sigma> p))" using law by blast
    show "map_option length (\<sigma> q) = map_option length ((\<sigma>(p \<mapsto> bs[i := b])) q)" for q
      using assms(2) by simp
    show "get (put p i b s) q i' = cs ! i'" if "(\<sigma>(p \<mapsto> bs[i := b])) q = Some cs" "i' < length cs" for q cs i'
      using that law assms stores_get [OF assms(1)] by (cases "q = p"; cases "i' = i") auto
  qed
qed

end

end
