(* ===== verification/Heap_Spec.thy ===== *)
theory Heap_Spec
  imports Heap_Alloc Object_Heap Pmm_Spec
begin

text \<open>
  The kernel heap as an object heap, and its properties: what an allocation and a release do,
  that allocation always returns, and the safety of every history of the heap.
\<close>

section \<open>The interface\<close>

text \<open>The objects of the heap, by their pointers, with the sizes that were requested.\<close>

definition objects :: "limine \<Rightarrow> nat set \<Rightarrow> kstate \<Rightarrow> (u64 \<Rightarrow> nat option) \<Rightarrow> bool" where
  "objects L M s sz \<longleftrightarrow> (\<exists>H bs. heap_ok L M H bs s
     \<and> dom sz = (\<lambda>b. start b + header_size) ` in_use bs
     \<and> (\<forall>b \<in> in_use bs. \<forall>n. sz (start b + header_size) = Some n \<longrightarrow> n \<le> unat (capacity b)))"

definition object_byte :: "kstate \<Rightarrow> u64 \<Rightarrow> nat \<Rightarrow> u8" where
  "object_byte s p i = mem s (p + of_nat i)"

definition store_byte :: "u64 \<Rightarrow> nat \<Rightarrow> u8 \<Rightarrow> kstate \<Rightarrow> kstate" where
  "store_byte p i v s = s\<lparr>mem := (mem s)(p + of_nat i := v)\<rparr>"

lemma in_use_unique:
  assumes "heap_ok L M H bs s" and "b \<in> in_use bs" and "c \<in> in_use bs" and "start b = start c"
  shows "b = c"
proof -
  have "distinct (map start bs)" using assms(1) spread_distinct by (auto simp: heap_ok_def heap_list_def)
  then show ?thesis using assms(2-4) by (auto simp: in_use_def distinct_map dest: inj_onD)
qed

lemma object_block:
  assumes "dom sz = (\<lambda>b. start b + header_size) ` in_use bs"
    and "\<forall>b \<in> in_use bs. \<forall>n. sz (start b + header_size) = Some n \<longrightarrow> n \<le> unat (capacity b)"
    and "sz p = Some n"
  shows "\<exists>k. Block (p - header_size) k False \<in> in_use bs \<and> n \<le> unat k"
proof -
  have "p \<in> (\<lambda>b. start b + header_size) ` in_use bs" using assms(1,3) by blast
  then obtain b where b: "b \<in> in_use bs" "p = start b + header_size" by blast
  then have "b = Block (p - header_size) (capacity b) False" by (cases b) (auto simp: in_use_def)
  then show ?thesis using b assms(2,3) by metis
qed

lemma object_byte_payload:
  assumes "i < n" and "n \<le> unat k"
  shows "p + of_nat i \<in> payload (Block (p - header_size) k False)"
proof -
  have "i < 2 ^ 64" using assms less_unat_64 [of i k] by simp
  then have "unat (of_nat i :: u64) = i" by (rule unat_of_nat_64)
  then show ?thesis using assms by (simp add: payload_def)
qed

lemma objects_alloc:
  assumes "objects L M s sz" and "heap_request n" and "kmalloc L n s = Some (Inr (p, s'))"
  shows "sz p = None" and "objects L M s' (sz(p \<mapsto> unat n))"
    and "sz q = Some j \<Longrightarrow> i < j \<Longrightarrow> object_byte s' q i = object_byte s q i"
proof -
  obtain H bs where h: "heap_ok L M H bs s" "dom sz = (\<lambda>b. start b + header_size) ` in_use bs"
      "\<forall>b \<in> in_use bs. \<forall>n. sz (start b + header_size) = Some n \<longrightarrow> n \<le> unat (capacity b)"
    using assms(1) by (auto simp: objects_def)
  obtain k H' bs' where k: "heap_ok L M H' bs' s'" "unat n \<le> unat k"
      "in_use bs' = insert (Block (p - header_size) k False) (in_use bs)"
      "Block (p - header_size) k False \<notin> in_use bs" "undisturbed L (H \<union> free_pages s) (in_use bs) s s'"
    using kmalloc_spec [OF h(1) assms(2)] assms(3) by auto
  have fresh: "start b + header_size \<noteq> p" if "b \<in> in_use bs" for b
    using in_use_unique [OF k(1), of b "Block (p - header_size) k False"] k(3,4) that by auto
  then show none: "sz p = None" using h(2) by (metis (no_types, lifting) domIff imageE)
  have "dom (sz(p \<mapsto> unat n)) = (\<lambda>b. start b + header_size) ` in_use bs'"
    by (simp add: h(2) k(3))
  moreover have "\<forall>b \<in> in_use bs'. \<forall>m. (sz(p \<mapsto> unat n)) (start b + header_size) = Some m \<longrightarrow> m \<le> unat (capacity b)"
    using h(3) k(2) fresh by (auto simp: k(3))
  ultimately show "objects L M s' (sz(p \<mapsto> unat n))" using k(1) unfolding objects_def by blast
  assume q: "sz q = Some j" "i < j"
  obtain l where "Block (q - header_size) l False \<in> in_use bs" "j \<le> unat l"
    using object_block [OF h(2,3) q(1)] by blast
  then show "object_byte s' q i = object_byte s q i"
    using k(5) object_byte_payload [OF q(2)] by (auto simp: undisturbed_def object_byte_def)
qed

lemma objects_release:
  assumes "objects L M s sz" and "sz p = Some n"
  shows "\<exists>s'. kfree p s = Inr s' \<and> objects L M s' (sz(p := None))
    \<and> (\<forall>q j i. q \<noteq> p \<longrightarrow> sz q = Some j \<longrightarrow> i < j \<longrightarrow> object_byte s' q i = object_byte s q i)"
proof -
  obtain H bs where h: "heap_ok L M H bs s" "dom sz = (\<lambda>b. start b + header_size) ` in_use bs"
      "\<forall>b \<in> in_use bs. \<forall>n. sz (start b + header_size) = Some n \<longrightarrow> n \<le> unat (capacity b)"
    using assms(1) by (auto simp: objects_def)
  obtain k where k: "Block (p - header_size) k False \<in> in_use bs" using object_block [OF h(2,3) assms(2)] by blast
  let ?b = "Block (p - header_size) k False"
  obtain s' bs' where s': "kfree p s = Inr s'" "heap_ok L M H bs' s'" "in_use bs' = in_use bs - {?b}"
      "undisturbed L H (in_use bs - {?b}) s s'"
    using kfree_spec [OF h(1) k] by auto
  have other: "start b + header_size \<noteq> p" if "b \<in> in_use bs" "b \<noteq> ?b" for b
    using in_use_unique [OF h(1) that(1) k] that(2) by auto
  have "dom (sz(p := None)) = (\<lambda>b. start b + header_size) ` in_use bs'"
    using other by (auto simp: h(2) s'(3))
  moreover have "\<forall>b \<in> in_use bs'. \<forall>m. (sz(p := None)) (start b + header_size) = Some m \<longrightarrow> m \<le> unat (capacity b)"
    using h(3) by (auto simp: s'(3))
  ultimately have "objects L M s' (sz(p := None))" using s'(2) unfolding objects_def by blast
  moreover have "object_byte s' q i = object_byte s q i" if q: "q \<noteq> p" "sz q = Some j" "i < j" for q j i
  proof -
    obtain l where "Block (q - header_size) l False \<in> in_use bs" "j \<le> unat l"
      using object_block [OF h(2,3) q(2)] by blast
    moreover have "Block (q - header_size) l False \<noteq> ?b" using q(1) by auto
    moreover have "q + of_nat i \<in> payload (Block (q - header_size) l False)"
      by (rule object_byte_payload [OF q(3) \<open>j \<le> unat l\<close>])
    ultimately show ?thesis
      using s'(4) unfolding undisturbed_def object_byte_def by blast
  qed
  ultimately show ?thesis using s'(1) by blast
qed

lemma objects_store:
  assumes "objects L M s sz" and "sz p = Some n" and "i < n"
  shows "objects L M (store_byte p i v s) sz" and "object_byte (store_byte p i v s) p i = v"
    and "sz q = Some j \<Longrightarrow> i' < j \<Longrightarrow> (q, i') \<noteq> (p, i) \<Longrightarrow>
      object_byte (store_byte p i v s) q i' = object_byte s q i'"
proof -
  obtain H bs where h: "heap_ok L M H bs s" "dom sz = (\<lambda>b. start b + header_size) ` in_use bs"
      "\<forall>b \<in> in_use bs. \<forall>n. sz (start b + header_size) = Some n \<longrightarrow> n \<le> unat (capacity b)"
    using assms(1) by (auto simp: objects_def)
  obtain k where k: "Block (p - header_size) k False \<in> in_use bs" "n \<le> unat k"
    using object_block [OF h(2,3) assms(2)] by blast
  note x = object_byte_payload [OF assms(3) k(2), of p]
  note w = object_write [OF h(1) k(1) x]
  show "objects L M (store_byte p i v s) sz"
    using w(1) h(2,3) unfolding objects_def store_byte_def by blast
  show "object_byte (store_byte p i v s) p i = v" by (simp add: object_byte_def store_byte_def)
  assume q: "sz q = Some j" "i' < j" "(q, i') \<noteq> (p, i)"
  obtain l where l: "Block (q - header_size) l False \<in> in_use bs" "j \<le> unat l"
    using object_block [OF h(2,3) q(1)] by blast
  have "q + of_nat i' \<noteq> p + of_nat i"
  proof (cases "q = p")
    case True
    then have "i' \<noteq> i" "i' < 2 ^ 64" "i < 2 ^ 64"
      using q l(2) k(2) assms(3) less_unat_64 [of i' l] less_unat_64 [of i k] by auto
    then have "(of_nat i' :: u64) \<noteq> of_nat i" using unat_of_nat_64 by metis
    then show ?thesis using True by simp
  next
    case False
    then show ?thesis using w(2) [OF l(1)] object_byte_payload [OF q(2) l(2), of q] by auto
  qed
  then show "object_byte (store_byte p i v s) q i' = object_byte s q i'"
    by (simp add: object_byte_def store_byte_def)
qed

interpretation kheap_objects: object_heap "kmalloc L" kfree object_byte store_byte "objects L M" heap_request unat
  for L :: limine and M :: "nat set"
proof (unfold_locales, goal_cases)
  case (1 s sz n p s')
  then show ?case using objects_alloc [OF 1] by blast
next
  case (2 s sz p k)
  then show ?case by (rule objects_release)
next
  case (3 s sz p k i b)
  then show ?case using objects_store [OF 3] by blast
qed

lemma kzalloc_stores:
  assumes "kheap_objects.stores L M s \<sigma>" and "heap_request n" and "kzalloc L n s = Some (Inr (p, s'))"
  shows "kheap_objects.stores L M s' (\<sigma>(p \<mapsto> replicate (unat n) 0))"
proof -
  obtain s1 where s1: "kmalloc L n s = Some (Inr (p, s1))" "s' = fill p 0 n s1"
    using assms(3) by (auto simp: kzalloc_def bindE_Inr_iff)
  let ?\<sigma> = "\<sigma>(p \<mapsto> kheap_objects.contents s1 p (unat n))"
  note st = kheap_objects.stores_alloc(2) [OF assms(1,2) s1(1)]
  then have "objects L M s1 (\<lambda>q. map_option length (?\<sigma> q))" by (simp add: kheap_objects.stores_def)
  then obtain H bl where h: "heap_ok L M H bl s1"
      "dom (\<lambda>q. map_option length (?\<sigma> q)) = (\<lambda>b. start b + header_size) ` in_use bl"
      "\<forall>b \<in> in_use bl. \<forall>n. map_option length (?\<sigma> (start b + header_size)) = Some n \<longrightarrow> n \<le> unat (capacity b)"
    unfolding objects_def by blast
  have len: "map_option length (?\<sigma> p) = Some (unat n)" by (simp add: kheap_objects.contents_def)
  obtain k where k: "Block (p - header_size) k False \<in> in_use bl" "unat n \<le> unat k"
    using object_block [OF h(2,3) len] by blast
  note f = object_fill [OF h(1) k, where c = 0, simplified, folded s1(2)]
  have "objects L M s' (\<lambda>q. map_option length (?\<sigma> q))" using f(1) h(2,3) unfolding objects_def by blast
  then show ?thesis
  proof (rule kheap_objects.storesI)
    show "map_option length (?\<sigma> q) = map_option length ((\<sigma>(p \<mapsto> replicate (unat n) 0)) q)" for q
      by (simp add: kheap_objects.contents_def)
    show "object_byte s' q i = bs ! i"
      if q: "(\<sigma>(p \<mapsto> replicate (unat n) 0)) q = Some bs" "i < length bs" for q bs i
    proof (cases "q = p")
      case True
      then have "i < unat n" "bs ! i = 0" using q by auto
      moreover from this have "in_rng p (unat n) (p + of_nat i)"
        using less_unat_64 [of i n] by (intro in_rng_offset)
      ultimately show ?thesis using True by (simp add: object_byte_def s1(2) fill_def memset_apply)
    next
      case False
      then have sq: "?\<sigma> q = Some bs" using q(1) by simp
      then have "map_option length (?\<sigma> q) = Some (length bs)" by simp
      then obtain l where l: "Block (q - header_size) l False \<in> in_use bl" "length bs \<le> unat l"
        using object_block [OF h(2,3)] by blast
      have "Block (q - header_size) l False \<noteq> Block (p - header_size) k False" using False by auto
      then have "object_byte s' q i = object_byte s1 q i"
        using f(3) [OF l(1)] object_byte_payload [OF q(2) l(2)] by (simp add: object_byte_def)
      then show ?thesis using kheap_objects.stores_get [OF st sq q(2)] by simp
    qed
  qed
qed

text \<open>Another client of the page-frame allocator takes pages that are free, never pages of the heap.\<close>

lemma pmm_alloc_stores:
  assumes "kheap_objects.stores L M s \<sigma>" and "small_request pages" and "pmm_alloc pages s = Inr (a, s')"
  shows "kheap_objects.stores L M s' \<sigma>"
proof -
  let ?sz = "\<lambda>q. map_option length (\<sigma> q)"
  have "objects L M s ?sz" using assms(1) by (simp add: kheap_objects.stores_def)
  then obtain H bl where h: "heap_ok L M H bl s" "dom ?sz = (\<lambda>b. start b + header_size) ` in_use bl"
      "\<forall>b \<in> in_use bl. \<forall>n. ?sz (start b + header_size) = Some n \<longrightarrow> n \<le> unat (capacity b)"
    unfolding objects_def by blast
  have ready: "pmm_ready L M s" and np: "npages s \<le> 2 ^ 51" and HM: "H \<subseteq> M" "H \<inter> free_pages s = {}"
    and hl: "heap_list L H bl s" using h(1) by (simp_all add: heap_ok_def)
  have "sint pages = int (nat (sint pages))" using assms(2) by (simp add: small_request_def)
  from heap_pages [OF ready np assms(2) this] assms(3)
  obtain Q where p: "free_pages s' = free_pages s - Q" "pmm_ready L M s'" "s' = s\<lparr>mem := mem s'\<rparr>"
      "\<And>x. \<not> in_rng (bitmap s) (unat (bitmapSize s)) x \<Longrightarrow> mem s' x = mem s x"
    by auto
  obtain m where m: "s' = s\<lparr>mem := m\<rparr>" using p(3) by blast
  have same: "mem s' x = mem s x" if "page_of L x \<in> H" for x
    using that HM(1) ready by (intro p(4)) (auto simp: pmm_ready_def)
  have "heap_list L H bl s'"
    by (rule heap_list_frame [OF hl]) (use same heads_pages [OF hl] in \<open>simp_all add: m\<close>)
  then have "heap_ok L M H bl s'" using h(1) p(1,2) by (auto simp: heap_ok_def m npages_def)
  then have "objects L M s' ?sz" using h(2,3) unfolding objects_def by blast
  then show ?thesis
  proof (rule kheap_objects.storesI)
    fix q bs i assume q: "\<sigma> q = Some bs" "i < length bs"
    then have "?sz q = Some (length bs)" by simp
    then obtain k where k: "Block (q - header_size) k False \<in> in_use bl" "length bs \<le> unat k"
      using object_block [OF h(2,3)] by blast
    have bin: "Block (q - header_size) k False \<in> set bl" using k(1) by (simp add: in_use_def)
    then have "block_ok L H (Block (q - header_size) k False)" using hl by (auto simp: heap_list_def)
    from payload_in_extent(1) [OF block_ok_size [OF this]]
    have "payload (Block (q - header_size) k False) \<subseteq> extent (Block (q - header_size) k False)" .
    then have "page_of L (q + of_nat i) \<in> H"
      using block_pages [OF hl bin] object_byte_payload [OF q(2) k(2)] by blast
    then have "object_byte s' q i = object_byte s q i" using same by (simp add: object_byte_def)
    then show "object_byte s' q i = bs ! i" using kheap_objects.stores_get [OF assms(1) q] by simp
  qed simp
qed

section \<open>Histories\<close>

text \<open>
  The kernel's use of the heap, with the bytes the owners of the objects rely on: allocations,
  zeroed allocations, releases of live objects, stores into them, and page allocations by other
  clients in between.
\<close>

inductive heap_step :: "limine \<Rightarrow> kstate \<times> (u64 \<Rightarrow> u8 list option) \<Rightarrow> kstate \<times> (u64 \<Rightarrow> u8 list option) \<Rightarrow> bool"
  for L :: limine where
  step_kmalloc: "heap_request n \<Longrightarrow> kmalloc L n s = Some (Inr (p, s')) \<Longrightarrow>
     heap_step L (s, \<sigma>) (s', \<sigma>(p \<mapsto> read_bytes (mem s') p (unat n)))"
| step_kzalloc: "heap_request n \<Longrightarrow> kzalloc L n s = Some (Inr (p, s')) \<Longrightarrow>
     heap_step L (s, \<sigma>) (s', \<sigma>(p \<mapsto> replicate (unat n) 0))"
| step_kfree: "\<sigma> p = Some bs \<Longrightarrow> kfree p s = Inr s' \<Longrightarrow> heap_step L (s, \<sigma>) (s', \<sigma>(p := None))"
| step_store: "\<sigma> p = Some bs \<Longrightarrow> i < length bs \<Longrightarrow>
     heap_step L (s, \<sigma>) (store_byte p i v s, \<sigma>(p \<mapsto> bs[i := v]))"
| step_pages: "small_request pages \<Longrightarrow> pmm_alloc pages s = Inr (a, s') \<Longrightarrow> heap_step L (s, \<sigma>) (s', \<sigma>)"

inductive heap_reachable :: "limine \<Rightarrow> kstate \<Rightarrow> kstate \<times> (u64 \<Rightarrow> u8 list option) \<Rightarrow> bool"
  for L :: limine and s0 :: kstate where
  heap_start: "heap_reachable L s0 (s0, \<lambda>_. None)"
| heap_more: "heap_reachable L s0 c \<Longrightarrow> heap_step L c c' \<Longrightarrow> heap_reachable L s0 c'"

lemma contents_read_bytes: "kheap_objects.contents s p n = read_bytes (mem s) p n"
  by (simp add: kheap_objects.contents_def read_bytes_def object_byte_def)

lemma heap_step_stores:
  "heap_step L c c' \<Longrightarrow> kheap_objects.stores L M (fst c) (snd c) \<Longrightarrow> kheap_objects.stores L M (fst c') (snd c')"
proof (induction rule: heap_step.induct)
  case (step_kmalloc n s p s' \<sigma>)
  then show ?case using kheap_objects.stores_alloc(2) [of L M s \<sigma> n p s']
    by (simp add: contents_read_bytes del: fun_upd_apply)
next
  case (step_kzalloc n s p s' \<sigma>)
  then show ?case using kzalloc_stores [of L M s \<sigma> n p s'] by (simp del: fun_upd_apply)
next
  case (step_kfree \<sigma> p bs s s')
  then show ?case using kheap_objects.stores_release [of L M s \<sigma> p bs] by (auto simp del: fun_upd_apply)
next
  case (step_store \<sigma> p bs i s v)
  then show ?case using kheap_objects.stores_put [of L M s \<sigma> p bs i v] by (simp del: fun_upd_apply)
next
  case (step_pages pages s a s' \<sigma>)
  then show ?case using pmm_alloc_stores [of L M s \<sigma> pages a s'] by simp
qed

lemma kheap_init_stores:
  assumes "pmm_ready L M s" and "npages s \<le> 2 ^ 51" and "page_of L 0 \<notin> M" and "kheap_init L s = Inr (r, s')"
  shows "kheap_objects.stores L M s' (\<lambda>_. None)"
proof -
  obtain H bl where "heap_ok L M H bl s'" "in_use bl = {}"
    using kheap_init_spec [OF assms(1-3)] assms(4) by fastforce
  then have "objects L M s' (\<lambda>_. None)" unfolding objects_def by (intro exI [of _ H] exI [of _ bl]) simp
  then show ?thesis by (simp add: kheap_objects.stores_def)
qed

lemma heap_reachable_stores:
  assumes "pmm_ready L M s" and "npages s \<le> 2 ^ 51" and "page_of L 0 \<notin> M" and "kheap_init L s = Inr (r, s1)"
  shows "heap_reachable L s1 c \<Longrightarrow> kheap_objects.stores L M (fst c) (snd c)"
proof (induction rule: heap_reachable.induct)
  case heap_start
  then show ?case using kheap_init_stores [OF assms] by simp
next
  case (heap_more c c')
  then show ?case by (blast intro: heap_step_stores)
qed

end
