(* ===== verification/Heap_Props.thy ===== *)
theory Heap_Props
  imports Heap_Spec
begin

text \<open>
  The properties of the kernel heap: allocation and release against their description on the
  list of blocks, that a call of \<^verbatim>\<open>kmalloc\<close> returns, the checks of \<^verbatim>\<open>kfree\<close>, and the safety
  of every history of the heap.
\<close>

section \<open>An example heap\<close>

definition example_heap :: "nat \<Rightarrow> kstate \<Rightarrow> bool" where
  "example_heap q s \<longleftrightarrow> (\<exists>s0. pmm_init example_limine example_pmm = Inr (0, s0)
     \<and> kheap_init example_limine s0 = Inr (0, s) \<and> {q..<q + 16} \<subseteq> free_pages s0)"

abbreviation example_pages :: "nat set" where
  "example_pages \<equiv> initial_pages example_limine 2 0"

abbreviation example_blocks :: "nat \<Rightarrow> heap_block list" where
  "example_blocks q \<equiv> [Block (page_addr example_limine q) 65504 True]"

lemma example_null: "page_of example_limine 0 \<notin> example_pages"
  unfolding example_initial_pages by (simp add: page_of_def boot_proto_hhdm_offset_def example_limine_def)

lemma example_heap:
  "\<exists>q s. example_heap q s \<and> heap_ok example_limine example_pages {q..<q + 16} (example_blocks q) s
     \<and> q < 2 ^ 52"
proof -
  obtain s0 where s0: "pmm_init example_limine example_pmm = Inr (0, s0)" "free_pages s0 = example_pages"
      "pmm_ready example_limine example_pages s0" "npages s0 \<le> 2 ^ 51"
    using example_booted by blast
  have "{0x100..<0x100 + 16} \<subseteq> free_pages s0" unfolding s0(2) example_initial_pages by auto
  then have run: "\<not> (\<forall>b. \<not> {b..<b + 16} \<subseteq> free_pages s0)" by blast
  then obtain q s where q: "kheap_init example_limine s0 = Inr (0, s)" "{q..<q + 16} \<subseteq> free_pages s0"
      "heap_ok example_limine example_pages {q..<q + 16} (example_blocks q) s"
    using kheap_init_spec [OF s0(3,4) example_null] by (cases "kheap_init example_limine s0") auto
  have "q \<in> {q..<q + 16}" by simp
  then have "q \<in> example_pages" using q(2) s0(2) by blast
  then have "q < 2 ^ 52" unfolding example_initial_pages by auto
  with q s0(1) show ?thesis unfolding example_heap_def by blast
qed

section \<open>Sizes\<close>

text \<open>C17: \<^verbatim>\<open>kmalloc\<close> rounds a request up, by less than 16 bytes, and rounding is stable. The
  result is a multiple of 16 unless the request is a multiple of ten: the test in the code is
  \<^verbatim>\<open>size % 10\<close>, so that a request of 10 bytes is taken as it is.\<close>

theorem kmalloc_size_rounds:
  assumes "unat sz \<le> 2 ^ 30"
  shows "unat sz \<le> unat (kmalloc_size sz) \<and> unat (kmalloc_size sz) < unat sz + 16
    \<and> kmalloc_size (kmalloc_size sz) = kmalloc_size sz
    \<and> (unat (kmalloc_size sz) mod 16 = 0 \<longleftrightarrow> unat sz mod 10 \<noteq> 0 \<or> unat sz mod 16 = 0)"
proof -
  have "unat sz mod 10 = 0 \<longleftrightarrow> sz mod 10 = 0" by (simp add: word_unat_eq_iff unat_mod)
  moreover have "16 dvd unat (ALIGN_UP sz 0x10)" using ALIGN_UP_bounds(1) [of "0x10 :: u64" sz] assms by simp
  ultimately have "unat (kmalloc_size sz) mod 16 = 0 \<longleftrightarrow> unat sz mod 10 \<noteq> 0 \<or> unat sz mod 16 = 0"
    by (auto simp: kmalloc_size_def)
  then show ?thesis using kmalloc_size_fixed [OF assms] by blast
qed

theorem kmalloc_size_rounds_witness:
  "unat (kmalloc_size 17) mod 16 = 0 \<and> unat (kmalloc_size 10) mod 16 \<noteq> 0"
  using kmalloc_size_rounds [of 17] kmalloc_size_rounds [of 10] by simp

section \<open>Allocation\<close>

lemma kmalloc_list:
  assumes "heap_ok L M H bs s" and "heap_request sz"
  shows "case first_fit (kmalloc_size sz) bs of
      Some (p, bs') \<Rightarrow> \<exists>s'. kmalloc L sz s = Some (Inr (p, s')) \<and> heap_ok L M H bs' s'
    | None \<Rightarrow> (let k = extend_pages (kmalloc_size sz) in
        if \<exists>b. {b..<b + k} \<subseteq> free_pages s
        then (\<exists>q p bs' s'. {q..<q + k} \<subseteq> free_pages s
            \<and> first_fit (kmalloc_size sz) (bs @ [Block (page_addr L q) (of_nat (k * 4096 - 32)) True]) = Some (p, bs')
            \<and> kmalloc L sz s = Some (Inr (p, s')) \<and> heap_ok L M (H \<union> {q..<q + k}) bs' s')
        else kmalloc L sz s = Some (Inl (Halted (con s @ oom_message))))"
proof -
  let ?n = "kmalloc_size sz" and ?k = "extend_pages (kmalloc_size sz)"
  have "unat sz \<le> 2 ^ 30" using assms(2) by (simp add: heap_request_def)
  note nb = kmalloc_size_fixed [OF this]
  have n: "unat ?n \<le> 2 ^ 30" "unat ?n + 32 < 2 ^ 64"
    using nb(2) assms(2) by (simp_all add: heap_request_def)
  have hl: "heap_list L H bs s" using assms(1) by (simp add: heap_ok_def)
  show ?thesis
  proof (cases "first_fit ?n bs")
    case None
    then have nofit: "\<forall>b \<in> set bs. \<not> fits ?n b" by (simp add: first_fit_None)
    then have scan: "kmalloc_scan ?n (blockListStart s) s = Some None"
      using hl heap_list_nonzero [OF hl] kmalloc_scan_none [of s 0 bs ?n] by (auto simp: heap_list_def)
    note ext = kheap_extend_spec [OF assms(1) n(1)]
    show ?thesis
    proof (cases "kheap_extend L ?n s")
      case (Inl e)
      then have "kmalloc L sz s = Some (Inl e)" by (subst kmalloc.simps) (simp add: scan Let_def)
      then show ?thesis using ext Inl None by simp
    next
      case (Inr s1)
      then obtain q z where q: "{q..<q + ?k} \<subseteq> free_pages s" "unat z = ?k * 4096 - 32"
          "heap_ok L M (H \<union> {q..<q + ?k}) (bs @ [Block (page_addr L q) z True]) s1"
        using ext by auto
      have z: "of_nat (?k * 4096 - 32) = z" by (simp add: q(2) [symmetric] del: of_nat_diff)
      have "fits ?n (Block (page_addr L q) z True)" using extend_size(6) [OF n(1)] q(2) by (simp add: fits_def)
      then obtain p s' bs' where t: "kmalloc_scan ?n (blockListStart s1) s1 = Some (Some (p, s'))"
          "heap_ok L M (H \<union> {q..<q + ?k}) bs' s'"
          "first_fit ?n (bs @ [Block (page_addr L q) z True]) = Some (p, bs')"
        using take_spec [OF q(3) n(2), of "Block (page_addr L q) z True"] by auto
      have "kmalloc L ?n s1 = Some (Inr (p, s'))" by (subst kmalloc.simps) (simp add: t(1) nb(3) Let_def)
      then have "kmalloc L sz s = Some (Inr (p, s'))"
        by (subst kmalloc.simps) (simp add: scan Inr Let_def)
      then have "\<exists>q p bs' s'. {q..<q + ?k} \<subseteq> free_pages s
            \<and> first_fit ?n (bs @ [Block (page_addr L q) (of_nat (?k * 4096 - 32)) True]) = Some (p, bs')
            \<and> kmalloc L sz s = Some (Inr (p, s')) \<and> heap_ok L M (H \<union> {q..<q + ?k}) bs' s'"
        using q(1) t(2,3) unfolding z by blast
      moreover have "\<exists>b. {b..<b + ?k} \<subseteq> free_pages s" using q(1) by blast
      ultimately show ?thesis using None by (simp only: Let_def option.case if_True)
    qed
  next
    case (Some r)
    then have "\<exists>b \<in> set bs. fits ?n b" using first_fit_None [of ?n bs] by auto
    then obtain b where "b \<in> set bs" "fits ?n b" by blast
    from take_spec [OF assms(1) n(2) this] Some
    obtain p s' bs' where t: "kmalloc_scan ?n (blockListStart s) s = Some (Some (p, s'))"
        "heap_ok L M H bs' s'" "r = (p, bs')" by auto
    have "kmalloc L sz s = Some (Inr (p, s'))" by (subst kmalloc.simps) (simp add: t(1) Let_def)
    then show ?thesis using t Some by simp
  qed
qed

text \<open>C13: refinement. \<^verbatim>\<open>kmalloc\<close> does on the headers in memory what first fit with splitting does
  on the list of blocks; when no block fits it first appends a block of whole pages, large
  enough for the request, or halts when physical memory has no such run of pages.\<close>

theorem kmalloc_first_fit:
  assumes "heap_ok L M H bs s" and "heap_request sz"
  shows "case first_fit (kmalloc_size sz) bs of
      Some (p, bs') \<Rightarrow> \<exists>s'. kmalloc L sz s = Some (Inr (p, s')) \<and> heap_ok L M H bs' s'
    | None \<Rightarrow> (let k = extend_pages (kmalloc_size sz) in
        if \<exists>b. {b..<b + k} \<subseteq> free_pages s
        then (\<exists>q p bs' s'. {q..<q + k} \<subseteq> free_pages s
            \<and> first_fit (kmalloc_size sz) (bs @ [Block (page_addr L q) (of_nat (k * 4096 - 32)) True]) = Some (p, bs')
            \<and> kmalloc L sz s = Some (Inr (p, s')) \<and> heap_ok L M (H \<union> {q..<q + k}) bs' s')
        else kmalloc L sz s = Some (Inl (Halted (con s @ oom_message))))"
  using assms by (rule kmalloc_list)

theorem kmalloc_first_fit_witness:
  "\<exists>q s s'. example_heap q s
     \<and> kmalloc example_limine 100 s = Some (Inr (page_addr example_limine q + 32, s'))
     \<and> heap_ok example_limine example_pages {q..<q + 16}
         [Block (page_addr example_limine q) 100 False,
          Block (page_addr example_limine q + 132) 65372 True] s'"
proof -
  obtain q s where h: "example_heap q s" "heap_ok example_limine example_pages {q..<q + 16} (example_blocks q) s"
    using example_heap by blast
  have r: "heap_request 100" by (simp add: heap_request_def)
  have "first_fit (kmalloc_size 100) (example_blocks q) = Some (page_addr example_limine q + 32,
      [Block (page_addr example_limine q) 100 False, Block (page_addr example_limine q + 132) 65372 True])"
    by (simp add: kmalloc_size_def fits_def carve_def header_size_def)
  then show ?thesis using kmalloc_first_fit [OF h(2) r] h(1) by auto
qed

section \<open>Release\<close>

text \<open>C14: \<^verbatim>\<open>kfree\<close> of an object releases exactly its block: on the list it marks the block free and
  joins it with the free blocks directly behind and before it, the bytes of the object are
  poisoned with \<open>0xFF\<close>, no byte of another object changes, and no page leaves the heap.\<close>

theorem kfree_releases:
  assumes "heap_ok L M H bs s" and "Block (p - header_size) k False \<in> set bs"
  shows "\<exists>s'. kfree p s = Inr s' \<and> heap_ok L M H (release_block p bs) s'
    \<and> in_use (release_block p bs) = in_use bs - {Block (p - header_size) k False}
    \<and> (\<forall>i < unat k. mem s' (p + of_nat i) = 0xff)
    \<and> (\<forall>b \<in> in_use bs - {Block (p - header_size) k False}. \<forall>x \<in> payload b. mem s' x = mem s x)
    \<and> free_pages s' = free_pages s"
proof -
  have "Block (p - header_size) k False \<in> in_use bs" using assms(2) by (simp add: in_use_def)
  from kfree_spec [OF assms(1) this] obtain s' where s': "kfree p s = Inr s'" "heap_ok L M H (release_block p bs) s'"
      "in_use (release_block p bs) = in_use bs - {Block (p - header_size) k False}"
      "free_pages s' = free_pages s" "undisturbed L H (in_use bs - {Block (p - header_size) k False}) s s'"
      "\<forall>x \<in> payload (Block (p - header_size) k False). mem s' x = 0xff" by auto
  have "mem s' (p + of_nat i) = 0xff" if "i < unat k" for i
    using s'(6) object_byte_payload [OF that order_refl, of p] by blast
  then show ?thesis using s'(1-5) unfolding undisturbed_def by blast
qed

text \<open>Two objects at the start of the example heap.\<close>

lemma example_objects:
  "\<exists>q s p s1 s2. example_heap q s \<and> p = page_addr example_limine q
    \<and> kmalloc example_limine 100 s = Some (Inr (p + 32, s1))
    \<and> kmalloc example_limine 200 s1 = Some (Inr (p + 164, s2))
    \<and> heap_ok example_limine example_pages {q..<q + 16}
        [Block p 100 False, Block (p + 132) 200 False, Block (p + 364) 65140 True] s2"
proof -
  obtain q s where h: "example_heap q s" "heap_ok example_limine example_pages {q..<q + 16} (example_blocks q) s"
    using example_heap by blast
  define p where "p = page_addr example_limine q"
  have r: "heap_request 100" "heap_request 200" by (simp_all add: heap_request_def)
  have "first_fit (kmalloc_size 100) (example_blocks q) = Some (p + 32, [Block p 100 False, Block (p + 132) 65372 True])"
    by (simp add: kmalloc_size_def fits_def carve_def header_size_def p_def)
  then obtain s1 where s1: "kmalloc example_limine 100 s = Some (Inr (p + 32, s1))"
      "heap_ok example_limine example_pages {q..<q + 16} [Block p 100 False, Block (p + 132) 65372 True] s1"
    using kmalloc_list [OF h(2) r(1)] by auto
  have "first_fit (kmalloc_size 200) [Block p 100 False, Block (p + 132) 65372 True] =
      Some (p + 164, [Block p 100 False, Block (p + 132) 200 False, Block (p + 364) 65140 True])"
    by (simp add: kmalloc_size_def fits_def carve_def header_size_def)
  then obtain s2 where "kmalloc example_limine 200 s1 = Some (Inr (p + 164, s2))"
      "heap_ok example_limine example_pages {q..<q + 16}
        [Block p 100 False, Block (p + 132) 200 False, Block (p + 364) 65140 True] s2"
    using kmalloc_list [OF s1(2) r(2)] by auto
  then show ?thesis using h(1) s1(1) p_def by blast
qed

theorem kfree_releases_witness:
  "\<exists>q s p s1 s2 s3. example_heap q s \<and> kmalloc example_limine 100 s = Some (Inr (p + 32, s1))
    \<and> kmalloc example_limine 200 s1 = Some (Inr (p + 164, s2)) \<and> kfree (p + 164) s2 = Inr s3
    \<and> heap_ok example_limine example_pages {q..<q + 16} [Block p 100 False, Block (p + 132) 65372 True] s3"
proof -
  obtain q s p s1 s2 where e: "example_heap q s" "p = page_addr example_limine q"
      "kmalloc example_limine 100 s = Some (Inr (p + 32, s1))"
      "kmalloc example_limine 200 s1 = Some (Inr (p + 164, s2))"
      "heap_ok example_limine example_pages {q..<q + 16}
        [Block p 100 False, Block (p + 132) 200 False, Block (p + 364) 65140 True] s2"
    using example_objects by blast
  let ?bs = "[Block p 100 False, Block (p + 132) 200 False, Block (p + 364) 65140 True]"
  have b: "Block (p + 164 - header_size) 200 False \<in> set ?bs" by (simp add: header_size_def)
  have "release_block (p + 164) ?bs = [Block p 100 False, Block (p + 132) 65372 True]"
    by (simp add: release_block_def release_between_def join_prev_def header_size_def)
  then show ?thesis using kfree_releases [OF e(5) b] e(1,3,4) by auto
qed

text \<open>C16: the checks of \<^verbatim>\<open>kfree\<close>. \<^verbatim>\<open>NULL\<close> is ignored. A pointer to a free block, and a second release
  of the same object, print a warning and change nothing else.\<close>

theorem kfree_rejects:
  assumes "heap_ok L M H bs s" and "Block (p - header_size) k f \<in> set bs"
  shows "kfree 0 s = Inr s
    \<and> (let warned = (\<lambda>s. s\<lparr>con := con s @ log_prefix LOGLEVEL_WARN @ ''Invalid kfree() address!\<newline>''\<rparr>) in
        if f then kfree p s = Inr (warned s)
        else \<exists>s'. kfree p s = Inr s' \<and> kfree p s' = Inr (warned s'))"
proof -
  have hl: "heap_list L H bs s" using assms(1) by (simp add: heap_ok_def)
  obtain xs ys where bs: "bs = xs @ Block (p - header_size) k f # ys" using split_list [OF assms(2)] by blast
  have "p \<noteq> 0" using hl assms(2) by (auto simp: heap_list_def block_ok_def)
  then have warn: "kfree p t = Inr (t\<lparr>con := con t @ log_prefix LOGLEVEL_WARN @ ''Invalid kfree() address!\<newline>''\<rparr>)"
    if "blk_free (hdr t (p - header_size))" for t
    using that by (simp add: kfree_def klog_literal)
  have zero: "kfree 0 s = Inr s" by (simp add: kfree_def)
  show ?thesis
  proof (cases f)
    case True
    then have "blk_free (hdr s (p - header_size))" using heap_list_header [OF hl [unfolded bs]] by simp
    then show ?thesis using warn zero True by (simp add: Let_def)
  next
    case False
    then have "Block (p - header_size) k False \<in> in_use bs" using assms(2) by (simp add: in_use_def)
    from kfree_spec [OF assms(1) this] obtain s' where "kfree p s = Inr s'" "blk_free (hdr s' (p - header_size))" by auto
    then show ?thesis using warn zero False by (simp add: Let_def)
  qed
qed

theorem kfree_rejects_witness:
  "\<exists>q s p s1 s2 s3 s4. example_heap q s \<and> kmalloc example_limine 100 s = Some (Inr (p + 32, s1))
    \<and> kmalloc example_limine 200 s1 = Some (Inr (p + 164, s2)) \<and> kfree (p + 164) s2 = Inr s3
    \<and> kfree (p + 164) s3 = Inr s4 \<and> mem s4 = mem s3
    \<and> con s4 = con s3 @ ''[ WARN  ] Invalid kfree() address!\<newline>''"
proof -
  obtain q s p s1 s2 where e: "example_heap q s" "p = page_addr example_limine q"
      "kmalloc example_limine 100 s = Some (Inr (p + 32, s1))"
      "kmalloc example_limine 200 s1 = Some (Inr (p + 164, s2))"
      "heap_ok example_limine example_pages {q..<q + 16}
        [Block p 100 False, Block (p + 132) 200 False, Block (p + 364) 65140 True] s2"
    using example_objects by blast
  have "Block (p + 164 - header_size) 200 False
      \<in> set [Block p 100 False, Block (p + 132) 200 False, Block (p + 364) 65140 True]"
    by (simp add: header_size_def)
  from kfree_rejects [OF e(5) this] obtain s3 where "kfree (p + 164) s2 = Inr s3"
      "kfree (p + 164) s3 = Inr (s3\<lparr>con := con s3 @ log_prefix LOGLEVEL_WARN @ ''Invalid kfree() address!\<newline>''\<rparr>)"
    by (auto simp: Let_def)
  moreover have "log_prefix LOGLEVEL_WARN = ''[ WARN  ] ''" by (simp add: log_prefix_def LOGLEVEL_WARN_def LOGLEVEL_TRACE_def LOGLEVEL_DEBUG_def LOGLEVEL_INFO_def)
  ultimately show ?thesis using e(1,3,4) by (intro exI [of _ q] exI [of _ s] exI [of _ p] exI [of _ s1] exI [of _ s2] exI [of _ s3] exI) auto
qed


section \<open>Allocation and release\<close>

text \<open>No two neighbouring blocks are free and adjacent in memory.\<close>

fun coalesced :: "heap_block list \<Rightarrow> bool" where
  "coalesced (b # c # bs) \<longleftrightarrow>
     \<not> (available b \<and> available c \<and> start b + capacity b + header_size = start c) \<and> coalesced (c # bs)"
| "coalesced _ = True"

lemma coalesced_append: "coalesced (xs @ ys) \<Longrightarrow> coalesced ys"
proof (induction xs)
  case (Cons x xs)
  then show ?case by (cases "xs @ ys") auto
qed simp

lemma join_next_coalesced: "coalesced (b # ys) \<Longrightarrow> available b \<Longrightarrow> join_next (b # ys) = b # ys"
  by (cases "b # ys" rule: join_next.cases) auto

lemma join_prev_coalesced:
  assumes "coalesced (xs @ Block a k True # ys)"
  shows "join_prev xs (Block a k True # ys) = xs @ Block a k True # ys"
proof (cases "xs \<noteq> [] \<and> available (last xs)")
  case True
  then obtain zs b where xs: "xs = zs @ [b]" "available b" by (cases xs rule: rev_cases) auto
  then have "coalesced (b # Block a k True # ys)" using assms coalesced_append [of zs "b # Block a k True # ys"] by simp
  then show ?thesis using xs by (simp add: join_prev_def join_next_coalesced del: join_next.simps)
qed (auto simp: join_prev_def)

lemma first_fit_split:
  "first_fit n bs = Some (p, bs') \<Longrightarrow>
   \<exists>xs c ys. bs = xs @ c # ys \<and> fits n c \<and> p = start c + header_size \<and> bs' = xs @ carve n c @ ys"
proof (induction bs arbitrary: p bs')
  case (Cons b bs)
  show ?case
  proof (cases "fits n b")
    case True
    then show ?thesis using Cons.prems by (intro exI [of _ "[]"] exI [of _ b] exI [of _ bs]) simp
  next
    case False
    then obtain r where r: "first_fit n bs = Some (p, r)" "bs' = b # r" using Cons.prems by auto
    obtain xs c ys where "bs = xs @ c # ys" "fits n c" "p = start c + header_size" "r = xs @ carve n c @ ys"
      using Cons.IH [OF r(1)] by blast
    then show ?thesis using r(2) by (intro exI [of _ "b # xs"] exI [of _ c] exI [of _ ys]) simp
  qed
qed simp

lemma release_carve:
  assumes co: "coalesced (xs @ Block a k True # ys)" and sp: "spread (xs @ carve n (Block a k True) @ ys)"
  shows "release_block (a + header_size) (xs @ carve n (Block a k True) @ ys) = xs @ Block a k True # ys"
proof -
  note jp = join_prev_coalesced [OF co]
  note jn = join_next_coalesced [OF coalesced_append [OF co]]
  show ?thesis
  proof (cases "unat k \<le> unat n + 32")
    case True
    then have "carve n (Block a k True) @ ys = Block a k False # ys" by (simp add: carve_def)
    then show ?thesis
      using release_block_at [of xs a k False ys] sp jp jn by (simp add: release_between_def del: join_next.simps)
  next
    case False
    let ?N = "Block (a + header_size + n) (k - (n + header_size)) True"
    have c: "carve n (Block a k True) @ ys = Block a n False # ?N # ys" using False by (simp add: carve_def)
    have "a + n + header_size = a + header_size + n" "n + (k - (n + header_size) + header_size) = k" by simp_all
    then have "join_next (Block a n True # ?N # ys) = Block a k True # ys" by simp
    then show ?thesis
      using release_block_at [of xs a n False "?N # ys"] sp jp
      unfolding c by (simp add: release_between_def del: join_next.simps)
  qed
qed

text \<open>C15: round trip. On a heap without adjacent free blocks, releasing an object right after it
  was allocated from an existing block restores the list of blocks: whatever the allocation
  split off is joined again.\<close>

theorem kmalloc_kfree_roundtrip:
  assumes "heap_ok L M H bs s" and "heap_request sz" and "coalesced bs"
    and "\<exists>b \<in> set bs. fits (kmalloc_size sz) b"
  shows "\<exists>p s' s''. kmalloc L sz s = Some (Inr (p, s')) \<and> kfree p s' = Inr s'' \<and> heap_ok L M H bs s''"
proof -
  obtain p bs' where ff: "first_fit (kmalloc_size sz) bs = Some (p, bs')"
    using assms(4) first_fit_None [of "kmalloc_size sz" bs] by (cases "first_fit (kmalloc_size sz) bs") auto
  obtain s' where s': "kmalloc L sz s = Some (Inr (p, s'))" "heap_ok L M H bs' s'"
    using kmalloc_list [OF assms(1,2)] ff by auto
  obtain xs c ys where c: "bs = xs @ c # ys" "fits (kmalloc_size sz) c" "p = start c + header_size"
      "bs' = xs @ carve (kmalloc_size sz) c @ ys"
    using first_fit_split [OF ff] by blast
  obtain a k where a: "c = Block a k True" using c(2) by (cases c) (simp add: fits_def)
  have "spread bs'" using s'(2) by (simp add: heap_ok_def heap_list_def)
  then have rb: "release_block p bs' = bs" using release_carve [of xs a k ys] assms(3) c a by simp
  have cc: "carved (kmalloc_size sz) c = Block a (capacity (carved (kmalloc_size sz) c)) False"
    by (rule heap_block.expand) (simp add: a)
  have "carved (kmalloc_size sz) c \<in> in_use bs'" by (simp add: c(4))
  then have "Block a (capacity (carved (kmalloc_size sz) c)) False \<in> in_use bs'" by (simp only: cc [symmetric])
  from kfree_spec [OF s'(2) this] obtain s'' where "kfree p s' = Inr s''" "heap_ok L M H bs s''"
    using rb c(3) a by auto
  then show ?thesis using s'(1) by blast
qed

theorem kmalloc_kfree_roundtrip_witness:
  "\<exists>q s p s' s''. example_heap q s \<and> kmalloc example_limine 1000 s = Some (Inr (p, s')) \<and> kfree p s' = Inr s''
    \<and> heap_ok example_limine example_pages {q..<q + 16} (example_blocks q) s''"
proof -
  obtain q s where h: "example_heap q s" "heap_ok example_limine example_pages {q..<q + 16} (example_blocks q) s"
    using example_heap by blast
  have r: "heap_request 1000" by (simp add: heap_request_def)
  have co: "coalesced (example_blocks q)" by simp
  have "kmalloc_size 1000 = 1000" by (simp add: kmalloc_size_def)
  then have "\<exists>b \<in> set (example_blocks q). fits (kmalloc_size 1000) b" by (simp add: fits_def)
  from kmalloc_kfree_roundtrip [OF h(2) r co this] h(1) show ?thesis by blast
qed

section \<open>Histories\<close>

lemma stores_apart:
  assumes "kheap_objects.stores L M s \<sigma>" and "\<sigma> p = Some bs" and "\<sigma> q = Some cs" and "p \<noteq> q"
    and "i < length bs" and "j < length cs"
  shows "p + of_nat i \<noteq> q + of_nat j"
proof -
  let ?sz = "\<lambda>q. map_option length (\<sigma> q)"
  have "objects L M s ?sz" using assms(1) by (simp add: kheap_objects.stores_def)
  then obtain H bl where h: "heap_ok L M H bl s" "dom ?sz = (\<lambda>b. start b + header_size) ` in_use bl"
      "\<forall>b \<in> in_use bl. \<forall>n. ?sz (start b + header_size) = Some n \<longrightarrow> n \<le> unat (capacity b)"
    unfolding objects_def by blast
  obtain k where k: "Block (p - header_size) k False \<in> in_use bl" "length bs \<le> unat k"
    using object_block [OF h(2,3), of p] assms(2) by auto
  obtain l where l: "Block (q - header_size) l False \<in> in_use bl" "length cs \<le> unat l"
    using object_block [OF h(2,3), of q] assms(3) by auto
  have "Block (q - header_size) l False \<noteq> Block (p - header_size) k False" using assms(4) by auto
  from object_write(2) [OF h(1) k(1) object_byte_payload [OF assms(5) k(2)] l(1) this]
  show ?thesis using object_byte_payload [OF assms(6) l(2), of q] by auto
qed

lemma stores_heap_ok:
  assumes "kheap_objects.stores L M s \<sigma>"
  shows "\<exists>H bl. heap_ok L M H bl s"
  using assms by (auto simp: kheap_objects.stores_def objects_def)

text \<open>C4: safety of the heap. After \<^verbatim>\<open>kheap_init\<close>, in every history of allocations, zeroed
  allocations, releases of live objects, stores into live objects and page allocations by other
  parts of the kernel: every live object holds exactly the bytes its owner wrote (zeros after
  \<^verbatim>\<open>kzalloc\<close>), different live objects do not overlap, every live object can be released, and a
  further \<^verbatim>\<open>kmalloc\<close> returns and never gives the pointer of a live object.\<close>

theorem heap_history_safe:
  assumes "pmm_ready L M s0" and "npages s0 \<le> 2 ^ 51" and "page_of L 0 \<notin> M"
    and "kheap_init L s0 = Inr (r, s1)" and "heap_reachable L s1 (s, \<sigma>)"
  shows "(\<forall>p bs. \<sigma> p = Some bs \<longrightarrow> read_bytes (mem s) p (length bs) = bs \<and> (\<exists>s'. kfree p s = Inr s'))
    \<and> (\<forall>p q bs cs. p \<noteq> q \<longrightarrow> \<sigma> p = Some bs \<longrightarrow> \<sigma> q = Some cs \<longrightarrow>
        (\<forall>i < length bs. \<forall>j < length cs. p + of_nat i \<noteq> q + of_nat j))
    \<and> (\<forall>n. heap_request n \<longrightarrow> (\<exists>res. kmalloc L n s = Some res \<and> (\<forall>p s'. res = Inr (p, s') \<longrightarrow> \<sigma> p = None)))"
proof -
  have st: "kheap_objects.stores L M s \<sigma>" using heap_reachable_stores [OF assms] by simp
  obtain H bl where ok: "heap_ok L M H bl s" using stores_heap_ok [OF st] by blast
  have "read_bytes (mem s) p (length bs) = bs" if "\<sigma> p = Some bs" for p bs
    using st that by (simp add: kheap_objects.stores_def contents_read_bytes)
  moreover have "\<exists>s'. kfree p s = Inr s'" if "\<sigma> p = Some bs" for p bs
    using kheap_objects.stores_release [OF st that] by blast
  moreover have "\<exists>res. kmalloc L n s = Some res \<and> (\<forall>p s'. res = Inr (p, s') \<longrightarrow> \<sigma> p = None)"
    if n: "heap_request n" for n
  proof -
    obtain res where "kmalloc L n s = Some res" using kmalloc_spec [OF ok n] by blast
    then show ?thesis using kheap_objects.stores_alloc(1) [OF st n] by blast
  qed
  ultimately show ?thesis using stores_apart [OF st] by blast
qed

theorem heap_history_safe_witness:
  "\<exists>q s p s1 s2 s3. example_heap q s \<and> kzalloc example_limine 100 s = Some (Inr (p, s1))
    \<and> s2 = store_byte p 3 7 s1 \<and> read_bytes (mem s2) p 5 = [0, 0, 0, 7, 0]
    \<and> kfree p s2 = Inr s3"
proof -
  obtain s0 where s0: "pmm_init example_limine example_pmm = Inr (0, s0)" "free_pages s0 = example_pages"
      "pmm_ready example_limine example_pages s0" "npages s0 \<le> 2 ^ 51"
    using example_booted by blast
  obtain q s H where h: "example_heap q s" "heap_ok example_limine example_pages H (example_blocks q) s"
    using example_heap by blast
  then obtain s0' where "pmm_init example_limine example_pmm = Inr (0, s0')" "kheap_init example_limine s0' = Inr (0, s)"
    by (auto simp: example_heap_def)
  then have init: "kheap_init example_limine s0 = Inr (0, s)" using s0(1) by simp
  have r: "heap_request 5" by (simp add: heap_request_def)
  obtain p s1' where "kmalloc example_limine 100 s = Some (Inr (p, s1'))"
  proof -
    have "heap_request 100" by (simp add: heap_request_def)
    moreover have "first_fit (kmalloc_size 100) (example_blocks q) \<noteq> None"
      by (simp add: kmalloc_size_def fits_def)
    ultimately show thesis using kmalloc_list [OF h(2)] that by fastforce
  qed
  then have k: "kzalloc example_limine 100 s = Some (Inr (p, fill p 0 100 s1'))" by (simp add: kzalloc_def)
  define s1 where "s1 = fill p 0 100 s1'"
  define s2 where "s2 = store_byte p 3 7 s1"
  let ?\<sigma> = "(\<lambda>_. None)(p \<mapsto> replicate (unat (100 :: u64)) (0 :: u8))"
  have n: "heap_request 100" by (simp add: heap_request_def)
  have "heap_step example_limine (s, \<lambda>_. None) (s1, ?\<sigma>)" using step_kzalloc [OF n k] by (simp add: s1_def)
  moreover have "heap_step example_limine (s1, ?\<sigma>) (s2, ?\<sigma>(p \<mapsto> (replicate (unat (100 :: u64)) 0)[3 := 7]))"
    unfolding s2_def by (rule step_store) simp_all
  ultimately have "heap_reachable example_limine s (s2, ?\<sigma>(p \<mapsto> (replicate (unat (100 :: u64)) 0)[3 := 7]))"
    by (blast intro: heap_start heap_more)
  note safe = heap_history_safe [OF s0(3,4) example_null init this]
  have bytes: "read_bytes (mem s2) p 100 = (replicate 100 0)[3 := 7]" and rel: "\<exists>s3. kfree p s2 = Inr s3"
    using safe [THEN conjunct1, rule_format, of p "(replicate 100 0)[3 := 7]"] by simp_all
  have "read_bytes (mem s2) p 5 = take 5 (read_bytes (mem s2) p 100)"
    by (simp add: read_bytes_def take_map)
  also have "\<dots> = [0, 0, 0, 7, 0]" unfolding bytes by (simp add: take_update_swap numeral_eq_Suc)
  finally show ?thesis using h(1) k rel unfolding s1_def [symmetric] s2_def by blast
qed

end
