(* ===== verification/Serial.thy ===== *)
theory Serial
  imports Debug
begin

text \<open>
  Port I/O (\<^verbatim>\<open>arch/x86_64/ports.c\<close>), the serial driver (\<^verbatim>\<open>serial.c\<close>), and \<^verbatim>\<open>debug_putchar\<close> down to
  the ports it writes. The state is the history of the port accesses, and the hardware is a
  parameter: the value a port gives is a function of the port and the history so far.
\<close>

section \<open>Ports\<close>

datatype io_event = Out8 u16 u8 | In8 u16 u8 | Out16 u16 u16 | In16 u16 u16 | Out32 u16 u32 | In32 u16 u32

type_synonym device = "u16 \<Rightarrow> io_event list \<Rightarrow> u32"

text \<open>The operand \<^verbatim>\<open>%w1\<close> of the instructions is the low half of the 32-bit port number.\<close>

definition arch_outb :: "u32 \<Rightarrow> u8 \<Rightarrow> io_event list \<Rightarrow> io_event list" where
  "arch_outb port data t = t @ [Out8 (ucast port) data]"

definition arch_inb :: "device \<Rightarrow> u32 \<Rightarrow> io_event list \<Rightarrow> u8 \<times> io_event list" where
  "arch_inb dev port t = (let v = ucast (dev (ucast port) t) in (v, t @ [In8 (ucast port) v]))"

definition arch_outw :: "u32 \<Rightarrow> u16 \<Rightarrow> io_event list \<Rightarrow> io_event list" where
  "arch_outw port data t = t @ [Out16 (ucast port) data]"

definition arch_inw :: "device \<Rightarrow> u32 \<Rightarrow> io_event list \<Rightarrow> u16 \<times> io_event list" where
  "arch_inw dev port t = (let v = ucast (dev (ucast port) t) in (v, t @ [In16 (ucast port) v]))"

definition arch_outl :: "u32 \<Rightarrow> u32 \<Rightarrow> io_event list \<Rightarrow> io_event list" where
  "arch_outl port data t = t @ [Out32 (ucast port) data]"

definition arch_inl :: "device \<Rightarrow> u32 \<Rightarrow> io_event list \<Rightarrow> u32 \<times> io_event list" where
  "arch_inl dev port t = (let v = dev (ucast port) t in (v, t @ [In32 (ucast port) v]))"

section \<open>The driver\<close>

definition COM_PORT :: u32 where "COM_PORT = 0x3F8"
definition COM_DATA :: u32 where "COM_DATA = COM_PORT"
definition COM_INT :: u32 where "COM_INT = COM_PORT + 1"
definition COM_DIVISOR_LSB :: u32 where "COM_DIVISOR_LSB = COM_PORT"
definition COM_DIVISOR_MSB :: u32 where "COM_DIVISOR_MSB = COM_PORT + 1"
definition COM_FIFO_CTRL :: u32 where "COM_FIFO_CTRL = COM_PORT + 2"
definition COM_LINE_CONTROL :: u32 where "COM_LINE_CONTROL = COM_PORT + 3"
definition COM_MODEM_CTRL :: u32 where "COM_MODEM_CTRL = COM_PORT + 4"
definition COM_LINE_STATUS :: u32 where "COM_LINE_STATUS = COM_PORT + 5"

lemmas com_ports = COM_PORT_def COM_DATA_def COM_INT_def COM_DIVISOR_LSB_def COM_DIVISOR_MSB_def
  COM_FIFO_CTRL_def COM_LINE_CONTROL_def COM_MODEM_CTRL_def COM_LINE_STATUS_def

definition serial_init :: "io_event list \<Rightarrow> cint \<times> io_event list" where
  "serial_init t =
     (let t = arch_outb COM_INT 0x00 t;
          t = arch_outb COM_LINE_CONTROL 0x80 t;
          t = arch_outb COM_DIVISOR_LSB 0x0C t;
          t = arch_outb COM_DIVISOR_MSB 0x00 t;
          t = arch_outb COM_LINE_CONTROL 0x03 t;
          t = arch_outb COM_FIFO_CTRL 0xC7 t;
          t = arch_outb COM_MODEM_CTRL 0x0F t
      in (0, t))"

text \<open>The polling loop: \<^term>\<open>None\<close> when the line never becomes ready.\<close>

partial_function (option) wait_line :: "device \<Rightarrow> io_event list \<Rightarrow> io_event list option" where
  "wait_line dev t =
     (let (status, t) = arch_inb dev COM_LINE_STATUS t
      in if status AND 0x20 = 0 then wait_line dev t else Some t)"

partial_function (option) serial_char :: "device \<Rightarrow> char \<Rightarrow> io_event list \<Rightarrow> (char \<times> io_event list) option" where
  "serial_char dev chr t =
     Option.bind (wait_line dev t) (\<lambda>t.
       let t = arch_outb COM_DATA (of_char chr) t
       in if chr = CHR ''\<newline>''
          then Option.bind (serial_char dev (CHR 0x0D) t) (\<lambda>(_, t). Some (chr, t))
          else Some (chr, t))"

text \<open>\<^verbatim>\<open>debug_putchar\<close> and the loop of \<^verbatim>\<open>debug_print\<close>, on the ports.\<close>

definition putchar_io :: "device \<Rightarrow> char \<Rightarrow> io_event list \<Rightarrow> (char \<times> io_event list) option" where
  "putchar_io dev chr t =
     Option.bind (serial_char dev chr (arch_outb 0xE9 (of_char chr) t)) (\<lambda>(_, t). Some (chr, t))"

fun print_io :: "device \<Rightarrow> string \<Rightarrow> io_event list \<Rightarrow> io_event list option" where
  "print_io dev [] t = Some t"
| "print_io dev (c # cs) t = Option.bind (putchar_io dev c t) (\<lambda>(_, t). print_io dev cs t)"

section \<open>The serial controller\<close>

text \<open>
  What the controller (a 16550) makes of a history. Bit 7 of the line control register
  (port \<open>0x3FB\<close>) decides what the ports \<open>0x3F8\<close> and \<open>0x3F9\<close> are: the halves of the divisor when it
  is set; the transmit register and the interrupt enables when it is not.
\<close>

record uart =
  line_control :: u8
  divisor :: u16
  interrupts :: u8
  fifo :: u8
  modem :: u8
  sent :: "u8 list"

definition uart_reset :: uart where
  "uart_reset = \<lparr>line_control = 0, divisor = 0, interrupts = 0, fifo = 0, modem = 0, sent = []\<rparr>"

definition uart_out :: "u16 \<Rightarrow> u8 \<Rightarrow> uart \<Rightarrow> uart" where
  "uart_out port v u =
     (if port = 0x3F8 then
        (if bit (line_control u) 7 then u\<lparr>divisor := (divisor u AND 0xFF00) OR ucast v\<rparr> else u\<lparr>sent := sent u @ [v]\<rparr>)
      else if port = 0x3F9 then
        (if bit (line_control u) 7 then u\<lparr>divisor := (divisor u AND 0x00FF) OR push_bit 8 (ucast v)\<rparr>
         else u\<lparr>interrupts := v\<rparr>)
      else if port = 0x3FA then u\<lparr>fifo := v\<rparr>
      else if port = 0x3FB then u\<lparr>line_control := v\<rparr>
      else if port = 0x3FC then u\<lparr>modem := v\<rparr>
      else u)"

fun uart_event :: "io_event \<Rightarrow> uart \<Rightarrow> uart" where
  "uart_event (Out8 port v) u = uart_out port v u"
| "uart_event e u = u"

definition uart_of :: "io_event list \<Rightarrow> uart" where
  "uart_of t = fold uart_event t uart_reset"

lemma uart_of_append: "uart_of (t @ ext) = fold uart_event ext (uart_of t)"
  by (simp add: uart_of_def)

lemma uart_of_snoc [simp]: "uart_of (t @ [e]) = uart_event e (uart_of t)"
  by (simp add: uart_of_def)

text \<open>A status read, and a device that answers it with ``ready'' after finitely many reads.\<close>

definition poll :: "device \<Rightarrow> io_event list \<Rightarrow> io_event list" where
  "poll dev t = t @ [In8 0x3FD (ucast (dev 0x3FD t))]"

definition line_ready :: "device \<Rightarrow> io_event list \<Rightarrow> bool" where
  "line_ready dev t \<longleftrightarrow> bit (dev 0x3FD t) 5"

definition responsive :: "device \<Rightarrow> bool" where
  "responsive dev \<longleftrightarrow> (\<forall>t. \<exists>n. line_ready dev ((poll dev ^^ n) t))"

text \<open>No byte is sent unless the last access was a status read that said ``ready''.\<close>

fun paced_rev :: "io_event list \<Rightarrow> bool" where
  "paced_rev [] = True"
| "paced_rev (Out8 port v # t) \<longleftrightarrow>
     (port = 0x3F8 \<longrightarrow> (case t of In8 q w # _ \<Rightarrow> q = 0x3FD \<and> bit w 5 | _ \<Rightarrow> False)) \<and> paced_rev t"
| "paced_rev (_ # t) = paced_rev t"

definition paced :: "io_event list \<Rightarrow> bool" where
  "paced t = paced_rev (rev t)"

lemma paced_rev_append: "paced_rev ys \<Longrightarrow> paced_rev xs \<Longrightarrow> paced_rev (ys @ xs)"
proof (induction ys rule: paced_rev.induct)
  case (2 port v t)
  then show ?case by (cases t) (auto split: io_event.splits)
qed simp_all

lemma paced_simps: "paced []" "paced xs \<Longrightarrow> paced ys \<Longrightarrow> paced (xs @ ys)"
  by (simp_all add: paced_def paced_rev_append)

section \<open>Properties\<close>

lemma wait_line_unfold:
  "wait_line dev t = (if line_ready dev t then Some (poll dev t) else wait_line dev (poll dev t))"
proof -
  have "(ucast w :: u8) AND 0x20 = 0 \<longleftrightarrow> \<not> bit w 5" for w :: u32
    using and_exp_eq_0_iff_not_bit [of "ucast w :: u8" 5] by (simp add: bit_simps)
  then show ?thesis
    by (subst wait_line.simps) (simp add: arch_inb_def com_ports poll_def line_ready_def Let_def)
qed

lemma wait_line_returns:
  "line_ready dev ((poll dev ^^ n) t) \<Longrightarrow>
   \<exists>m. wait_line dev t = Some (poll dev ((poll dev ^^ m) t)) \<and> line_ready dev ((poll dev ^^ m) t)"
proof (induction n arbitrary: t)
  case 0
  then show ?case by (intro exI [of _ 0]) (simp add: wait_line_unfold)
next
  case (Suc n)
  show ?case
  proof (cases "line_ready dev t")
    case True
    then show ?thesis by (intro exI [of _ 0]) (simp add: wait_line_unfold)
  next
    case False
    have "line_ready dev ((poll dev ^^ n) (poll dev t))" using Suc.prems by (simp add: funpow_swap1)
    from Suc.IH [OF this] obtain m where
        "wait_line dev (poll dev t) = Some (poll dev ((poll dev ^^ Suc m) t))" "line_ready dev ((poll dev ^^ Suc m) t)"
      by (auto simp: funpow_swap1)
    then show ?thesis using False wait_line_unfold [of dev t] by metis
  qed
qed

text \<open>Status reads only.\<close>

lemma polls:
  "\<exists>ws. (poll dev ^^ m) t = t @ map (In8 0x3FD) ws"
proof (induction m)
  case (Suc m)
  then obtain ws where "(poll dev ^^ m) t = t @ map (In8 0x3FD) ws" by blast
  then show ?case
    by (intro exI [of _ "ws @ [ucast (dev 0x3FD (t @ map (In8 0x3FD) ws))]"])
      (simp add: poll_def [of dev "t @ map (In8 0x3FD) ws"])
qed (simp add: exI [of _ "[]"])

lemma paced_reads: "paced (map (In8 p) ws)"
  by (induction ws rule: rev_induct) (simp_all add: paced_def)

lemma uart_of_reads: "uart_of (t @ map (In8 p) ws) = uart_of t"
  by (induction ws rule: rev_induct) (simp_all add: append_assoc [symmetric] del: append_assoc)

text \<open>Sending one byte: status reads, the last of which said ``ready'', and the write.\<close>

definition sends :: "u8 \<Rightarrow> io_event list \<Rightarrow> bool" where
  "sends b ext \<longleftrightarrow> (\<exists>ws w. ext = map (In8 0x3FD) ws @ [In8 0x3FD w, Out8 0x3F8 b] \<and> bit w 5)"

lemma sends_facts:
  assumes "sends b ext" and "\<not> bit (line_control (uart_of t)) 7"
  shows "paced ext" and "uart_of (t @ ext) = (uart_of t)\<lparr>sent := sent (uart_of t) @ [b]\<rparr>"
    and "[v. Out8 p v \<leftarrow> ext, p = 0xE9] = []"
proof -
  obtain ws w where e: "ext = map (In8 0x3FD) ws @ [In8 0x3FD w, Out8 0x3F8 b]" "bit w 5"
    using assms(1) by (auto simp: sends_def)
  have "paced [In8 0x3FD w, Out8 0x3F8 b]" using e(2) by (simp add: paced_def)
  then show "paced ext" unfolding e(1) by (intro paced_simps paced_reads)
  have "uart_of (t @ ext) = uart_event (Out8 0x3F8 b) (uart_event (In8 0x3FD w) (uart_of (t @ map (In8 0x3FD) ws)))"
    unfolding e(1) by (simp add: uart_of_def)
  then show "uart_of (t @ ext) = (uart_of t)\<lparr>sent := sent (uart_of t) @ [b]\<rparr>"
    using assms(2) by (simp add: uart_of_reads uart_out_def)
  show "[v. Out8 p v \<leftarrow> ext, p = 0xE9] = []" by (simp add: e(1))
qed

lemma send_byte:
  assumes "responsive dev"
  shows "\<exists>ext. map_option (arch_outb COM_DATA b) (wait_line dev t) = Some (t @ ext) \<and> sends b ext"
proof -
  obtain n where "line_ready dev ((poll dev ^^ n) t)" using assms unfolding responsive_def by blast
  from wait_line_returns [OF this] obtain m where
      m: "wait_line dev t = Some (poll dev ((poll dev ^^ m) t))" "line_ready dev ((poll dev ^^ m) t)" by blast
  obtain ws where ws: "(poll dev ^^ m) t = t @ map (In8 0x3FD) ws" using polls by blast
  define w :: u8 where "w = ucast (dev 0x3FD (t @ map (In8 0x3FD) ws))"
  have "bit w 5" using m(2) by (simp add: line_ready_def ws w_def bit_simps)
  then have "sends b (map (In8 0x3FD) ws @ [In8 0x3FD w, Out8 0x3F8 b])" unfolding sends_def by blast
  moreover have "map_option (arch_outb COM_DATA b) (wait_line dev t)
      = Some (t @ map (In8 0x3FD) ws @ [In8 0x3FD w, Out8 0x3F8 b])"
    by (simp add: m(1) ws poll_def w_def arch_outb_def com_ports)
  ultimately show ?thesis by blast
qed

definition wire :: "char \<Rightarrow> u8 list" where
  "wire c = (if c = CHR ''\<newline>'' then [10, 13] else [of_char c])"

lemma serial_char_step:
  assumes "responsive dev"
  shows "\<exists>ext. sends (of_char c) ext \<and> serial_char dev c t =
      (if c = CHR ''\<newline>'' then Option.bind (serial_char dev (CHR 0x0D) (t @ ext)) (\<lambda>(_, t). Some (c, t))
       else Some (c, t @ ext))"
proof -
  obtain ext t1 where e: "wait_line dev t = Some t1" "arch_outb COM_DATA (of_char c) t1 = t @ ext" "sends (of_char c) ext"
    using send_byte [OF assms, of "of_char c" t] by auto
  have "serial_char dev c t =
      (if c = CHR ''\<newline>'' then Option.bind (serial_char dev (CHR 0x0D) (t @ ext)) (\<lambda>(_, t). Some (c, t))
       else Some (c, t @ ext))"
    unfolding e(2) [symmetric] by (subst serial_char.simps) (simp add: e(1) Let_def)
  then show ?thesis using e(3) by blast
qed

lemma serial_char_spec:
  assumes dev: "responsive dev" and dlab: "\<not> bit (line_control (uart_of t)) 7"
  shows "\<exists>ext. serial_char dev c t = Some (c, t @ ext) \<and> paced ext
    \<and> uart_of (t @ ext) = (uart_of t)\<lparr>sent := sent (uart_of t) @ wire c\<rparr>
    \<and> [v. Out8 p v \<leftarrow> ext, p = 0xE9] = []"
proof -
  obtain ext where e: "sends (of_char c) ext" "serial_char dev c t =
      (if c = CHR ''\<newline>'' then Option.bind (serial_char dev (CHR 0x0D) (t @ ext)) (\<lambda>(_, t). Some (c, t))
       else Some (c, t @ ext))"
    using serial_char_step [OF dev] by blast
  note f = sends_facts [OF e(1) dlab]
  show ?thesis
  proof (cases "c = CHR ''\<newline>''")
    case False
    then show ?thesis using e(2) f by (intro exI [of _ ext]) (simp add: wire_def)
  next
    case True
    have d: "\<not> bit (line_control (uart_of (t @ ext))) 7" using dlab by (simp add: f(2))
    obtain ext' where e': "sends (of_char (CHR 0x0D)) ext'" "serial_char dev (CHR 0x0D) (t @ ext) = Some (CHR 0x0D, (t @ ext) @ ext')"
      using serial_char_step [OF dev, of "CHR 0x0D" "t @ ext"] by auto
    note f' = sends_facts [OF e'(1) d]
    have "uart_of (t @ ext @ ext') = (uart_of t)\<lparr>sent := sent (uart_of t) @ wire c\<rparr>"
      using f'(2) by (simp add: f(2) True wire_def)
    then show ?thesis
      using e(2) e'(2) f f' True by (intro exI [of _ "ext @ ext'"]) (simp add: paced_simps)
  qed
qed


lemma serial_init_uart:
  "\<exists>t'. serial_init t = (0, t') \<and> uart_of t' = (uart_of t)\<lparr>
     line_control := 3, divisor := 12, fifo := 0xC7, modem := 0x0F,
     interrupts := (if bit (line_control (uart_of t)) 7 then interrupts (uart_of t) else 0)\<rparr>"
proof -
  have d: "(((v AND 0xFF00) OR 12) AND 0xFF :: u16) = 12"
      "(((v AND 0xFF) AND 0xFF00) OR 12 :: u16) = 12" for v :: u16
    by (simp_all add: bit.conj_disj_distrib2 and.assoc)
  show ?thesis
    by (cases "bit (line_control (uart_of t)) 7")
      (simp_all add: serial_init_def arch_outb_def com_ports uart_of_append uart_out_def Let_def d and.assoc)
qed

text \<open>C32: \<^verbatim>\<open>serial_init\<close> leaves the controller at 9600 baud (divisor 12), 8 data bits, no parity,
  one stop bit, with the divisor latch closed, the queues on and the modem lines set; it sends
  nothing. The interrupts are off if the latch was closed before, as after a reset.\<close>

theorem serial_init_configures:
  "\<exists>t'. serial_init t = (0, t') \<and> uart_of t' = (uart_of t)\<lparr>
     line_control := 3, divisor := 12, fifo := 0xC7, modem := 0x0F,
     interrupts := (if bit (line_control (uart_of t)) 7 then interrupts (uart_of t) else 0)\<rparr>"
  by (rule serial_init_uart)

text \<open>C31: liveness of the driver. With a line that becomes ready again and again, \<^verbatim>\<open>serial_char\<close>
  returns its character after finitely many status reads; it has sent exactly that byte, and a
  carriage return after a line feed, each byte right after a status read that said ``ready''.\<close>

theorem serial_char_sends:
  assumes "responsive dev" and "\<not> bit (line_control (uart_of t)) 7"
  shows "\<exists>ext. serial_char dev c t = Some (c, t @ ext) \<and> paced ext
    \<and> uart_of (t @ ext) = (uart_of t)\<lparr>sent := sent (uart_of t) @
        (if c = CHR ''\<newline>'' then [10, 13] else [of_char c])\<rparr>"
  using serial_char_spec [OF assms, of c] unfolding wire_def by blast

text \<open>A line that is busy for two reads after each access, and then ready.\<close>

definition slow_line :: device where
  "slow_line port t = (case rev t of In8 p v # In8 q w # _ \<Rightarrow> 0x20 | _ \<Rightarrow> 0)"

lemma slow_line_responsive: "responsive slow_line"
proof -
  have "line_ready slow_line ((poll slow_line ^^ 2) t)" for t
    by (simp add: line_ready_def numeral_2_eq_2 poll_def) (simp add: slow_line_def bit_simps)
  then show ?thesis unfolding responsive_def by blast
qed

theorem serial_char_sends_witness:
  "\<exists>ext. serial_char slow_line (CHR ''\<newline>'') [] = Some (CHR ''\<newline>'', ext) \<and> paced ext
    \<and> sent (uart_of ext) = [10, 13]"
  using serial_char_sends [OF slow_line_responsive, of "[]" "CHR ''\<newline>''"]
  by (auto simp: uart_of_def uart_reset_def)

lemma print_io_spec:
  assumes "responsive dev" and "\<not> bit (line_control (uart_of t)) 7"
  shows "\<exists>ext. print_io dev cs t = Some (t @ ext) \<and> paced ext
    \<and> uart_of (t @ ext) = (uart_of t)\<lparr>sent := sent (uart_of t) @ concat (map wire cs)\<rparr>
    \<and> [v. Out8 p v \<leftarrow> ext, p = 0xE9] = map of_char cs"
  using assms(2)
proof (induction cs arbitrary: t)
  case Nil
  then show ?case by (intro exI [of _ "[]"]) (simp add: paced_simps)
next
  case (Cons c cs)
  let ?e = "Out8 0xE9 (of_char c)"
  have e: "arch_outb 0xE9 (of_char c) t = t @ [?e]" "uart_of (t @ [?e]) = uart_of t" "paced [?e]"
    by (simp_all add: arch_outb_def uart_out_def paced_def)
  have "\<not> bit (line_control (uart_of (t @ [?e]))) 7" using Cons.prems by (simp only: e(2) not_False_eq_True)
  from serial_char_spec [OF assms(1) this, of c] obtain ext where
      x: "serial_char dev c (t @ [?e]) = Some (c, (t @ [?e]) @ ext)" "paced ext"
      "uart_of ((t @ [?e]) @ ext) = (uart_of t)\<lparr>sent := sent (uart_of t) @ wire c\<rparr>"
      "[v. Out8 p v \<leftarrow> ext, p = 0xE9] = []"
    unfolding e(2) by blast
  then have "\<not> bit (line_control (uart_of ((t @ [?e]) @ ext))) 7" using Cons.prems by simp
  from Cons.IH [OF this] obtain ext' where
      y: "print_io dev cs ((t @ [?e]) @ ext) = Some (((t @ [?e]) @ ext) @ ext')" "paced ext'"
      "uart_of (((t @ [?e]) @ ext) @ ext') = (uart_of t)\<lparr>sent := sent (uart_of t) @ wire c @ concat (map wire cs)\<rparr>"
      "[v. Out8 p v \<leftarrow> ext', p = 0xE9] = map of_char cs"
    unfolding x(3) by auto
  show ?case
    by (rule exI [of _ "?e # ext @ ext'"])
      (use x y e(1) paced_simps(2) [OF e(3) paced_simps(2) [OF x(2) y(2)]] in \<open>simp add: putchar_io_def\<close>)
qed

text \<open>C30: refinement. The text the kernel prints is what goes over the wire: after \<^verbatim>\<open>serial_init\<close>,
  printing a text ends, and sends exactly its bytes in order, each line feed followed by a
  carriage return, each byte only when the line is ready; the debug port \<open>0xE9\<close> gets the bytes of
  the text as they are.\<close>

theorem console_on_wire:
  assumes "responsive dev"
  shows "\<exists>ext. print_io dev str (snd (serial_init t)) = Some (snd (serial_init t) @ ext) \<and> paced ext
    \<and> sent (uart_of (snd (serial_init t) @ ext)) = sent (uart_of t) @
        concat (map (\<lambda>c. if c = CHR ''\<newline>'' then [10, 13] else [of_char c]) str)
    \<and> [v. Out8 p v \<leftarrow> ext, p = 0xE9] = map of_char str"
proof -
  obtain t' where t': "serial_init t = (0, t')" "line_control (uart_of t') = 3" "sent (uart_of t') = sent (uart_of t)"
    using serial_init_uart [of t] by auto
  have "\<not> bit (line_control (uart_of t')) 7" by (simp add: t'(2) bit_simps)
  from print_io_spec [OF assms this, of str] obtain ext where
      e: "print_io dev str t' = Some (t' @ ext)" "paced ext"
      "uart_of (t' @ ext) = (uart_of t')\<lparr>sent := sent (uart_of t') @ concat (map wire str)\<rparr>"
      "[v. Out8 p v \<leftarrow> ext, p = 0xE9] = map of_char str" by blast
  have "wire = (\<lambda>c. if c = CHR ''\<newline>'' then [10, 13] else [of_char c])" by (simp add: fun_eq_iff wire_def)
  then show ?thesis using e t' by (intro exI [of _ ext]) simp
qed

theorem console_on_wire_witness:
  "\<exists>t. print_io slow_line ''OK\<newline>'' (snd (serial_init [])) = Some t \<and> sent (uart_of t) = [79, 75, 10, 13]"
  using console_on_wire [OF slow_line_responsive, of "''OK\<newline>''" "[]"]
  by (auto simp: uart_of_def uart_reset_def)

end
