(* ===== verification/Errno.thy ===== *)
theory Errno
  imports Prelude
begin

text \<open>
  Error codes and error pointers, \<^verbatim>\<open>error.h\<close>: the table of the codes, and the functions that
  put a negative code into a pointer and take it out again. A pointer is a 64-bit word, and so
  is an \<^verbatim>\<open>int64_t\<close> (read with \<^term>\<open>sint\<close>).
\<close>

section \<open>Definitions\<close>

definition errno_codes :: "(string \<times> u64) list" where
  "errno_codes =
   [(''EPERM'', 1), (''ENOENT'', 2), (''ESRCH'', 3), (''EINTR'', 4), (''EIO'', 5), (''ENXIO'', 6),
    (''E2BIG'', 7), (''ENOEXEC'', 8), (''EBADF'', 9), (''ECHILD'', 10), (''EAGAIN'', 11),
    (''ENOMEM'', 12), (''EACCES'', 13), (''EFAULT'', 14), (''ENOTBLK'', 15), (''EBUSY'', 16),
    (''EEXIST'', 17), (''EXDEV'', 18), (''ENODEV'', 19), (''ENOTDIR'', 20), (''EISDIR'', 21),
    (''EINVAL'', 22), (''ENFILE'', 23), (''EMFILE'', 24), (''ENOTTY'', 25), (''ETXTBSY'', 26),
    (''EFBIG'', 27), (''ENOSPC'', 28), (''ESPIPE'', 29), (''EROFS'', 30), (''EMLINK'', 31),
    (''EPIPE'', 32), (''EDOM'', 33), (''ERANGE'', 34), (''ENOMSG'', 35), (''EIDRM'', 36),
    (''ECHRNG'', 37), (''EL2NSYNC'', 38), (''EL3HLT'', 39), (''EL3RST'', 40), (''ELNRNG'', 41),
    (''EUNATCH'', 42), (''ENOCSI'', 43), (''EL2HLT'', 44), (''EDEADLK'', 45), (''ENOLCK'', 46),
    (''EBADE'', 50), (''EBADR'', 51), (''EXFULL'', 52), (''ENOANO'', 53), (''EBADRQC'', 54),
    (''EBADSLT'', 55), (''EDEADLOCK'', 56), (''EBFONT'', 57), (''ENOSTR'', 60), (''ENODATA'', 61),
    (''ETIME'', 62), (''ENOSR'', 63), (''ENONET'', 64), (''ENOPKG'', 65), (''EREMOTE'', 66),
    (''ENOLINK'', 67), (''EADV'', 68), (''ESRMNT'', 69), (''ECOMM'', 70), (''EPROTO'', 71),
    (''EMULTIHOP'', 74), (''ELBIN'', 75), (''EDOTDOT'', 76), (''EBADMSG'', 77), (''EFTYPE'', 79),
    (''ENOTUNIQ'', 80), (''EBADFD'', 81), (''EREMCHG'', 82), (''ELIBACC'', 83), (''ELIBBAD'', 84),
    (''ELIBSCN'', 85), (''ELIBMAX'', 86), (''ELIBEXEC'', 87), (''ENOSYS'', 88), (''ENMFILE'', 89),
    (''ENOTEMPTY'', 90), (''ENAMETOOLONG'', 91), (''ELOOP'', 92), (''EOPNOTSUPP'', 95),
    (''EPFNOSUPPORT'', 96), (''ECONNRESET'', 104), (''ENOBUFS'', 105), (''EAFNOSUPPORT'', 106),
    (''EPROTOTYPE'', 107), (''ENOTSOCK'', 108), (''ENOPROTOOPT'', 109), (''ESHUTDOWN'', 110),
    (''ECONNREFUSED'', 111), (''EADDRINUSE'', 112), (''ECONNABORTED'', 113),
    (''ENETUNREACH'', 114), (''ENETDOWN'', 115), (''ETIMEDOUT'', 116), (''EHOSTDOWN'', 117),
    (''EHOSTUNREACH'', 118), (''EINPROGRESS'', 119), (''EALREADY'', 120), (''EDESTADDRREQ'', 121),
    (''EMSGSIZE'', 122), (''EPROTONOSUPPORT'', 123), (''ESOCKTNOSUPPORT'', 124),
    (''EADDRNOTAVAIL'', 125), (''ENETRESET'', 126), (''EISCONN'', 127), (''ENOTCONN'', 128),
    (''ETOOMANYREFS'', 129), (''EPROCLIM'', 130), (''EUSERS'', 131), (''EDQUOT'', 132),
    (''ESTALE'', 133), (''ENOTSUP'', 134), (''ENOMEDIUM'', 135), (''ENOSHARE'', 136),
    (''ECASECLASH'', 137), (''EILSEQ'', 138), (''EOVERFLOW'', 139), (''EWOULDBLOCK'', 11)]"

definition MAX_ERRNO :: u64 where "MAX_ERRNO = 4095"

definition IS_ERR_VALUE :: "u64 \<Rightarrow> bool" where
  "IS_ERR_VALUE x \<longleftrightarrow> - MAX_ERRNO \<le> x"

definition ERR_PTR :: "u64 \<Rightarrow> u64" where
  "ERR_PTR errno = errno"

definition PTR_ERR :: "u64 \<Rightarrow> u64" where
  "PTR_ERR ptr = ptr"

definition IS_ERR :: "u64 \<Rightarrow> bool" where
  "IS_ERR ptr \<longleftrightarrow> IS_ERR_VALUE ptr"

definition IS_ERR_OR_NULL :: "u64 \<Rightarrow> bool" where
  "IS_ERR_OR_NULL ptr \<longleftrightarrow> ptr = 0 \<or> IS_ERR_VALUE ptr"

section \<open>Properties\<close>

lemma IS_ERR_sint: "IS_ERR p \<longleftrightarrow> - 4095 \<le> sint p \<and> sint p < 0"
proof -
  have u: "unat (- MAX_ERRNO) = 2 ^ 64 - 4095" by (simp add: MAX_ERRNO_def)
  have "IS_ERR p \<longleftrightarrow> 2 ^ 64 - 4095 \<le> uint p"
    by (simp add: IS_ERR_def IS_ERR_VALUE_def word_le_def MAX_ERRNO_def)
  moreover have "sint p = (uint p + 2 ^ 63) mod 2 ^ 64 - 2 ^ 63"
    by (simp add: sint_uint signed_take_bit_eq_take_bit_shift take_bit_eq_mod)
  moreover have "0 \<le> uint p" "uint p < 2 ^ 64" using uint_lt2p [of p] by simp_all
  ultimately show ?thesis
  proof (cases "uint p < 2 ^ 63")
    case False
    with \<open>uint p < 2 ^ 64\<close> have "(uint p + 2 ^ 63) mod 2 ^ 64 = uint p + 2 ^ 63 - 2 ^ 64"
      by (subst mod_pos_geq) (simp_all add: mod_pos_pos_trivial)
    then show ?thesis
      using \<open>IS_ERR p \<longleftrightarrow> _\<close> \<open>sint p = _\<close> \<open>uint p < 2 ^ 64\<close> by simp
  qed (simp_all add: mod_pos_pos_trivial)
qed

lemma errno_range: "list_all (\<lambda>(name, c). 0 < c \<and> c \<le> 4095) errno_codes"
  by code_simp

lemma errno_increasing: "successively (<) (map snd (butlast errno_codes))"
  by code_simp

lemma errno_ends: "(''EAGAIN'', 11) \<in> set (butlast errno_codes)" "last errno_codes = (''EWOULDBLOCK'', 11)"
  by (simp_all add: errno_codes_def)

lemma errno_alias:
  assumes "(m, c) \<in> set errno_codes" and "(n, c) \<in> set errno_codes"
  shows "m = n \<or> {m, n} = {''EAGAIN'', ''EWOULDBLOCK''}"
proof -
  let ?zs = "butlast errno_codes"
  have "errno_codes = ?zs @ [(''EWOULDBLOCK'', 11)]"
    by (subst errno_ends(2) [symmetric], rule append_butlast_last_id [symmetric]) (simp add: errno_codes_def)
  then have all: "set errno_codes = insert (''EWOULDBLOCK'', 11) (set ?zs)"
    by (metis list.set(1,2) set_append Un_insert_right sup_bot_right)
  have "sorted_wrt (<) (map snd ?zs)"
    using errno_increasing by (subst successively_iff_sorted_wrt_strong [symmetric]) auto
  then have "distinct (map snd ?zs)" using strict_sorted_iff by blast
  then have inj: "x = y" if "x \<in> set ?zs" "y \<in> set ?zs" "snd x = snd y" for x y
    using that by (auto simp: distinct_map dest: inj_onD)
  show ?thesis
    using assms inj [of "(m, c)" "(n, c)"] inj [OF errno_ends(1), of "(m, c)"] inj [OF errno_ends(1), of "(n, c)"]
    unfolding all by auto
qed

lemma small_code:
  assumes "0 < c" and "c \<le> 4095"
  shows "0 < sint c" and "sint (- c) = - sint c" and "\<not> IS_ERR c" and "IS_ERR (- c)"
proof -
  have u: "0 < uint c" "uint c \<le> 4095" using assms by (simp_all add: word_less_def word_le_def)
  then have s: "sint c = uint c"
    by (simp add: sint_uint signed_take_bit_eq_take_bit_shift take_bit_eq_mod mod_pos_pos_trivial)
  have m: "uint (- c) = 2 ^ 64 - uint c"
    using u by (simp add: uint_word_ariths zmod_zminus1_eq_if mod_pos_pos_trivial)
  have "(2 ^ 64 - uint c + 2 ^ 63) mod 2 ^ 64 = 2 ^ 63 - uint c"
    using u by (subst mod_pos_geq) (simp_all add: mod_pos_pos_trivial)
  then have "sint (- c) = - uint c"
    by (simp add: sint_uint m signed_take_bit_eq_take_bit_shift take_bit_eq_mod)
  then show "sint (- c) = - sint c" by (simp add: s)
  with s u show "0 < sint c" "\<not> IS_ERR c" "IS_ERR (- c)" by (simp_all add: IS_ERR_sint)
qed

text \<open>C34: error pointers. Every code of \<^verbatim>\<open>error.h\<close>, negated, goes into a pointer that is recognised as an
  error and gives the code back; two names have the same code only if one is an alias of the
  other (\<^verbatim>\<open>EAGAIN\<close> and \<^verbatim>\<open>EWOULDBLOCK\<close>). A pointer is an error exactly if it is a negative number of at
  least \<open>-MAX_ERRNO\<close>, so \<^verbatim>\<open>NULL\<close> is not one, and no code below that is taken for an error.\<close>

theorem err_ptr_roundtrip:
  "(\<forall>(name, c) \<in> set errno_codes. 0 < sint c \<and> sint (PTR_ERR (ERR_PTR (- c))) = - sint c
      \<and> IS_ERR (ERR_PTR (- c)) \<and> IS_ERR_OR_NULL (ERR_PTR (- c)) \<and> \<not> IS_ERR c)
   \<and> (\<forall>(m, c) \<in> set errno_codes. \<forall>(n, d) \<in> set errno_codes. c = d \<longrightarrow>
        m = n \<or> {m, n} = {''EAGAIN'', ''EWOULDBLOCK''})
   \<and> (IS_ERR (ERR_PTR e) \<longleftrightarrow> - 4095 \<le> sint e \<and> sint e < 0)
   \<and> (IS_ERR_OR_NULL p \<longleftrightarrow> p = 0 \<or> IS_ERR p) \<and> \<not> IS_ERR 0"
proof -
  have "\<forall>(name, c) \<in> set errno_codes. 0 < sint c \<and> sint (PTR_ERR (ERR_PTR (- c))) = - sint c
      \<and> IS_ERR (ERR_PTR (- c)) \<and> IS_ERR_OR_NULL (ERR_PTR (- c)) \<and> \<not> IS_ERR c"
    using errno_range small_code
    by (fastforce simp: list_all_iff ERR_PTR_def PTR_ERR_def IS_ERR_OR_NULL_def IS_ERR_def)
  moreover have "\<forall>(m, c) \<in> set errno_codes. \<forall>(n, d) \<in> set errno_codes. c = d \<longrightarrow>
        m = n \<or> {m, n} = {''EAGAIN'', ''EWOULDBLOCK''}"
    using errno_alias by blast
  moreover have "IS_ERR (ERR_PTR e) \<longleftrightarrow> - 4095 \<le> sint e \<and> sint e < 0" by (simp add: ERR_PTR_def IS_ERR_sint)
  moreover have "IS_ERR_OR_NULL p \<longleftrightarrow> p = 0 \<or> IS_ERR p" by (simp add: IS_ERR_OR_NULL_def IS_ERR_def)
  moreover have "\<not> IS_ERR 0" by (simp add: IS_ERR_sint)
  ultimately show ?thesis by blast
qed

theorem err_ptr_roundtrip_witness:
  "IS_ERR (ERR_PTR (- 12)) \<and> sint (PTR_ERR (ERR_PTR (- 12))) = - 12 \<and> \<not> IS_ERR 12"
proof -
  have "(''ENOMEM'', 12) \<in> set errno_codes" by (simp add: errno_codes_def)
  with err_ptr_roundtrip show ?thesis by fastforce
qed

end
