(* ===== verification/Halt.thy ===== *)
theory Halt
  imports Prelude
begin

text \<open>
  \<^verbatim>\<open>arch_halt\<close> of the three ports (\<^verbatim>\<open>arch/*/halt.c\<close>): a few instructions that mask interrupts, then a
  loop around an instruction that waits. The inline assembly is a program of a small machine
  whose state is the place in the program and the register with the interrupt masks: \<^verbatim>\<open>RFLAGS\<close> on
  x86\_64, \<^verbatim>\<open>DAIF\<close> on aarch64, and \<^verbatim>\<open>mstatus\<close> on riscv64, of which \<^verbatim>\<open>sstatus\<close> and \<^verbatim>\<open>ustatus\<close> are views.
\<close>

section \<open>The programs\<close>

datatype csr = Mstatus | Sstatus | Ustatus

datatype halt_instr = Cli | Hlt | Msr_daifset u64 | Wfi | Csrci csr u64

text \<open>The riscv64 port with the mode it runs in, and whether the processor has user interrupts.\<close>

datatype port = X86_64 | AArch64 | RiscV64 (machine_mode: bool) (user_interrupts: bool)

text \<open>The instructions before the loop, and the one in it.\<close>

definition x86_64_arch_halt :: "halt_instr list \<times> halt_instr" where
  "x86_64_arch_halt = ([Cli], Hlt)"

definition aarch64_arch_halt :: "halt_instr list \<times> halt_instr" where
  "aarch64_arch_halt = ([Msr_daifset 0xf], Wfi)"

definition riscv64_arch_halt :: "halt_instr list \<times> halt_instr" where
  "riscv64_arch_halt = ([Csrci Mstatus 0x8, Csrci Sstatus 0x2, Csrci Ustatus 0x1], Wfi)"

fun arch_halt :: "port \<Rightarrow> halt_instr list \<times> halt_instr" where
  "arch_halt X86_64 = x86_64_arch_halt"
| "arch_halt AArch64 = aarch64_arch_halt"
| "arch_halt (RiscV64 _ _) = riscv64_arch_halt"

section \<open>The processors\<close>

text \<open>A register of a higher mode, or of an extension that is missing, is an illegal instruction.\<close>

fun legal :: "port \<Rightarrow> halt_instr \<Rightarrow> bool" where
  "legal p (Csrci Mstatus m) \<longleftrightarrow> machine_mode p"
| "legal p (Csrci Ustatus m) \<longleftrightarrow> user_interrupts p"
| "legal p _ \<longleftrightarrow> True"

fun mask_instr :: "halt_instr \<Rightarrow> u64 \<Rightarrow> u64" where
  "mask_instr Cli w = w AND NOT 0x200"
| "mask_instr (Msr_daifset m) w = w OR m"
| "mask_instr (Csrci r m) w = w AND NOT m"
| "mask_instr Hlt w = w"
| "mask_instr Wfi w = w"

text \<open>A maskable interrupt can be taken: \<^verbatim>\<open>IF\<close> is set; \<^verbatim>\<open>I\<close> or \<^verbatim>\<open>F\<close> is clear; \<^verbatim>\<open>MIE\<close> or \<^verbatim>\<open>SIE\<close> is set.\<close>

fun interrupts_on :: "port \<Rightarrow> u64 \<Rightarrow> bool" where
  "interrupts_on X86_64 w \<longleftrightarrow> bit w 9"
| "interrupts_on AArch64 w \<longleftrightarrow> \<not> bit w 1 \<or> \<not> bit w 0"
| "interrupts_on (RiscV64 mach _) w \<longleftrightarrow> bit w (if mach then 3 else 1)"

datatype halting = Running nat u64 | Interrupt nat u64 | Trap nat u64

definition instr_at :: "halt_instr list \<times> halt_instr \<Rightarrow> nat \<Rightarrow> halt_instr" where
  "instr_at c n = (if n < length (fst c) then fst c ! n else snd c)"

text \<open>After the last instruction the loop stays in place.\<close>

inductive halt_step :: "port \<Rightarrow> halting \<Rightarrow> halting \<Rightarrow> bool" for p :: port where
  execute: "legal p (instr_at (arch_halt p) n) \<Longrightarrow>
    halt_step p (Running n w) (Running (min (Suc n) (length (fst (arch_halt p)))) (mask_instr (instr_at (arch_halt p) n) w))"
| illegal: "\<not> legal p (instr_at (arch_halt p) n) \<Longrightarrow> halt_step p (Running n w) (Trap n w)"
| interrupted: "interrupts_on p w \<Longrightarrow> halt_step p (Running n w) (Interrupt n w)"

inductive_simps halt_step_running: "halt_step p (Running n w) h"
inductive_simps halt_step_ends [simp]: "halt_step p (Trap n w) h" "halt_step p (Interrupt n w) h"

inductive halt_reachable :: "port \<Rightarrow> u64 \<Rightarrow> halting \<Rightarrow> bool" for p :: port and w0 :: u64 where
  halt_begin: "halt_reachable p w0 (Running 0 w0)"
| halt_next: "halt_reachable p w0 h \<Longrightarrow> halt_step p h h' \<Longrightarrow> halt_reachable p w0 h'"

section \<open>Halting\<close>

lemmas halt_codes = x86_64_arch_halt_def aarch64_arch_halt_def riscv64_arch_halt_def

text \<open>The mask register after the first \<open>n\<close> instructions.\<close>

definition masked :: "port \<Rightarrow> nat \<Rightarrow> u64 \<Rightarrow> u64" where
  "masked p n w = fold mask_instr (take n (fst (arch_halt p))) w"

lemma masked_next:
  "masked p (min (Suc n) (length (fst (arch_halt p)))) w = mask_instr (instr_at (arch_halt p) n) (masked p n w)"
proof (cases "n < length (fst (arch_halt p))")
  case True
  then show ?thesis by (simp add: masked_def instr_at_def take_Suc_conv_app_nth)
next
  case False
  moreover have "mask_instr (snd (arch_halt p)) v = v" for v by (cases p) (simp_all add: halt_codes)
  ultimately show ?thesis by (simp add: masked_def instr_at_def)
qed

lemma masked_off: "\<not> interrupts_on p (masked p (length (fst (arch_halt p))) w)"
proof (cases p)
  case (RiscV64 mach user)
  then show ?thesis
    by (cases mach) (simp_all add: masked_def halt_codes bit_and_iff bit_not_iff bit_numeral_rec(1) numeral_3_eq_3)
qed (simp_all add: masked_def halt_codes bit_and_iff bit_or_iff bit_not_iff bit_numeral_rec(1) numeral_eq_Suc)


text \<open>Every reachable state lies on the straight path to the loop, or is an interrupt on that path.\<close>

lemma halt_path:
  assumes "halt_reachable p w h" and "list_all (legal p) (fst (arch_halt p))"
  shows "\<exists>n \<le> length (fst (arch_halt p)). h = Running n (masked p n w)
     \<or> (h = Interrupt n (masked p n w) \<and> n < length (fst (arch_halt p)))"
  using assms(1)
proof induction
  case halt_begin
  then show ?case by (intro exI [of _ 0]) (simp add: masked_def)
next
  case (halt_next h h')
  let ?N = "length (fst (arch_halt p))"
  obtain n where n: "n \<le> ?N" "h = Running n (masked p n w)"
    using halt_next.IH halt_next.hyps(2) by (auto elim: halt_step.cases)
  have ok: "legal p (instr_at (arch_halt p) n)"
  proof (cases "n < ?N")
    case True
    then show ?thesis using assms(2) by (simp add: instr_at_def list_all_length)
  next
    case False
    then show ?thesis by (cases p) (simp_all add: instr_at_def halt_codes)
  qed
  consider "h' = Running (min (Suc n) ?N) (masked p (min (Suc n) ?N) w)"
    | "h' = Interrupt n (masked p n w)" "interrupts_on p (masked p n w)"
    using halt_next.hyps(2) ok unfolding n(2) halt_step_running masked_next by blast
  then show ?case
  proof cases
    case 1
    then show ?thesis using min.cobounded2 by blast
  next
    case 2
    then have "n \<noteq> ?N" using masked_off by auto
    then show ?thesis using 2(1) n(1) by (intro exI [of _ n]) simp
  qed
qed

lemma halt_arrives:
  assumes "list_all (legal p) (fst (arch_halt p))"
  shows "n \<le> length (fst (arch_halt p)) \<Longrightarrow> halt_reachable p w (Running n (masked p n w))"
proof (induction n)
  case 0
  then show ?case using halt_begin [of p w] by (simp add: masked_def)
next
  case (Suc n)
  have "legal p (instr_at (arch_halt p) n)" using assms Suc.prems by (simp add: instr_at_def list_all_length)
  from execute [OF this, of "masked p n w"] have "halt_step p (Running n (masked p n w)) (Running (Suc n) (masked p (Suc n) w))"
    using Suc.prems masked_next [of p n w] by (simp add: min_absorb1)
  then show ?case using Suc by (intro halt_next [OF Suc.IH]) simp_all
qed

text \<open>C33: where all its instructions are legal (on x86\_64, on aarch64, and on riscv64 in machine mode
  with user interrupts), \<^verbatim>\<open>arch_halt\<close> reaches its loop, never traps, and can be interrupted only before
  it has masked the interrupts; in the loop no maskable interrupt is taken and every step leads
  back to the same state, so that it never returns.\<close>

theorem arch_halt_stays:
  assumes "list_all (legal p) (fst (arch_halt p))" and "halt_reachable p w h"
  shows "(\<exists>v. halt_reachable p w (Running (length (fst (arch_halt p))) v))
    \<and> (case h of
        Running n v \<Rightarrow> n < length (fst (arch_halt p)) \<or> (\<not> interrupts_on p v \<and> (\<forall>h'. halt_step p h h' \<longleftrightarrow> h' = h))
      | Interrupt n v \<Rightarrow> n < length (fst (arch_halt p))
      | Trap n v \<Rightarrow> False)"
proof -
  let ?N = "length (fst (arch_halt p))"
  have loop: "halt_step p (Running ?N (masked p ?N w)) h' \<longleftrightarrow> h' = Running ?N (masked p ?N w)" for h'
  proof -
    have ok: "legal p (instr_at (arch_halt p) ?N)" by (cases p) (simp_all add: instr_at_def halt_codes)
    have same: "mask_instr (instr_at (arch_halt p) ?N) (masked p ?N w) = masked p ?N w"
      using masked_next [of p ?N w] by simp
    show ?thesis
      using masked_off [of p w] ok by (simp add: halt_step_running same)
  qed
  obtain n where n: "n \<le> ?N" "h = Running n (masked p n w) \<or> (h = Interrupt n (masked p n w) \<and> n < ?N)"
    using halt_path [OF assms(2,1)] by blast
  have arrives: "\<exists>v. halt_reachable p w (Running ?N v)" using halt_arrives [OF assms(1) order_refl] by blast
  from n(2) show ?thesis
  proof (elim disjE conjE)
    assume h: "h = Running n (masked p n w)"
    show ?thesis
    proof (cases "n = ?N")
      case True
      then show ?thesis using h loop masked_off arrives by (simp only: halting.case) blast
    next
      case False
      then show ?thesis using h n(1) arrives by (simp only: halting.case simp_thms) linarith
    qed
  next
    assume "h = Interrupt n (masked p n w)" "n < ?N"
    then show ?thesis using arrives by (simp only: halting.case simp_thms)
  qed
qed

theorem arch_halt_stays_witness:
  "halt_reachable X86_64 0x202 (Running 1 0x2)
   \<and> (\<forall>h. halt_step X86_64 (Running 1 0x2) h \<longleftrightarrow> h = Running 1 0x2)"
proof -
  have l: "list_all (legal X86_64) (fst (arch_halt X86_64))" by (simp add: halt_codes)
  have "halt_reachable X86_64 0x202 (Running 1 (masked X86_64 1 0x202))"
    by (rule halt_arrives [OF l]) (simp add: halt_codes)
  moreover have "masked X86_64 1 0x202 = 0x2" by (simp add: masked_def halt_codes)
  ultimately have r: "halt_reachable X86_64 0x202 (Running 1 0x2)" by simp
  then show ?thesis using arch_halt_stays [OF l r] by (simp add: halt_codes)
qed

text \<open>In supervisor mode, where the boot protocol enters the kernel on riscv64, \<^verbatim>\<open>arch_halt\<close> traps at its
  first instruction, which names a register of the machine mode.\<close>

theorem riscv64_halt_traps:
  "halt_reachable (RiscV64 False u) w h \<longleftrightarrow>
     h = Running 0 w \<or> h = Trap 0 w \<or> (bit w 1 \<and> h = Interrupt 0 w)"
proof
  let ?p = "RiscV64 False u"
  have i: "instr_at riscv64_arch_halt 0 = Csrci Mstatus 0x8" by (simp add: instr_at_def halt_codes)
  show "h = Running 0 w \<or> h = Trap 0 w \<or> (bit w 1 \<and> h = Interrupt 0 w)" if "halt_reachable ?p w h"
    using that by induction (auto simp: i halt_step_running)
  have "halt_step ?p (Running 0 w) (Trap 0 w)" by (rule illegal) (simp add: i)
  moreover have "halt_step ?p (Running 0 w) (Interrupt 0 w)" if "bit w 1" by (rule interrupted) (use that in simp)
  ultimately show "halt_reachable ?p w h" if "h = Running 0 w \<or> h = Trap 0 w \<or> (bit w 1 \<and> h = Interrupt 0 w)"
    using that halt_begin [of ?p w] by (auto intro: halt_next)
qed

end
