(* ===== verification/Exceptions.thy ===== *)
theory Exceptions
  imports Kstate
begin

text \<open>
  The exception handler of \<^verbatim>\<open>arch/x86_64/interrupt.c\<close>: the report it prints before the machine
  halts. The control registers it reads are a parameter.
\<close>

section \<open>The handler\<close>

record regs =
  reg_ds :: u64
  reg_r15 :: u64
  reg_r14 :: u64
  reg_r13 :: u64
  reg_r12 :: u64
  reg_r11 :: u64
  reg_r10 :: u64
  reg_r9 :: u64
  reg_r8 :: u64
  reg_rdi :: u64
  reg_rsi :: u64
  reg_rbp :: u64
  reg_rbx :: u64
  reg_rdx :: u64
  reg_rcx :: u64
  reg_rax :: u64
  reg_intn :: u64
  reg_errCode :: u64
  reg_rip :: u64
  reg_cs :: u64
  reg_rflags :: u64
  reg_rsp :: u64
  reg_ss :: u64

record control_regs =
  cr0_val :: u64
  cr2_val :: u64
  cr3_val :: u64
  cr4_val :: u64

definition exceptionMessages :: "string list" where
  "exceptionMessages = [
     ''Divide Error'', ''Debug'', ''NMI Triggered'', ''Breakpoint Reached'', ''Overflow'',
     ''Bound Range Exceeded'', ''Invalid Opcode'', ''Device Not Available'', ''Double Fault'',
     ''Coprocessor Segment Overrun'', ''Invalid TSS'', ''Segment Not Present'', ''Stack Segment Fault'',
     ''General Protection Fault'', ''Page Fault'', ''(Reserved)'', ''x87 Floating-Point Fault'',
     ''Alignment Check'', ''Machine Check'', ''SIMD Floating-Point Fault'', ''Virtualisation Fault'',
     ''Control Protection Fault'', ''(Reserved)'', ''(Reserved)'', ''(Reserved)'', ''(Reserved)'',
     ''(Reserved)'', ''(Reserved)'', ''Hypervisor Injection'', ''VMM Communication'', ''Security Fault'',
     ''(Reserved)'']"

definition exception_format :: string where
  "exception_format = ''%s!\<newline>'' @
     ''RAX = %#016llx RBX = %#016llx RCX = %#016llx\<newline>'' @
     ''RDX = %#016llx RSI = %#016llx RDI = %#016llx\<newline>'' @
     ''RBP = %#016llx RSP = %#016llx RIP = %#016llx\<newline>'' @
     ''R8  = %#016llx R9  = %#016llx R10 = %#016llx\<newline>'' @
     ''R11 = %#016llx R12 = %#016llx R13 = %#016llx\<newline>'' @
     ''R14 = %#016llx R15 = %#016llx\<newline>'' @
     ''RFLAGS = %#016llx\<newline>'' @
     ''CS = %#llx DS = %#llx SS = %#llx\<newline>'' @
     ''CR0 = %#016llx CR2 = %#016llx\<newline>'' @
     ''CR3 = %#016llx CR4 = %#016llx\<newline>'' @
     ''V = %#016llx ERR = %#016llx''"

definition arch_exception_handler :: "control_regs \<Rightarrow> regs \<Rightarrow> kstate \<Rightarrow> kerror + 'a" where
  "arch_exception_handler c r s =
     (if unat (reg_intn r) < length exceptionMessages
      then kpanic exception_format
        [VaStr (Some (exceptionMessages ! unat (reg_intn r))),
         VaLong (reg_rax r), VaLong (reg_rbx r), VaLong (reg_rcx r),
         VaLong (reg_rdx r), VaLong (reg_rsi r), VaLong (reg_rdi r),
         VaLong (reg_rbp r), VaLong (reg_rsp r), VaLong (reg_rip r),
         VaLong (reg_r8 r), VaLong (reg_r9 r), VaLong (reg_r10 r),
         VaLong (reg_r11 r), VaLong (reg_r12 r), VaLong (reg_r13 r),
         VaLong (reg_r14 r), VaLong (reg_r15 r),
         VaLong (reg_rflags r),
         VaLong (reg_cs r), VaLong (reg_ds r), VaLong (reg_ss r),
         VaLong (cr0_val c), VaLong (cr2_val c),
         VaLong (cr3_val c), VaLong (cr4_val c),
         VaLong (reg_intn r), VaLong (reg_errCode r)] s
      else Inl Bad_index)"

section \<open>The report\<close>

definition hex :: "u64 \<Rightarrow> string" where
  "hex w = ''0x'' @ num_string False 16 (unat w)"

definition hex16 :: "u64 \<Rightarrow> string" where
  "hex16 w = (let h = num_string False 16 (unat w) in ''0x'' @ replicate (16 - length h) (CHR ''0'') @ h)"

text \<open>A report is a list of labels, each with a value, in full width or not.\<close>

definition label_format :: "string \<times> bool \<Rightarrow> string" where
  "label_format = (\<lambda>(l, full). l @ (if full then ''%#016llx'' else ''%#llx''))"

definition label_directives :: "string \<times> bool \<Rightarrow> directive list" where
  "label_directives = (\<lambda>(l, full). lits l @
     [if full then Conv ''#0'' 16 ''ll'' (CHR ''x'') else Conv ''#'' 0 ''ll'' (CHR ''x'')])"

definition field_text :: "(string \<times> bool) \<times> u64 \<Rightarrow> string" where
  "field_text = (\<lambda>((l, full), w). l @ (if full then hex16 w else hex w))"

lemma show_label: "concat (map show_directive (label_directives lf)) = label_format lf"
proof -
  have "num_string False 10 16 = ''16''"
    by (simp add: num_string_def lsd.simps digitsLower_def)
  then show ?thesis by (cases lf) (simp add: label_directives_def label_format_def show_lits)
qed

lemma label_ok: "CHR ''%'' \<notin> set (fst lf) \<Longrightarrow> d \<in> set (label_directives lf) \<Longrightarrow> directive_ok d"
  by (cases lf) (auto simp: label_directives_def dest: lits_ok [rule_format, rotated])

lemma render_hex:
  "render (Conv ''#0'' 16 ''ll'' (CHR ''x'') # ds) (VaLong w # as) =
     bindE (render ds as) (\<lambda>(out, n). Inr (hex16 w @ out, of_nat (length (hex16 w) - 2) + n))"
  "render (Conv ''#'' 0 ''ll'' (CHR ''x'') # ds) (VaLong w # as) =
     bindE (render ds as) (\<lambda>(out, n). Inr (hex w @ out, of_nat (length (hex w) - 2) + n))"
proof -
  have m: "magnitude False w < unat (16 :: cint) ^ safe_digits (unat (16 :: cint))"
    using unsigned_less [of w, where 'a = nat] by (simp add: magnitude_def safe_digits_def)
  have "debug_print_int w 40 16 16 False False = Inr (hex16 w, of_nat (length (hex16 w) - 2))"
    by (subst debug_print_int_layout)
      (use m in \<open>simp_all add: int_layout_def int_sign_def int_prefix_def has_flag_def flag_defs hex16_def
        magnitude_def Let_def\<close>)
  then show "render (Conv ''#0'' 16 ''ll'' (CHR ''x'') # ds) (VaLong w # as) =
     bindE (render ds as) (\<lambda>(out, n). Inr (hex16 w @ out, of_nat (length (hex16 w) - 2) + n))"
    by (simp add: get_value_def print_value_def flag_values)
  have "debug_print_int w 32 0 16 False False = Inr (hex w, of_nat (length (hex w) - 2))"
    by (subst debug_print_int_layout)
      (use m in \<open>simp_all add: int_layout_def int_sign_def int_prefix_def has_flag_def flag_defs hex_def
        magnitude_def Let_def\<close>)
  then show "render (Conv ''#'' 0 ''ll'' (CHR ''x'') # ds) (VaLong w # as) =
     bindE (render ds as) (\<lambda>(out, n). Inr (hex w @ out, of_nat (length (hex w) - 2) + n))"
    by (simp add: get_value_def print_value_def flag_values)
qed

lemma render_label:
  assumes "render ds as = Inr (out, n)"
  shows "\<exists>n'. render (label_directives lf @ ds) (VaLong w # as) = Inr (field_text (lf, w) @ out, n')"
proof -
  obtain l f where lf: "lf = (l, f)" by (cases lf)
  have e: "label_directives lf @ ds = lits l @ (if f then Conv ''#0'' 16 ''ll'' (CHR ''x'') # ds
      else Conv ''#'' 0 ''ll'' (CHR ''x'') # ds)"
    by (simp add: label_directives_def lf)
  show ?thesis
  proof (cases f)
    case True
    show ?thesis unfolding e by (simp only: True if_True render_lits render_hex assms) (simp add: lf field_text_def True)
  next
    case False
    show ?thesis unfolding e by (simp only: False if_False render_lits render_hex assms) (simp add: lf field_text_def False)
  qed
qed

lemma render_fields:
  "length lfs = length ws \<Longrightarrow>
   \<exists>n. render (concat (map label_directives lfs)) (map VaLong ws) = Inr (concat (map field_text (zip lfs ws)), n)"
proof (induction lfs ws rule: list_induct2)
  case (Cons lf lfs w ws)
  then obtain n where "render (concat (map label_directives lfs)) (map VaLong ws) = Inr (concat (map field_text (zip lfs ws)), n)"
    by blast
  from render_label [OF this, of lf w] show ?case by simp
qed simp

lemma panic_report:
  assumes "length lfs = length ws" and "\<forall>lf \<in> set lfs. CHR ''%'' \<notin> set (fst lf)"
  shows "kpanic (''%s'' @ concat (map label_format lfs)) (VaStr (Some name) # map VaLong ws) s =
    Inl (Halted (con s @ ''[ FATAL ] Kernel Panic! '' @ name @ concat (map field_text (zip lfs ws))))"
proof -
  let ?ds = "Conv [] 0 [] (CHR ''s'') # concat (map label_directives lfs)"
  have ok: "\<forall>d \<in> set ?ds. directive_ok d" using assms(2) label_ok by auto
  have sh: "concat (map show_directive (concat (map label_directives lfs))) = concat (map label_format lfs)"
    by (induction lfs) (simp_all add: show_label)
  obtain n where n: "render (concat (map label_directives lfs)) (map VaLong ws) = Inr (concat (map field_text (zip lfs ws)), n)"
    using render_fields [OF assms(1)] by blast
  have "debug_vprintf (''%s'' @ concat (map label_format lfs)) (VaStr (Some name) # map VaLong ws)
      = render ?ds (VaStr (Some name) # map VaLong ws)"
    using vprintf_loop_render [OF ok, of "[]" "VaStr (Some name) # map VaLong ws" "[]" 0] sh
    unfolding debug_vprintf_def by (cases "render ?ds (VaStr (Some name) # map VaLong ws)") (auto simp del: render.simps)
  also have "\<dots> = bindE (render (concat (map label_directives lfs)) (map VaLong ws))
      (\<lambda>(out, n). Inr (name @ out, of_nat (length name) + n))" by (rule render_str)
  finally show ?thesis
    by (simp add: n kpanic_def panic_message_def debug_log_def debug_vprintf_literal)
qed


section \<open>Properties\<close>

definition exception_labels :: "(string \<times> bool) list" where
  "exception_labels =
    [(''!\<newline>RAX = '', True), ('' RBX = '', True), ('' RCX = '', True),
     (''\<newline>RDX = '', True), ('' RSI = '', True), ('' RDI = '', True),
     (''\<newline>RBP = '', True), ('' RSP = '', True), ('' RIP = '', True),
     (''\<newline>R8  = '', True), ('' R9  = '', True), ('' R10 = '', True),
     (''\<newline>R11 = '', True), ('' R12 = '', True), ('' R13 = '', True),
     (''\<newline>R14 = '', True), ('' R15 = '', True), (''\<newline>RFLAGS = '', True),
     (''\<newline>CS = '', False), ('' DS = '', False), ('' SS = '', False),
     (''\<newline>CR0 = '', True), ('' CR2 = '', True), (''\<newline>CR3 = '', True), ('' CR4 = '', True),
     (''\<newline>V = '', True), ('' ERR = '', True)]"

lemma exception_format_labels: "exception_format = ''%s'' @ concat (map label_format exception_labels)"
  by (simp add: exception_format_def exception_labels_def label_format_def)

definition exception_text :: "control_regs \<Rightarrow> regs \<Rightarrow> string" where
  "exception_text c r = ''[ FATAL ] Kernel Panic! '' @ exceptionMessages ! unat (reg_intn r)
       @ ''!\<newline>RAX = '' @ hex16 (reg_rax r) @ '' RBX = '' @ hex16 (reg_rbx r) @ '' RCX = '' @ hex16 (reg_rcx r)
       @ ''\<newline>RDX = '' @ hex16 (reg_rdx r) @ '' RSI = '' @ hex16 (reg_rsi r) @ '' RDI = '' @ hex16 (reg_rdi r)
       @ ''\<newline>RBP = '' @ hex16 (reg_rbp r) @ '' RSP = '' @ hex16 (reg_rsp r) @ '' RIP = '' @ hex16 (reg_rip r)
       @ ''\<newline>R8  = '' @ hex16 (reg_r8 r) @ '' R9  = '' @ hex16 (reg_r9 r) @ '' R10 = '' @ hex16 (reg_r10 r)
       @ ''\<newline>R11 = '' @ hex16 (reg_r11 r) @ '' R12 = '' @ hex16 (reg_r12 r) @ '' R13 = '' @ hex16 (reg_r13 r)
       @ ''\<newline>R14 = '' @ hex16 (reg_r14 r) @ '' R15 = '' @ hex16 (reg_r15 r)
       @ ''\<newline>RFLAGS = '' @ hex16 (reg_rflags r)
       @ ''\<newline>CS = '' @ hex (reg_cs r) @ '' DS = '' @ hex (reg_ds r) @ '' SS = '' @ hex (reg_ss r)
       @ ''\<newline>CR0 = '' @ hex16 (cr0_val c) @ '' CR2 = '' @ hex16 (cr2_val c)
       @ ''\<newline>CR3 = '' @ hex16 (cr3_val c) @ '' CR4 = '' @ hex16 (cr4_val c)
       @ ''\<newline>V = '' @ hex16 (reg_intn r) @ '' ERR = '' @ hex16 (reg_errCode r)"

text \<open>The handler on any frame.\<close>

lemma handler_report:
  "arch_exception_handler c r s =
    (if 32 \<le> unat (reg_intn r) then Inl Bad_index else Inl (Halted (con s @ exception_text c r)))"
proof -
  define ws where "ws = [reg_rax r, reg_rbx r, reg_rcx r, reg_rdx r, reg_rsi r, reg_rdi r, reg_rbp r, reg_rsp r,
    reg_rip r, reg_r8 r, reg_r9 r, reg_r10 r, reg_r11 r, reg_r12 r, reg_r13 r, reg_r14 r, reg_r15 r, reg_rflags r,
    reg_cs r, reg_ds r, reg_ss r, cr0_val c, cr2_val c, cr3_val c, cr4_val c, reg_intn r, reg_errCode r]"
  have len: "length exceptionMessages = 32" "length exception_labels = length ws"
    by (simp_all add: exceptionMessages_def exception_labels_def ws_def)
  have ok: "\<forall>lf \<in> set exception_labels. CHR ''%'' \<notin> set (fst lf)" by (simp add: exception_labels_def)
  note report = panic_report [OF len(2) ok, folded exception_format_labels]
  show ?thesis
  proof (cases "32 \<le> unat (reg_intn r)")
    case True
    then show ?thesis by (simp add: arch_exception_handler_def len(1))
  next
    case False
    then have "arch_exception_handler c r s =
        kpanic exception_format (VaStr (Some (exceptionMessages ! unat (reg_intn r))) # map VaLong ws) s"
      by (simp add: arch_exception_handler_def len(1) ws_def)
    then show ?thesis using False
      by (simp add: report) (simp add: exception_text_def exception_labels_def ws_def field_text_def)
  qed
qed

text \<open>The exception handler halts the machine with a report that names the exception and
  gives every register in full: 16 hexadecimal digits after \<open>0x\<close>, the segment selectors without
  padding. A vector beyond the table of messages would be an access outside it; the gates lead
  only vectors below 32 to the handler.\<close>

theorem exception_report:
  "arch_exception_handler c r s =
    (if 32 \<le> unat (reg_intn r) then Inl Bad_index
     else Inl (Halted (con s @ ''[ FATAL ] Kernel Panic! '' @ exceptionMessages ! unat (reg_intn r)
       @ ''!\<newline>RAX = '' @ hex16 (reg_rax r) @ '' RBX = '' @ hex16 (reg_rbx r) @ '' RCX = '' @ hex16 (reg_rcx r)
       @ ''\<newline>RDX = '' @ hex16 (reg_rdx r) @ '' RSI = '' @ hex16 (reg_rsi r) @ '' RDI = '' @ hex16 (reg_rdi r)
       @ ''\<newline>RBP = '' @ hex16 (reg_rbp r) @ '' RSP = '' @ hex16 (reg_rsp r) @ '' RIP = '' @ hex16 (reg_rip r)
       @ ''\<newline>R8  = '' @ hex16 (reg_r8 r) @ '' R9  = '' @ hex16 (reg_r9 r) @ '' R10 = '' @ hex16 (reg_r10 r)
       @ ''\<newline>R11 = '' @ hex16 (reg_r11 r) @ '' R12 = '' @ hex16 (reg_r12 r) @ '' R13 = '' @ hex16 (reg_r13 r)
       @ ''\<newline>R14 = '' @ hex16 (reg_r14 r) @ '' R15 = '' @ hex16 (reg_r15 r)
       @ ''\<newline>RFLAGS = '' @ hex16 (reg_rflags r)
       @ ''\<newline>CS = '' @ hex (reg_cs r) @ '' DS = '' @ hex (reg_ds r) @ '' SS = '' @ hex (reg_ss r)
       @ ''\<newline>CR0 = '' @ hex16 (cr0_val c) @ '' CR2 = '' @ hex16 (cr2_val c)
       @ ''\<newline>CR3 = '' @ hex16 (cr3_val c) @ '' CR4 = '' @ hex16 (cr4_val c)
       @ ''\<newline>V = '' @ hex16 (reg_intn r) @ '' ERR = '' @ hex16 (reg_errCode r))))"
  by (simp add: handler_report exception_text_def)

text \<open>A register takes 18 characters.\<close>

lemma length_hex16: "length (hex16 w) = 18"
proof -
  have "unat w < 16 ^ 16" using unsigned_less [of w, where 'a = nat] by simp
  then have "length (num_string False 16 (unat w)) \<le> 16"
    using length_lsd_le [of 16 "unat w" 16] by (simp add: num_string_def)
  then show ?thesis by (simp add: hex16_def Let_def)
qed

end
