(* ===== verification/Descriptors.thy ===== *)
theory Descriptors
  imports Kstate
begin

unbundle bit_operations_syntax

text \<open>
  The descriptor tables of the x86 processor: \<^verbatim>\<open>arch/x86_64/gdt.c\<close> and the table part of
  \<^verbatim>\<open>arch/x86_64/interrupt.c\<close>. The static tables and the registers the code loads are the state; the
  addresses the linker gives them are the parameter \<open>image\<close>. The second half says how the
  processor reads the bytes of the tables.
\<close>

section \<open>Tables\<close>

record gdtr =
  gdtr_size :: u16
  gdtr_offset :: u64

record gdt_entry =
  limit0 :: u16
  base0 :: u16
  base1 :: u8
  gdt_access :: u8
  limit1 :: "4 word"
  gdt_flags :: "4 word"
  base2 :: u8

record gdt_system_entry = gdt_entry +
  base3 :: u32
  reserved :: u32

record gdt =
  null :: gdt_entry
  kernelCode :: gdt_entry
  kernelData :: gdt_entry
  userCode :: gdt_entry
  userData :: gdt_entry
  tss_desc :: gdt_system_entry

record tss =
  tss_reserved0 :: u32
  rsp :: "u64 list"
  tss_reserved1 :: u64
  ist :: "u64 list"
  tss_reserved2 :: u64
  tss_reserved3 :: u16
  iomapBase :: u16

record idtr =
  idtr_size :: u16
  idtr_offset :: u64

record idt_entry =
  offset0 :: u16
  seg :: u16
  ist_index :: u8
  pdplGateType :: u8
  offset1 :: u16
  offset2 :: u32
  idt_reserved :: u32

text \<open>The sizes of the packed structures: 8 bytes an entry, 16 a system entry or a gate.\<close>

definition sizeof_gdt :: nat where "sizeof_gdt = 5 * 8 + 16"
definition sizeof_tss :: nat where "sizeof_tss = 4 + 3 * 8 + 8 + 7 * 8 + 8 + 2 + 2"
definition sizeof_idt_entry :: nat where "sizeof_idt_entry = 16"

section \<open>The machine\<close>

record image =
  gdt_base :: u64
  tss_base :: u64
  idt_base :: u64
  isr :: "nat \<Rightarrow> u64"
  after_far :: u64
  return_to :: u64

record machine =
  gdts :: "gdt list"
  tsss :: "tss list"
  gdtrs :: "gdtr list"
  idt :: "idt_entry list"
  idtr_var :: idtr
  cpu_gdtr :: gdtr
  cpu_idtr :: idtr
  cs_reg :: u16
  ds_reg :: u16
  es_reg :: u16
  fs_reg :: u16
  gs_reg :: u16
  ss_reg :: u16
  tr_reg :: u16
  stack :: "u64 list"

section \<open>The GDT\<close>

definition gdt_set_entry :: "u8 \<Rightarrow> 4 word \<Rightarrow> gdt_entry \<Rightarrow> gdt_entry" where
  "gdt_set_entry acc fl e =
     e\<lparr>gdt_access := acc, gdt_flags := fl, base0 := 0, base1 := 0, base2 := 0, limit0 := 0, limit1 := 0\<rparr>"

definition gdt_set_system_entry ::
    "u8 \<Rightarrow> 4 word \<Rightarrow> u64 \<Rightarrow> u32 \<Rightarrow> gdt_system_entry \<Rightarrow> gdt_system_entry" where
  "gdt_set_system_entry acc fl base limit e =
     e\<lparr>gdt_access := acc, gdt_flags := fl,
       base0 := ucast (base AND 0xFFFF),
       base1 := ucast (drop_bit 16 base AND 0xFF),
       base2 := ucast (drop_bit 24 base AND 0xFF),
       base3 := ucast (drop_bit 32 base AND 0xFFFFFFFF),
       limit0 := ucast (limit AND 0xFFFF),
       limit1 := ucast (drop_bit 16 limit AND 0xF)\<rparr>"

text \<open>
  The two assembly blocks. The first loads the table and the data segments, and then returns
  far: \<^verbatim>\<open>popq\<close> takes the word on top of the stack, \<^verbatim>\<open>retfq\<close> continues at that address with the code
  segment \<open>0x08\<close>. The second loads the task register.
\<close>

definition load_segments :: "gdtr \<Rightarrow> machine \<Rightarrow> u64 \<times> machine" where
  "load_segments g m =
     (hd (stack m),
      m\<lparr>cpu_gdtr := g, ds_reg := 0x10, es_reg := 0x10, fs_reg := 0x10, gs_reg := 0x10, ss_reg := 0x10,
        cs_reg := 0x08, stack := tl (stack m)\<rparr>)"

definition load_tss :: "machine \<Rightarrow> machine" where
  "load_tss m = m\<lparr>tr_reg := 0x28\<rparr>"

definition cpu_index :: "cint \<Rightarrow> machine \<Rightarrow> bool" where
  "cpu_index cpu m \<longleftrightarrow> 0 \<le> sint cpu \<and> nat (sint cpu) < length (gdts m)"

text \<open>
  The value is the address where the function leaves to. The statement behind the first block,
  at the address \<open>after_far\<close>, and the return behind it run only if the far return goes there.
\<close>

definition arch_load_gdt :: "image \<Rightarrow> cint \<Rightarrow> machine \<Rightarrow> kerror + (u64 \<times> machine)" where
  "arch_load_gdt img cpu m =
     (if \<not> cpu_index cpu m then Inl Bad_index
      else let i = nat (sint cpu);
               g = gdts m ! i;
               g = g\<lparr>null := gdt_set_entry 0 0 (null g)\<rparr>;
               g = g\<lparr>kernelCode := gdt_set_entry 0x9A 0xA (kernelCode g)\<rparr>;
               g = g\<lparr>kernelData := gdt_set_entry 0x92 0xC (kernelData g)\<rparr>;
               g = g\<lparr>userCode := gdt_set_entry 0xFA 0xA (userCode g)\<rparr>;
               g = g\<lparr>userData := gdt_set_entry 0xF2 0xC (userData g)\<rparr>;
               g = g\<lparr>tss_desc := gdt_set_system_entry 0xE9 0x0
                       (tss_base img + of_nat (i * sizeof_tss)) (of_nat sizeof_tss) (tss_desc g)\<rparr>;
               m = m\<lparr>gdts := (gdts m)[i := g]\<rparr>;
               r = \<lparr>gdtr_size = of_nat (sizeof_gdt - 1), gdtr_offset = gdt_base img + of_nat (i * sizeof_gdt)\<rparr>;
               m = m\<lparr>gdtrs := (gdtrs m)[i := r]\<rparr>;
               (rip, m) = load_segments r m
           in if rip = after_far img
              then let m = load_tss m in Inr (hd (stack m), m\<lparr>stack := tl (stack m)\<rparr>)
              else Inr (rip, m))"

definition arch_set_kernel_stack :: "cint \<Rightarrow> u64 \<Rightarrow> machine \<Rightarrow> kerror + machine" where
  "arch_set_kernel_stack cpu stk m =
     (if \<not> cpu_index cpu m then Inl Bad_index
      else let i = nat (sint cpu)
           in Inr (m\<lparr>tsss := (tsss m)[i := (tsss m ! i)\<lparr>rsp := (rsp (tsss m ! i))[0 := stk]\<rparr>]\<rparr>))"

section \<open>The IDT\<close>

definition INT_GATE :: u8 where "INT_GATE = 0x8E"
definition INT_USER_GATE :: u8 where "INT_USER_GATE = 0xEE"
definition TRAP_GATE :: u8 where "TRAP_GATE = 0x8F"

definition arch_idt_set_entry :: "u8 \<Rightarrow> u64 \<Rightarrow> u8 \<Rightarrow> machine \<Rightarrow> machine" where
  "arch_idt_set_entry entry handler gateType m =
     m\<lparr>idt := (idt m)[unat entry := (idt m ! unat entry)\<lparr>
        offset0 := ucast (handler AND 0xFFFF),
        offset1 := ucast (drop_bit 16 handler AND 0xFFFF),
        offset2 := ucast (drop_bit 32 handler AND 0xFFFFFFFF),
        ist_index := 0,
        seg := 0x08,
        pdplGateType := gateType,
        idt_reserved := 0\<rparr>]\<rparr>"

text \<open>The 32 calls for the handlers \<^verbatim>\<open>isr0\<close> to \<^verbatim>\<open>isr31\<close>, in order.\<close>

definition set_exception_gates :: "image \<Rightarrow> machine \<Rightarrow> machine" where
  "set_exception_gates img m = fold (\<lambda>i. arch_idt_set_entry (of_nat i) (isr img i) INT_GATE) [0..<32] m"

definition arch_interrupt_init :: "image \<Rightarrow> machine \<Rightarrow> cint \<times> machine" where
  "arch_interrupt_init img m =
     (let m = m\<lparr>idtr_var := \<lparr>idtr_size = of_nat (sizeof_idt_entry * 256 - 1), idtr_offset = idt_base img\<rparr>\<rparr>;
          m = set_exception_gates img m
      in (0, m\<lparr>cpu_idtr := idtr_var m\<rparr>))"

section \<open>Initialisation stages\<close>

text \<open>
  The call pushes its return address; nothing else is on the stack of \<^verbatim>\<open>arch_load_gdt\<close>, which
  keeps its values in registers.
\<close>

definition arch_init_very_early :: "image \<Rightarrow> cint \<Rightarrow> machine \<Rightarrow> kerror + (cint \<times> machine)" where
  "arch_init_very_early img cpu m =
     bindE (arch_load_gdt img cpu (m\<lparr>stack := return_to img # stack m\<rparr>)) (\<lambda>(rip, m).
       if rip = return_to img then Inr (0, m) else Inl Wild_jump)"

definition arch_init_early :: "image \<Rightarrow> cint \<Rightarrow> machine \<Rightarrow> cint \<times> machine" where
  "arch_init_early img cpu m = (let (_, m) = arch_interrupt_init img m in (0, m))"

definition arch_init_late :: "cint \<Rightarrow> machine \<Rightarrow> cint \<times> machine" where
  "arch_init_late cpu m = (0, m)"

definition arch_init_full :: "image \<Rightarrow> cint \<Rightarrow> machine \<Rightarrow> kerror + (cint \<times> machine)" where
  "arch_init_full img cpu m =
     bindE (arch_init_very_early img cpu m) (\<lambda>(status, m).
       if status \<noteq> 0 then Inr (status, m)
       else let (status, m) = arch_init_early img cpu m
            in if status \<noteq> 0 then Inr (status, m) else Inr (arch_init_late cpu m))"

section \<open>What the processor reads\<close>

text \<open>The packed structures as bytes, little-endian.\<close>

definition le_bytes :: "nat \<Rightarrow> 'a::len word \<Rightarrow> u8 list" where
  "le_bytes n w = map (\<lambda>k. ucast (drop_bit (8 * k) w)) [0..<n]"

definition le_word :: "u8 list \<Rightarrow> u64" where
  "le_word bs = foldr (\<lambda>b w. push_bit 8 w OR ucast b) bs 0"

definition entry_bytes :: "'a gdt_entry_scheme \<Rightarrow> u8 list" where
  "entry_bytes e = le_bytes 2 (limit0 e) @ le_bytes 2 (base0 e) @ [base1 e, gdt_access e,
     ucast (limit1 e) OR push_bit 4 (ucast (gdt_flags e)), base2 e]"

definition system_entry_bytes :: "gdt_system_entry \<Rightarrow> u8 list" where
  "system_entry_bytes e = entry_bytes e @ le_bytes 4 (base3 e) @ le_bytes 4 (reserved e)"

definition gdt_bytes :: "gdt \<Rightarrow> u8 list" where
  "gdt_bytes g = entry_bytes (null g) @ entry_bytes (kernelCode g) @ entry_bytes (kernelData g)
     @ entry_bytes (userCode g) @ entry_bytes (userData g) @ system_entry_bytes (tss_desc g)"

definition gate_bytes :: "idt_entry \<Rightarrow> u8 list" where
  "gate_bytes e = le_bytes 2 (offset0 e) @ le_bytes 2 (seg e) @ [ist_index e, pdplGateType e]
     @ le_bytes 2 (offset1 e) @ le_bytes 4 (offset2 e) @ le_bytes 4 (idt_reserved e)"

text \<open>The processor's reading of a descriptor at a selector, and of a gate (Intel SDM, vol. 3).\<close>

record segment =
  seg_base :: u64
  seg_limit :: nat
  seg_access :: u8
  seg_long :: bool

definition segment_at :: "u8 list \<Rightarrow> nat \<Rightarrow> segment" where
  "segment_at bs sel = (let d = take 8 (drop sel bs) in
     \<lparr>seg_base = le_word [d ! 2, d ! 3, d ! 4, d ! 7],
      seg_limit = unat (le_word [d ! 0, d ! 1, d ! 6 AND 0xF]),
      seg_access = d ! 5,
      seg_long = bit (d ! 6) 5\<rparr>)"

definition system_segment_at :: "u8 list \<Rightarrow> nat \<Rightarrow> segment" where
  "system_segment_at bs sel =
     (segment_at bs sel)\<lparr>seg_base := le_word (take 3 (drop (sel + 2) bs) @ [bs ! (sel + 7)] @ take 4 (drop (sel + 8) bs))\<rparr>"

record gate =
  gate_handler :: u64
  gate_selector :: u64
  gate_ist :: u8
  gate_kind :: u8

definition gate_at :: "u8 list \<Rightarrow> nat \<Rightarrow> gate" where
  "gate_at bs v = (let d = take 16 (drop (16 * v) bs) in
     \<lparr>gate_handler = le_word (take 2 d @ take 2 (drop 6 d) @ take 4 (drop 8 d)),
      gate_selector = le_word (take 2 (drop 2 d)), gate_ist = d ! 4, gate_kind = d ! 5\<rparr>)"

lemma le_bytes_simps:
  "le_bytes 2 w = [ucast w, ucast (drop_bit 8 w)]"
  "le_bytes 4 w = [ucast w, ucast (drop_bit 8 w), ucast (drop_bit 16 w), ucast (drop_bit 24 w)]"
  by (simp_all add: le_bytes_def numeral_eq_Suc)

text \<open>A 64-bit word cut into pieces and put together again.\<close>

lemma push_piece:
  "push_bit 8 (drop_bit (8 + k) w) OR ucast (ucast (drop_bit k w) :: u8) = (drop_bit k w :: u64)"
proof (rule bit_word_eqI)
  fix n
  assume "n < LENGTH(64)"
  moreover have "8 + k + (n - 8) = k + n" if "\<not> n < 8" using that by simp
  ultimately show "bit (push_bit 8 (drop_bit (8 + k) w) OR ucast (ucast (drop_bit k w) :: u8)) n
      \<longleftrightarrow> bit (drop_bit k w :: u64) n"
    by (cases "n < 8") (simp_all add: bit_simps)
qed

lemma top_piece: "(ucast (ucast (drop_bit 56 w) :: u8) :: u64) = drop_bit 56 (w :: u64)"
  by (rule bit_word_eqI) (auto simp: bit_simps dest: bit_imp_le_length)

lemma le_word_Cons: "le_word (b # bs) = push_bit 8 (le_word bs) OR ucast b"
  and le_word_Nil: "le_word [] = 0"
  by (simp_all add: le_word_def)

lemma le_word_pieces:
  "le_word [ucast (w :: u64), ucast (drop_bit 8 w), ucast (drop_bit 16 w), ucast (drop_bit 24 w),
     ucast (drop_bit 32 w), ucast (drop_bit 40 w), ucast (drop_bit 48 w), ucast (drop_bit 56 w)] = w"
  using push_piece [of 48 w] push_piece [of 40 w] push_piece [of 32 w] push_piece [of 24 w]
    push_piece [of 16 w] push_piece [of 8 w] push_piece [of 0 w]
  by (simp add: le_word_Cons le_word_Nil top_piece)


lemma masks:
  "(w :: u64) AND 0xFFFF = take_bit 16 w" "(w :: u64) AND 0xFF = take_bit 8 w"
  "(w :: u64) AND 0xFFFFFFFF = take_bit 32 w"
  by (simp_all add: take_bit_eq_mask mask_eq_exp_minus_1)

text \<open>The bytes of a field that holds some bits of a 64-bit word.\<close>

lemma field_bytes:
  fixes w :: u64
  shows "(ucast (ucast (take_bit 16 w) :: u16) :: u8) = ucast w"
    and "(ucast (drop_bit 8 (ucast (take_bit 16 w) :: u16)) :: u8) = ucast (drop_bit 8 w)"
    and "(ucast (take_bit 8 w) :: u8) = ucast w"
    and "(ucast (ucast (take_bit 32 w) :: u32) :: u8) = ucast w"
    and "k \<in> {8, 16, 24} \<Longrightarrow> (ucast (drop_bit k (ucast (take_bit 32 w) :: u32)) :: u8) = ucast (drop_bit k w)"
  by (rule bit_word_eqI; auto simp: bit_simps)+

section \<open>The segments\<close>

lemma load_gdt_spec:
  assumes "gdts m = [g0]" and "gdtrs m = [r0]" and "return_to img \<noteq> after_far img"
  shows "\<exists>m' g. arch_init_very_early img 0 m = Inr (0, m') \<and> gdts m' = [g]
    \<and> cpu_gdtr m' = \<lparr>gdtr_size = 55, gdtr_offset = gdt_base img\<rparr> \<and> length (gdt_bytes g) = 56
    \<and> segment_at (gdt_bytes g) 0x08 = \<lparr>seg_base = 0, seg_limit = 0, seg_access = 0x9A, seg_long = True\<rparr>
    \<and> segment_at (gdt_bytes g) 0x10 = \<lparr>seg_base = 0, seg_limit = 0, seg_access = 0x92, seg_long = False\<rparr>
    \<and> segment_at (gdt_bytes g) 0x18 = \<lparr>seg_base = 0, seg_limit = 0, seg_access = 0xFA, seg_long = True\<rparr>
    \<and> segment_at (gdt_bytes g) 0x20 = \<lparr>seg_base = 0, seg_limit = 0, seg_access = 0xF2, seg_long = False\<rparr>
    \<and> system_segment_at (gdt_bytes g) 0x28 =
        \<lparr>seg_base = tss_base img, seg_limit = sizeof_tss, seg_access = 0xE9, seg_long = False\<rparr>
    \<and> cs_reg m' = 0x08 \<and> ds_reg m' = 0x10 \<and> ss_reg m' = 0x10
    \<and> tr_reg m' = tr_reg m \<and> stack m' = stack m \<and> idt m' = idt m"
proof -
  define g where "g = g0\<lparr>null := gdt_set_entry 0 0 (null g0), kernelCode := gdt_set_entry 0x9A 0xA (kernelCode g0),
    kernelData := gdt_set_entry 0x92 0xC (kernelData g0), userCode := gdt_set_entry 0xFA 0xA (userCode g0),
    userData := gdt_set_entry 0xF2 0xC (userData g0),
    tss_desc := gdt_set_system_entry 0xE9 0x0 (tss_base img) 104 (tss_desc g0)\<rparr>"
  define m' where "m' = m\<lparr>gdts := [g], gdtrs := [\<lparr>gdtr_size = 55, gdtr_offset = gdt_base img\<rparr>],
    cpu_gdtr := \<lparr>gdtr_size = 55, gdtr_offset = gdt_base img\<rparr>, ds_reg := 0x10, es_reg := 0x10,
    fs_reg := 0x10, gs_reg := 0x10, ss_reg := 0x10, cs_reg := 0x08\<rparr>"
  have run: "arch_init_very_early img 0 m = Inr (0, m')"
    using assms
    by (simp add: arch_init_very_early_def arch_load_gdt_def cpu_index_def load_segments_def Let_def
        m'_def g_def sizeof_gdt_def sizeof_tss_def)
  note bytes = gdt_bytes_def entry_bytes_def system_entry_bytes_def le_bytes_simps
  note g = g_def gdt_set_entry_def gdt_set_system_entry_def masks
  have len: "length (gdt_bytes g) = 56" by (simp add: bytes)
  have entries: "entry_bytes (gdt_set_entry acc fl e) = [0, 0, 0, 0, 0, acc, push_bit 4 (ucast fl), 0]" for acc fl e
    by (simp add: bytes gdt_set_entry_def)
  have system: "system_entry_bytes (gdt_set_system_entry 0xE9 0 (tss_base img) 104 e) =
      [104, 0, ucast (tss_base img), ucast (drop_bit 8 (tss_base img)), ucast (drop_bit 16 (tss_base img)), 0xE9, 0,
       ucast (drop_bit 24 (tss_base img)), ucast (drop_bit 32 (tss_base img)), ucast (drop_bit 40 (tss_base img)),
       ucast (drop_bit 48 (tss_base img)), ucast (drop_bit 56 (tss_base img))] @ le_bytes 4 (reserved e)" for e
    by (simp add: bytes gdt_set_system_entry_def masks field_bytes)
  have table: "gdt_bytes g = [0, 0, 0, 0, 0, 0, 0, 0] @ [0, 0, 0, 0, 0, 0x9A, 0xA0, 0] @ [0, 0, 0, 0, 0, 0x92, 0xC0, 0]
      @ [0, 0, 0, 0, 0, 0xFA, 0xA0, 0] @ [0, 0, 0, 0, 0, 0xF2, 0xC0, 0]
      @ system_entry_bytes (gdt_set_system_entry 0xE9 0 (tss_base img) 104 (tss_desc g0))"
    by (simp add: gdt_bytes_def g_def entries)
  have segs: "segment_at (gdt_bytes g) 0x08 = \<lparr>seg_base = 0, seg_limit = 0, seg_access = 0x9A, seg_long = True\<rparr>"
    "segment_at (gdt_bytes g) 0x10 = \<lparr>seg_base = 0, seg_limit = 0, seg_access = 0x92, seg_long = False\<rparr>"
    "segment_at (gdt_bytes g) 0x18 = \<lparr>seg_base = 0, seg_limit = 0, seg_access = 0xFA, seg_long = True\<rparr>"
    "segment_at (gdt_bytes g) 0x20 = \<lparr>seg_base = 0, seg_limit = 0, seg_access = 0xF2, seg_long = False\<rparr>"
    by (simp_all add: table segment_at_def le_word_Cons le_word_Nil Let_def bit_numeral_rec)
  have "system_segment_at (gdt_bytes g) 0x28 =
        \<lparr>seg_base = tss_base img, seg_limit = sizeof_tss, seg_access = 0xE9, seg_long = False\<rparr>"
    using le_word_pieces [of "tss_base img"]
    by (simp add: table system system_segment_at_def segment_at_def Let_def sizeof_tss_def)
      (simp add: le_word_Cons le_word_Nil)
  then show ?thesis using run len segs by (intro exI [of _ m'] exI [of _ g]) (simp add: m'_def)
qed


text \<open>A machine before the kernel starts: one processor, empty tables.\<close>

definition zero_entry :: gdt_entry where
  "zero_entry = \<lparr>limit0 = 0, base0 = 0, base1 = 0, gdt_access = 0, limit1 = 0, gdt_flags = 0, base2 = 0\<rparr>"

definition zero_system_entry :: gdt_system_entry where
  "zero_system_entry = \<lparr>limit0 = 0, base0 = 0, base1 = 0, gdt_access = 0, limit1 = 0, gdt_flags = 0, base2 = 0,
     base3 = 0, reserved = 0\<rparr>"

definition zero_gdt :: gdt where
  "zero_gdt = \<lparr>null = zero_entry, kernelCode = zero_entry, kernelData = zero_entry, userCode = zero_entry,
     userData = zero_entry, tss_desc = zero_system_entry\<rparr>"

definition zero_tss :: tss where
  "zero_tss = \<lparr>tss_reserved0 = 0, rsp = [0, 0, 0], tss_reserved1 = 0, ist = replicate 7 0, tss_reserved2 = 0,
     tss_reserved3 = 0, iomapBase = 0\<rparr>"

definition zero_gate :: idt_entry where
  "zero_gate = \<lparr>offset0 = 0, seg = 0, ist_index = 0, pdplGateType = 0, offset1 = 0, offset2 = 0, idt_reserved = 0\<rparr>"

definition reset_machine :: machine where
  "reset_machine = \<lparr>gdts = [zero_gdt], tsss = [zero_tss], gdtrs = [\<lparr>gdtr_size = 0, gdtr_offset = 0\<rparr>],
     idt = replicate 256 zero_gate, idtr_var = \<lparr>idtr_size = 0, idtr_offset = 0\<rparr>,
     cpu_gdtr = \<lparr>gdtr_size = 0, gdtr_offset = 0\<rparr>, cpu_idtr = \<lparr>idtr_size = 0, idtr_offset = 0\<rparr>,
     cs_reg = 0x28, ds_reg = 0x30, es_reg = 0x30, fs_reg = 0x30, gs_reg = 0x30, ss_reg = 0x30, tr_reg = 0, stack = []\<rparr>"

definition example_image :: image where
  "example_image = \<lparr>gdt_base = 0xffffffff80008000, tss_base = 0xffffffff80008100, idt_base = 0xffffffff80009000,
     isr = (\<lambda>i. 0xffffffff80001000 + 16 * of_nat i), after_far = 0xffffffff80000100, return_to = 0xffffffff80000040\<rparr>"

text \<open>C27: the first stage succeeds and loads the table the processor should see: 64-bit code
  segments for the kernel (selector \<open>0x08\<close>) and for user programs (\<open>0x18\<close>), data segments (\<open>0x10\<close>,
  \<open>0x20\<close>), and at \<open>0x28\<close> the task state segment at its 64-bit address, whatever the bytes of the
  address. The code and data segment registers are reloaded. The task register is not: the far
  return leaves the function before the \<^verbatim>\<open>ltr\<close>.\<close>

theorem gdt_loaded:
  assumes "gdts m = [g0]" and "gdtrs m = [r0]" and "return_to img \<noteq> after_far img"
  shows "\<exists>m' g. arch_init_very_early img 0 m = Inr (0, m') \<and> gdts m' = [g]
    \<and> cpu_gdtr m' = \<lparr>gdtr_size = 55, gdtr_offset = gdt_base img\<rparr> \<and> length (gdt_bytes g) = 56
    \<and> segment_at (gdt_bytes g) 0x08 = \<lparr>seg_base = 0, seg_limit = 0, seg_access = 0x9A, seg_long = True\<rparr>
    \<and> segment_at (gdt_bytes g) 0x10 = \<lparr>seg_base = 0, seg_limit = 0, seg_access = 0x92, seg_long = False\<rparr>
    \<and> segment_at (gdt_bytes g) 0x18 = \<lparr>seg_base = 0, seg_limit = 0, seg_access = 0xFA, seg_long = True\<rparr>
    \<and> segment_at (gdt_bytes g) 0x20 = \<lparr>seg_base = 0, seg_limit = 0, seg_access = 0xF2, seg_long = False\<rparr>
    \<and> system_segment_at (gdt_bytes g) 0x28 =
        \<lparr>seg_base = tss_base img, seg_limit = sizeof_tss, seg_access = 0xE9, seg_long = False\<rparr>
    \<and> cs_reg m' = 0x08 \<and> ds_reg m' = 0x10 \<and> ss_reg m' = 0x10 \<and> tr_reg m' = tr_reg m"
  using load_gdt_spec [OF assms] by blast

theorem gdt_loaded_witness:
  "\<exists>m g. arch_init_very_early example_image 0 reset_machine = Inr (0, m) \<and> gdts m = [g]
    \<and> seg_base (system_segment_at (gdt_bytes g) 0x28) = 0xffffffff80008100 \<and> tr_reg m = 0"
proof -
  have e: "gdts reset_machine = [zero_gdt]" "gdtrs reset_machine = [\<lparr>gdtr_size = 0, gdtr_offset = 0\<rparr>]"
    "return_to example_image \<noteq> after_far example_image" "tss_base example_image = 0xffffffff80008100"
    "tr_reg reset_machine = 0"
    by (simp_all add: reset_machine_def example_image_def)
  obtain m g where "arch_init_very_early example_image 0 reset_machine = Inr (0, m)" "gdts m = [g]"
      "system_segment_at (gdt_bytes g) 0x28 =
        \<lparr>seg_base = tss_base example_image, seg_limit = sizeof_tss, seg_access = 0xE9, seg_long = False\<rparr>"
      "tr_reg m = tr_reg reset_machine"
    using gdt_loaded [OF e(1-3)] by blast
  then show ?thesis using e(4,5) by (intro exI [of _ m] exI [of _ g]) simp
qed

section \<open>The gates\<close>

definition exception_gate :: "u64 \<Rightarrow> idt_entry \<Rightarrow> idt_entry" where
  "exception_gate h e = e\<lparr>offset0 := ucast (take_bit 16 h), offset1 := ucast (take_bit 16 (drop_bit 16 h)),
     offset2 := ucast (take_bit 32 (drop_bit 32 h)), ist_index := 0, seg := 0x08, pdplGateType := 0x8E, idt_reserved := 0\<rparr>"

lemma set_gates:
  "n \<le> 32 \<Longrightarrow> length (idt m) = 256 \<Longrightarrow>
   fold (\<lambda>i. arch_idt_set_entry (of_nat i) (isr img i) INT_GATE) [0..<n] m =
     m\<lparr>idt := map (\<lambda>i. exception_gate (isr img i) (idt m ! i)) [0..<n] @ drop n (idt m)\<rparr>"
proof (induction n)
  case (Suc n)
  have "unat (of_nat n :: u8) = n" using Suc.prems(1) by (simp add: unat_of_nat)
  moreover have "drop n (idt m) = idt m ! n # drop (Suc n) (idt m)"
    using Suc.prems by (simp add: Cons_nth_drop_Suc)
  ultimately show ?case
    using Suc by (simp add: arch_idt_set_entry_def masks exception_gate_def INT_GATE_def nth_append list_update_append)
qed simp

lemma take_drop_gates:
  "v < length es \<Longrightarrow> take 16 (drop (16 * v) (concat (map gate_bytes es))) = gate_bytes (es ! v)"
proof (induction es arbitrary: v)
  case (Cons e es)
  have "length (gate_bytes e) = 16" by (simp add: gate_bytes_def le_bytes_simps)
  then show ?case using Cons by (cases v) simp_all
qed simp

lemma gate_at_nth:
  assumes "v < length es"
  shows "gate_at (concat (map gate_bytes es)) v =
    \<lparr>gate_handler = le_word (le_bytes 2 (offset0 (es ! v)) @ le_bytes 2 (offset1 (es ! v)) @ le_bytes 4 (offset2 (es ! v))),
     gate_selector = le_word (le_bytes 2 (seg (es ! v))), gate_ist = ist_index (es ! v), gate_kind = pdplGateType (es ! v)\<rparr>"
  unfolding gate_at_def take_drop_gates [OF assms] by (simp add: Let_def gate_bytes_def le_bytes_simps)

lemma exception_gate_read:
  "le_word (le_bytes 2 (offset0 (exception_gate h e)) @ le_bytes 2 (offset1 (exception_gate h e))
     @ le_bytes 4 (offset2 (exception_gate h e))) = h"
  using le_word_pieces [of h] by (simp add: exception_gate_def le_bytes_simps field_bytes)

lemma interrupt_init_spec:
  assumes "length (idt m) = 256"
  shows "\<exists>m'. arch_interrupt_init img m = (0, m') \<and> length (idt m') = 256
    \<and> cpu_idtr m' = \<lparr>idtr_size = 4095, idtr_offset = idt_base img\<rparr>
    \<and> gdts m' = gdts m \<and> cpu_gdtr m' = cpu_gdtr m
    \<and> (\<forall>v < 256. gate_at (concat (map gate_bytes (idt m'))) v =
        (if v < 32 then \<lparr>gate_handler = isr img v, gate_selector = 0x08, gate_ist = 0, gate_kind = 0x8E\<rparr>
         else gate_at (concat (map gate_bytes (idt m))) v))"
proof -
  define es where "es = map (\<lambda>i. exception_gate (isr img i) (idt m ! i)) [0..<32] @ drop 32 (idt m)"
  define m' where "m' = m\<lparr>idtr_var := \<lparr>idtr_size = 4095, idtr_offset = idt_base img\<rparr>, idt := es,
     cpu_idtr := \<lparr>idtr_size = 4095, idtr_offset = idt_base img\<rparr>\<rparr>"
  have run: "arch_interrupt_init img m = (0, m')"
    using set_gates [of 32 "m\<lparr>idtr_var := \<lparr>idtr_size = 4095, idtr_offset = idt_base img\<rparr>\<rparr>" img] assms
    by (simp add: arch_interrupt_init_def set_exception_gates_def sizeof_idt_entry_def m'_def es_def Let_def)
  have len: "length es = 256" using assms by (simp add: es_def)
  have nth: "es ! v = (if v < 32 then exception_gate (isr img v) (idt m ! v) else idt m ! v)" if "v < 256" for v
    using that assms by (simp add: es_def nth_append)
  have "gate_at (concat (map gate_bytes es)) v =
        (if v < 32 then \<lparr>gate_handler = isr img v, gate_selector = 0x08, gate_ist = 0, gate_kind = 0x8E\<rparr>
         else gate_at (concat (map gate_bytes (idt m))) v)" if "v < 256" for v
    using that nth [OF that] assms
    by (simp add: gate_at_nth len exception_gate_read)
      (simp add: exception_gate_def le_bytes_simps le_word_Cons le_word_Nil)
  then show ?thesis using run len by (intro exI [of _ m']) (simp add: m'_def)
qed

text \<open>C26: exceptions reach the kernel. After the initialisation stages of a processor, each of
  the 32 exception vectors is a present interrupt gate of ring 0 to its own handler, whatever
  the bytes of the handler's address, and the code segment it names is the present 64-bit
  kernel code segment of the loaded table; the other vectors are as they were.\<close>

theorem exceptions_reach_kernel:
  assumes "gdts m = [g0]" and "gdtrs m = [r0]" and "return_to img \<noteq> after_far img" and "length (idt m) = 256"
  shows "\<exists>m' g. arch_init_full img 0 m = Inr (0, m') \<and> gdts m' = [g]
    \<and> cpu_idtr m' = \<lparr>idtr_size = 4095, idtr_offset = idt_base img\<rparr>
    \<and> cpu_gdtr m' = \<lparr>gdtr_size = 55, gdtr_offset = gdt_base img\<rparr>
    \<and> (\<forall>v < 256. let gate = gate_at (concat (map gate_bytes (idt m'))) v in
        if v < 32 then gate = \<lparr>gate_handler = isr img v, gate_selector = 0x08, gate_ist = 0, gate_kind = 0x8E\<rparr>
          \<and> segment_at (gdt_bytes g) (unat (gate_selector gate)) =
              \<lparr>seg_base = 0, seg_limit = 0, seg_access = 0x9A, seg_long = True\<rparr>
        else gate = gate_at (concat (map gate_bytes (idt m))) v)"
proof -
  obtain m1 g where 1: "arch_init_very_early img 0 m = Inr (0, m1)" "gdts m1 = [g]" "idt m1 = idt m"
      "cpu_gdtr m1 = \<lparr>gdtr_size = 55, gdtr_offset = gdt_base img\<rparr>"
      "segment_at (gdt_bytes g) 0x08 = \<lparr>seg_base = 0, seg_limit = 0, seg_access = 0x9A, seg_long = True\<rparr>"
    using load_gdt_spec [OF assms(1-3)] by blast
  obtain m2 where 2: "arch_interrupt_init img m1 = (0, m2)"
      "cpu_idtr m2 = \<lparr>idtr_size = 4095, idtr_offset = idt_base img\<rparr>" "gdts m2 = gdts m1" "cpu_gdtr m2 = cpu_gdtr m1"
      "\<forall>v < 256. gate_at (concat (map gate_bytes (idt m2))) v =
        (if v < 32 then \<lparr>gate_handler = isr img v, gate_selector = 0x08, gate_ist = 0, gate_kind = 0x8E\<rparr>
         else gate_at (concat (map gate_bytes (idt m))) v)"
    using interrupt_init_spec [of m1 img] assms(4) 1(3) by auto
  have "arch_init_full img 0 m = Inr (0, m2)"
    by (simp add: arch_init_full_def 1(1) arch_init_early_def 2(1) arch_init_late_def)
  then show ?thesis using 1(2,4,5) 2(2-5) by (intro exI [of _ m2] exI [of _ g]) (simp add: Let_def)
qed

theorem exceptions_reach_kernel_witness:
  "\<exists>m. arch_init_full example_image 0 reset_machine = Inr (0, m)
    \<and> gate_handler (gate_at (concat (map gate_bytes (idt m))) 14) = 0xffffffff800010e0"
proof -
  have e: "gdts reset_machine = [zero_gdt]" "gdtrs reset_machine = [\<lparr>gdtr_size = 0, gdtr_offset = 0\<rparr>]"
    "return_to example_image \<noteq> after_far example_image" "length (idt reset_machine) = 256"
    "isr example_image 14 = 0xffffffff800010e0"
    by (simp_all add: reset_machine_def example_image_def)
  from exceptions_reach_kernel [OF e(1-4)] obtain m where
      m: "arch_init_full example_image 0 reset_machine = Inr (0, m)"
      "\<forall>v < 256. v < 32 \<longrightarrow> gate_handler (gate_at (concat (map gate_bytes (idt m))) v) = isr example_image v"
    by (auto simp: Let_def)
  then show ?thesis using m(2) [rule_format, of 14] by (intro exI [of _ m]) (simp add: e(5))
qed

end
