(* ===== verification/Interrupt_Entry.thy ===== *)
theory Interrupt_Entry
  imports Exceptions Descriptors Pmm_Spec
begin

text \<open>
  The way of an exception into the kernel: the frame the processor pushes when it takes a gate
  (Intel SDM, vol. 3, 6.14), the assembly stubs of \<^verbatim>\<open>arch/x86_64/interrupt.asm\<close> as programs of a small
  machine, and the structure \<^verbatim>\<open>struct regs\<close> the C handler finds at the address it is given.
\<close>

section \<open>The machine\<close>

datatype reg = RAX | RCX | RDX | RBX | RSP | RBP | RSI | RDI | R8 | R9 | R10 | R11 | R12 | R13 | R14 | R15

record cpu =
  gpr :: "reg \<Rightarrow> u64"
  cpu_rip :: u64
  cpu_rflags :: u64
  sel_cs :: u16
  sel_ss :: u16
  sel_ds :: u16
  sel_es :: u16
  cpu_mem :: mem

datatype instr =
  Push_imm u64
| Push_reg reg
| Pop_reg reg
| Mov_rax_ds
| Mov_ax_imm u16
| Mov_ds_ax
| Mov_es_ax
| Mov_reg reg reg
| Add_imm reg u64
| Cld
| Iretq

definition set_gpr :: "reg \<Rightarrow> u64 \<Rightarrow> cpu \<Rightarrow> cpu" where
  "set_gpr r v c = c\<lparr>gpr := (gpr c)(r := v)\<rparr>"

definition push :: "u64 \<Rightarrow> cpu \<Rightarrow> cpu" where
  "push w c = c\<lparr>gpr := (gpr c)(RSP := gpr c RSP - 8), cpu_mem := store64 (gpr c RSP - 8) w (cpu_mem c)\<rparr>"

definition top_word :: "cpu \<Rightarrow> u64" where
  "top_word c = load64 (cpu_mem c) (gpr c RSP)"

definition drop_top :: "cpu \<Rightarrow> cpu" where
  "drop_top c = set_gpr RSP (gpr c RSP + 8) c"

text \<open>A return from an interrupt in 64-bit mode takes five words: \<^verbatim>\<open>RIP\<close>, \<^verbatim>\<open>CS\<close>, \<^verbatim>\<open>RFLAGS\<close>, \<^verbatim>\<open>RSP\<close>, \<^verbatim>\<open>SS\<close>.\<close>

definition iretq :: "cpu \<Rightarrow> cpu" where
  "iretq c = (let a = gpr c RSP; m = cpu_mem c in
     c\<lparr>cpu_rip := load64 m a, sel_cs := ucast (load64 m (a + 8)), cpu_rflags := load64 m (a + 16),
       gpr := (gpr c)(RSP := load64 m (a + 24)), sel_ss := ucast (load64 m (a + 32))\<rparr>)"

fun step_instr :: "instr \<Rightarrow> cpu \<Rightarrow> cpu" where
  "step_instr (Push_imm w) c = push w c"
| "step_instr (Push_reg r) c = push (gpr c r) c"
| "step_instr (Pop_reg r) c = set_gpr r (top_word c) (drop_top c)"
| "step_instr Mov_rax_ds c = set_gpr RAX (ucast (sel_ds c)) c"
| "step_instr (Mov_ax_imm w) c = set_gpr RAX (gpr c RAX AND NOT 0xFFFF OR ucast w) c"
| "step_instr Mov_ds_ax c = c\<lparr>sel_ds := ucast (gpr c RAX)\<rparr>"
| "step_instr Mov_es_ax c = c\<lparr>sel_es := ucast (gpr c RAX)\<rparr>"
| "step_instr (Mov_reg r q) c = set_gpr r (gpr c q) c"
| "step_instr (Add_imm r w) c = set_gpr r (gpr c r + w) c"
| "step_instr Cld c = c\<lparr>cpu_rflags := cpu_rflags c AND NOT 0x400\<rparr>"
| "step_instr Iretq c = iretq c"

definition exec :: "instr list \<Rightarrow> cpu \<Rightarrow> cpu" where
  "exec is c = fold step_instr is c"

section \<open>The code\<close>

text \<open>The stubs \<^verbatim>\<open>isr0\<close> to \<^verbatim>\<open>isr31\<close>, each followed by a jump to the common code.\<close>

definition isr_stub :: "nat \<Rightarrow> instr list" where
  "isr_stub v = (if v \<in> {8, 10, 11, 12, 13, 14} then [Push_imm (of_nat v)]
     else [Push_imm 0, Push_imm (of_nat v)])"

definition exception_common_entry :: "instr list" where
  "exception_common_entry =
     map Push_reg [RAX, RCX, RDX, RBX, RBP, RSI, RDI, R8, R9, R10, R11, R12, R13, R14, R15]
     @ [Mov_rax_ds, Push_reg RAX, Mov_ax_imm 0x10, Mov_ds_ax, Mov_es_ax, Mov_reg RDI RSP, Cld]"

definition exception_common_exit :: "instr list" where
  "exception_common_exit =
     [Pop_reg RAX, Mov_ds_ax, Mov_es_ax]
     @ map Pop_reg [R15, R14, R13, R12, R11, R10, R9, R8, RDI, RSI, RBP, RBX, RDX, RCX, RAX]
     @ [Add_imm RSP 16, Iretq]"

text \<open>\<^verbatim>\<open>struct regs\<close> in memory.\<close>

definition read_regs :: "mem \<Rightarrow> u64 \<Rightarrow> regs" where
  "read_regs m a =
     \<lparr>reg_ds = load64 m a, reg_r15 = load64 m (a + 8), reg_r14 = load64 m (a + 16),
      reg_r13 = load64 m (a + 24), reg_r12 = load64 m (a + 32), reg_r11 = load64 m (a + 40),
      reg_r10 = load64 m (a + 48), reg_r9 = load64 m (a + 56), reg_r8 = load64 m (a + 64),
      reg_rdi = load64 m (a + 72), reg_rsi = load64 m (a + 80), reg_rbp = load64 m (a + 88),
      reg_rbx = load64 m (a + 96), reg_rdx = load64 m (a + 104), reg_rcx = load64 m (a + 112),
      reg_rax = load64 m (a + 120), reg_intn = load64 m (a + 128), reg_errCode = load64 m (a + 136),
      reg_rip = load64 m (a + 144), reg_cs = load64 m (a + 152), reg_rflags = load64 m (a + 160),
      reg_rsp = load64 m (a + 168), reg_ss = load64 m (a + 176)\<rparr>"

text \<open>
  The processor takes an exception in ring 0 through a gate without a stack of its own: it aligns
  the stack, pushes the frame and, for some vectors, an error code; an interrupt gate clears
  the interrupt flag (bit 9), every gate the flags \<^verbatim>\<open>TF\<close>, \<^verbatim>\<open>NT\<close>, \<^verbatim>\<open>RF\<close> and \<^verbatim>\<open>VM\<close> (bits 8, 14, 16 and 17).
\<close>

definition pushes_error_code :: "nat \<Rightarrow> bool" where
  "pushes_error_code v \<longleftrightarrow> v \<in> {8, 10, 11, 12, 13, 14, 17, 21, 29, 30}"

definition deliver :: "gate \<Rightarrow> nat \<Rightarrow> u64 \<Rightarrow> cpu \<Rightarrow> cpu" where
  "deliver g v err c =
     (let sp = gpr c RSP;
          c1 = set_gpr RSP (sp AND NOT 0xF) c;
          c2 = fold push [ucast (sel_ss c), sp, cpu_rflags c, ucast (sel_cs c), cpu_rip c] c1;
          c3 = (if pushes_error_code v then push err c2 else c2)
      in c3\<lparr>cpu_rip := gate_handler g, sel_cs := ucast (gate_selector g),
            cpu_rflags := cpu_rflags c AND NOT 0x34100 AND (if gate_kind g AND 0xF = 0xE then NOT 0x200 else NOT 0)\<rparr>)"

text \<open>The state at the call of the handler, whose argument is in \<^verbatim>\<open>RDI\<close>.\<close>

definition exception_entry :: "gate \<Rightarrow> nat \<Rightarrow> u64 \<Rightarrow> cpu \<Rightarrow> cpu" where
  "exception_entry g v err c = exec (isr_stub v @ exception_common_entry) (deliver g v err c)"

section \<open>The stack\<close>

text \<open>The words from an address upwards.\<close>

primrec stack_words :: "mem \<Rightarrow> u64 \<Rightarrow> u64 list \<Rightarrow> bool" where
  "stack_words m a [] \<longleftrightarrow> True"
| "stack_words m a (w # ws) \<longleftrightarrow> load64 m a = w \<and> stack_words m (a + 8) ws"

lemma in_rng_next:
  assumes "in_rng (a + 8) (8 * n) x" and "8 * Suc n \<le> 2 ^ 64"
  shows "in_rng a (8 * Suc n) x"
proof -
  have "unat (x - a) = unat ((x - (a + 8)) + 8)" by (simp add: algebra_simps)
  also have "\<dots> \<le> unat (x - (a + 8)) + 8" using unat_plus_if_size [of "x - (a + 8)" 8] by (auto split: if_splits)
  finally show ?thesis using assms(1) unfolding in_rng_def by simp
qed

lemma stack_words_cong:
  "(\<And>x. in_rng a (8 * length ws) x \<Longrightarrow> m' x = m x) \<Longrightarrow> 8 * length ws \<le> 2 ^ 64
    \<Longrightarrow> stack_words m' a ws = stack_words m a ws"
proof (induction ws arbitrary: a)
  case Nil
  then show ?case by simp
next
  case (Cons w ws)
  have "load64 m' a = load64 m a"
    using Cons.prems(1) by (intro load64_cong) (simp add: in_rng_def)
  moreover have "stack_words m' (a + 8) ws = stack_words m (a + 8) ws"
    using Cons.prems in_rng_next [of a "length ws"] by (intro Cons.IH) simp_all
  ultimately show ?case by simp
qed

lemma in_rng_below:
  assumes "in_rng a (8 * n) x" and "8 * Suc n \<le> 2 ^ 64"
  shows "\<not> in_rng (a - 8) 8 x"
proof -
  have "unat (x - (a - 8)) = unat ((x - a) + 8)" by (simp add: algebra_simps)
  also have "\<dots> = unat (x - a) + 8"
    using assms unfolding in_rng_def by (subst unat_word_ariths(1)) simp
  finally show ?thesis by (simp add: in_rng_def)
qed

text \<open>A state whose stack holds the words \<open>ws\<close> on top.\<close>

definition on_stack :: "cpu \<Rightarrow> u64 list \<Rightarrow> bool" where
  "on_stack c ws \<longleftrightarrow> stack_words (cpu_mem c) (gpr c RSP) ws"

lemma on_stack_push:
  assumes "on_stack c ws" and "length ws < 1000"
  shows "on_stack (push w c) (w # ws)"
proof -
  let ?a = "gpr c RSP"
  have "stack_words (store64 (?a - 8) w (cpu_mem c)) ?a ws = stack_words (cpu_mem c) ?a ws"
    using assms(2) in_rng_below [of ?a "length ws"]
    by (intro stack_words_cong) (simp_all add: store64_apply_out)
  then show ?thesis using assms(1) by (simp add: on_stack_def push_def)
qed

lemma push_fields [simp]:
  "gpr (push w c) = (gpr c)(RSP := gpr c RSP - 8)" "cpu_rip (push w c) = cpu_rip c"
  "cpu_rflags (push w c) = cpu_rflags c" "sel_cs (push w c) = sel_cs c" "sel_ss (push w c) = sel_ss c"
  "sel_ds (push w c) = sel_ds c" "sel_es (push w c) = sel_es c"
  by (simp_all add: push_def)

lemma set_gpr_fields [simp]:
  "gpr (set_gpr r w c) = (gpr c)(r := w)" "cpu_rip (set_gpr r w c) = cpu_rip c"
  "cpu_rflags (set_gpr r w c) = cpu_rflags c" "sel_cs (set_gpr r w c) = sel_cs c"
  "sel_ss (set_gpr r w c) = sel_ss c" "sel_ds (set_gpr r w c) = sel_ds c"
  "sel_es (set_gpr r w c) = sel_es c" "cpu_mem (set_gpr r w c) = cpu_mem c"
  by (simp_all add: set_gpr_def)

lemma exec_simps [simp]:
  "exec [] c = c" "exec (i # is) c = exec is (step_instr i c)" "exec (is @ js) c = exec js (exec is c)"
  by (simp_all add: exec_def)

text \<open>A sequence of pushes of registers other than the stack pointer.\<close>

lemma exec_pushes:
  "RSP \<notin> set rs \<Longrightarrow> on_stack c ws \<Longrightarrow> length rs + length ws < 1000 \<Longrightarrow>
   (let c' = exec (map Push_reg rs) c in
     on_stack c' (rev (map (gpr c) rs) @ ws)
     \<and> gpr c' = (gpr c)(RSP := gpr c RSP - 8 * of_nat (length rs))
     \<and> cpu_rip c' = cpu_rip c \<and> cpu_rflags c' = cpu_rflags c \<and> sel_cs c' = sel_cs c \<and> sel_ss c' = sel_ss c
     \<and> sel_ds c' = sel_ds c \<and> sel_es c' = sel_es c)"
proof (induction rs arbitrary: c ws)
  case Nil
  then show ?case by simp
next
  case (Cons r rs)
  let ?c = "push (gpr c r) c"
  have s: "on_stack ?c (gpr c r # ws)" using Cons.prems by (intro on_stack_push) simp_all
  have e: "map (gpr ?c) rs = map (gpr c) rs" using Cons.prems(1) by auto
  show ?case using Cons.IH [OF _ s] Cons.prems(1,3) unfolding e Let_def
    by (simp add: algebra_simps)
qed

text \<open>Popping the words of the stack into registers.\<close>

lemma exec_pops:
  "distinct rs \<Longrightarrow> RSP \<notin> set rs \<Longrightarrow> on_stack c (map f rs @ ws) \<Longrightarrow>
   (let c' = exec (map Pop_reg rs) c in
     on_stack c' ws \<and> cpu_mem c' = cpu_mem c
     \<and> gpr c' = (\<lambda>r. if r = RSP then gpr c RSP + 8 * of_nat (length rs) else if r \<in> set rs then f r else gpr c r)
     \<and> cpu_rip c' = cpu_rip c \<and> cpu_rflags c' = cpu_rflags c \<and> sel_cs c' = sel_cs c \<and> sel_ss c' = sel_ss c
     \<and> sel_ds c' = sel_ds c \<and> sel_es c' = sel_es c)"
proof (induction rs arbitrary: c)
  case Nil
  then show ?case by auto
next
  case (Cons r rs)
  let ?c = "step_instr (Pop_reg r) c"
  have c: "gpr ?c = (gpr c)(RSP := gpr c RSP + 8, r := f r)" "cpu_mem ?c = cpu_mem c"
    using Cons.prems by (auto simp: on_stack_def top_word_def drop_top_def)
  have s: "on_stack ?c (map f rs @ ws)"
    using Cons.prems unfolding on_stack_def c by (auto simp: on_stack_def)
  have "cpu_rip ?c = cpu_rip c \<and> cpu_rflags ?c = cpu_rflags c \<and> sel_cs ?c = sel_cs c \<and> sel_ss ?c = sel_ss c
     \<and> sel_ds ?c = sel_ds c \<and> sel_es ?c = sel_es c" by (simp add: drop_top_def)
  then show ?case using Cons.IH [OF _ _ s] Cons.prems(1,2) c
    unfolding Let_def by (auto simp: algebra_simps simp del: step_instr.simps)
qed

section \<open>The frame\<close>

text \<open>The words on the stack at the call of the handler, from the lowest address up.\<close>

definition frame_words :: "nat \<Rightarrow> u64 \<Rightarrow> cpu \<Rightarrow> u64 list" where
  "frame_words v err c =
     ucast (sel_ds c) # rev (map (gpr c) [RAX, RCX, RDX, RBX, RBP, RSI, RDI, R8, R9, R10, R11, R12, R13, R14, R15])
     @ of_nat v # (if v \<in> {8, 10, 11, 12, 13, 14} then [] else [0])
     @ (if pushes_error_code v then [err] else [])
     @ [cpu_rip c, ucast (sel_cs c), cpu_rflags c, gpr c RSP, ucast (sel_ss c)]"

lemma deliver_stack:
  "on_stack (deliver g v err c) ((if pushes_error_code v then [err] else [])
     @ [cpu_rip c, ucast (sel_cs c), cpu_rflags c, gpr c RSP, ucast (sel_ss c)])"
  and deliver_fields:
  "cpu_rip (deliver g v err c) = gate_handler g" "sel_cs (deliver g v err c) = ucast (gate_selector g)"
  "sel_ds (deliver g v err c) = sel_ds c" "sel_ss (deliver g v err c) = sel_ss c"
  "r \<noteq> RSP \<Longrightarrow> gpr (deliver g v err c) r = gpr c r"
  "gate_kind g AND 0xF = 0xE \<Longrightarrow> \<not> bit (cpu_rflags (deliver g v err c)) 9"
proof -
  let ?c1 = "set_gpr RSP (gpr c RSP AND NOT 0xF) c"
  let ?ws = "[cpu_rip c, ucast (sel_cs c), cpu_rflags c, gpr c RSP, ucast (sel_ss c)]"
  let ?c2 = "fold push [ucast (sel_ss c), gpr c RSP, cpu_rflags c, ucast (sel_cs c), cpu_rip c] ?c1"
  have "on_stack ?c1 []" by (simp add: on_stack_def)
  then have s2: "on_stack ?c2 ?ws" by (auto intro!: on_stack_push)
  have s3: "on_stack (push err ?c2) (err # ?ws)" by (rule on_stack_push [OF s2]) simp
  show "on_stack (deliver g v err c) ((if pushes_error_code v then [err] else []) @ ?ws)"
    using s2 s3 by (simp add: deliver_def Let_def on_stack_def)
  show "cpu_rip (deliver g v err c) = gate_handler g" "sel_cs (deliver g v err c) = ucast (gate_selector g)"
    "sel_ds (deliver g v err c) = sel_ds c" "sel_ss (deliver g v err c) = sel_ss c"
    "r \<noteq> RSP \<Longrightarrow> gpr (deliver g v err c) r = gpr c r"
    by (simp_all add: deliver_def Let_def)
  show "\<not> bit (cpu_rflags (deliver g v err c)) 9" if "gate_kind g AND 0xF = 0xE"
    using that by (simp add: deliver_def Let_def bit_and_iff bit_not_iff bit_numeral_rec(1))
qed

lemma entry_state:
  "on_stack (exception_entry g v err c) (frame_words v err c)"
  "gpr (exception_entry g v err c) RDI = gpr (exception_entry g v err c) RSP"
  "sel_ds (exception_entry g v err c) = 0x10 \<and> sel_es (exception_entry g v err c) = 0x10"
  "\<not> bit (cpu_rflags (exception_entry g v err c)) 10"
proof -
  let ?d = "deliver g v err c"
  let ?hw = "(if pushes_error_code v then [err] else [])
     @ [cpu_rip c, ucast (sel_cs c), cpu_rflags c, gpr c RSP, ucast (sel_ss c)]"
  let ?st = "of_nat v # (if v \<in> {8, 10, 11, 12, 13, 14} then [] else [0]) @ ?hw"
  let ?rs = "[RAX, RCX, RDX, RBX, RBP, RSI, RDI, R8, R9, R10, R11, R12, R13, R14, R15]"
  define c1 where "c1 = exec (isr_stub v) ?d"
  define c2 where "c2 = exec (map Push_reg ?rs) c1"
  have hw: "on_stack ?d ?hw" "length ?hw < 999" using deliver_stack [of g v err c] by simp_all
  have s1: "on_stack c1 ?st"
  proof (cases "v \<in> {8, 10, 11, 12, 13, 14}")
    case True
    then have "c1 = push (of_nat v) ?d" "?st = of_nat v # ?hw"
      by (simp_all only: c1_def isr_stub_def if_True exec_simps step_instr.simps append.simps)
    then show ?thesis using on_stack_push [OF hw(1)] hw(2) by simp
  next
    case False
    then have "c1 = push (of_nat v) (push 0 ?d)" "?st = of_nat v # 0 # ?hw"
      by (simp_all only: c1_def isr_stub_def if_False exec_simps step_instr.simps append.simps)
    then show ?thesis using on_stack_push [OF on_stack_push [OF hw(1)]] hw(2) by simp
  qed
  have g1: "gpr c1 r = gpr c r" if "r \<noteq> RSP" for r
    using that deliver_fields(5) [OF that, of g v err c] by (simp add: c1_def isr_stub_def)
  have f1: "sel_ds c1 = sel_ds c" using deliver_fields(3) [of g v err c] by (simp add: c1_def isr_stub_def)
  have m: "map (gpr c1) ?rs = map (gpr c) ?rs" by (simp add: g1)
  have "RSP \<notin> set ?rs" "length ?rs + length ?st < 1000" by simp_all
  note p = exec_pushes [OF this(1) s1 this(2), folded c2_def, unfolded Let_def m]
  note s2 = conjunct1 [OF p]
  from p have "sel_ds c2 = sel_ds c1" by (elim conjE)
  then have ds: "sel_ds c2 = sel_ds c" using f1 by simp
  define c3 where "c3 = set_gpr RAX (ucast (sel_ds c2)) c2"
  have s3: "on_stack c3 (rev (map (gpr c) ?rs) @ ?st)" using s2 by (simp add: c3_def on_stack_def)
  have "on_stack (push (gpr c3 RAX) c3) (gpr c3 RAX # rev (map (gpr c) ?rs) @ ?st)"
    by (rule on_stack_push [OF s3]) simp
  then have s4: "on_stack (push (gpr c3 RAX) c3) (frame_words v err c)"
    by (simp add: frame_words_def c3_def ds)
  have e: "exception_entry g v err c =
      exec [Mov_ax_imm 0x10, Mov_ds_ax, Mov_es_ax, Mov_reg RDI RSP, Cld] (push (gpr c3 RAX) c3)"
    unfolding exception_entry_def exception_common_entry_def exec_simps(3) c1_def [symmetric] c2_def [symmetric]
    by (simp add: c3_def)
  have ax: "(ucast (w AND NOT 0xFFFF OR (ucast (0x10 :: u16) :: u64)) :: u16) = 0x10" for w :: u64
  proof -
    have low: "(0xFFFF :: u64) = mask 16" by (simp add: mask_eq_exp_minus_1)
    show ?thesis unfolding low
      by (rule bit_word_eqI) (auto simp: bit_and_iff bit_or_iff bit_not_iff bit_mask_iff bit_ucast_iff)
  qed
  show "on_stack (exception_entry g v err c) (frame_words v err c)"
    using s4 unfolding e by (simp add: on_stack_def)
  show "gpr (exception_entry g v err c) RDI = gpr (exception_entry g v err c) RSP"
    unfolding e by simp
  show "sel_ds (exception_entry g v err c) = 0x10 \<and> sel_es (exception_entry g v err c) = 0x10"
    unfolding e using ax by simp
  show "\<not> bit (cpu_rflags (exception_entry g v err c)) 10"
    unfolding e by (simp add: bit_and_iff bit_not_iff bit_numeral_rec(1))
qed

lemma entry_interrupts_off:
  assumes "gate_kind g AND 0xF = 0xE"
  shows "\<not> bit (cpu_rflags (exception_entry g v err c)) 9"
proof -
  have push: "cpu_rflags (exec (map Push_reg rs) c) = cpu_rflags c" for rs c
    by (induction rs arbitrary: c) simp_all
  have "cpu_rflags (exec (isr_stub v) (deliver g v err c)) = cpu_rflags (deliver g v err c)"
    by (simp add: isr_stub_def)
  then have "cpu_rflags (exception_entry g v err c) = cpu_rflags (deliver g v err c) AND NOT 0x400"
    unfolding exception_entry_def exception_common_entry_def exec_simps(3) by (simp add: push del: list.map)
  then show ?thesis using deliver_fields(6) [OF assms, of v err c] by (simp add: bit_and_iff)
qed

section \<open>What the handler sees\<close>

text \<open>The interrupted registers, as \<^verbatim>\<open>struct regs\<close> is meant to give them.\<close>

definition interrupted_regs :: "nat \<Rightarrow> u64 \<Rightarrow> cpu \<Rightarrow> regs" where
  "interrupted_regs v err c =
     \<lparr>reg_ds = ucast (sel_ds c), reg_r15 = gpr c R15, reg_r14 = gpr c R14, reg_r13 = gpr c R13,
      reg_r12 = gpr c R12, reg_r11 = gpr c R11, reg_r10 = gpr c R10, reg_r9 = gpr c R9, reg_r8 = gpr c R8,
      reg_rdi = gpr c RDI, reg_rsi = gpr c RSI, reg_rbp = gpr c RBP, reg_rbx = gpr c RBX,
      reg_rdx = gpr c RDX, reg_rcx = gpr c RCX, reg_rax = gpr c RAX, reg_intn = of_nat v,
      reg_errCode = (if pushes_error_code v then err else 0), reg_rip = cpu_rip c,
      reg_cs = ucast (sel_cs c), reg_rflags = cpu_rflags c, reg_rsp = gpr c RSP, reg_ss = ucast (sel_ss c)\<rparr>"

text \<open>The vectors for which both the processor and the stub push an error code.\<close>

definition double_error_code :: "nat \<Rightarrow> bool" where
  "double_error_code v \<longleftrightarrow> v \<in> {17, 21, 29, 30}"

definition shifted_regs :: "nat \<Rightarrow> u64 \<Rightarrow> cpu \<Rightarrow> regs" where
  "shifted_regs v err c = (interrupted_regs v err c)\<lparr>reg_errCode := 0, reg_rip := err, reg_cs := cpu_rip c,
     reg_rflags := ucast (sel_cs c), reg_rsp := cpu_rflags c, reg_ss := gpr c RSP\<rparr>"

lemma frame_regs:
  assumes "stack_words m a (frame_words v err c)"
  shows "read_regs m a = (if double_error_code v then shifted_regs v err c else interrupted_regs v err c)"
proof -
  consider "v \<in> {8, 10, 11, 12, 13, 14}" "pushes_error_code v" "\<not> double_error_code v"
    | "v \<notin> {8, 10, 11, 12, 13, 14}" "pushes_error_code v" "double_error_code v"
    | "v \<notin> {8, 10, 11, 12, 13, 14}" "\<not> pushes_error_code v" "\<not> double_error_code v"
  proof (cases "v \<in> {8, 10, 11, 12, 13, 14}")
    case True
    then have "pushes_error_code v \<and> \<not> double_error_code v"
      by (auto simp: pushes_error_code_def double_error_code_def)
    then show thesis using that(1) [OF True] by blast
  next
    case False
    then have "pushes_error_code v = double_error_code v"
      by (auto simp: pushes_error_code_def double_error_code_def)
    then show thesis using that(2,3) [OF False] by blast
  qed
  then show ?thesis
    using assms
    by cases (simp_all only: frame_words_def if_True if_False,
      simp_all add: read_regs_def interrupted_regs_def shifted_regs_def add.assoc)
qed

lemma entry_regs:
  "read_regs (cpu_mem (exception_entry g v err c)) (gpr (exception_entry g v err c) RDI)
    = (if double_error_code v then shifted_regs v err c else interrupted_regs v err c)"
  using frame_regs entry_state(1,2) [of g v err c] by (simp add: on_stack_def)

text \<open>C28: the handler sees the interrupted registers. When the processor takes exception \<open>v\<close> through
  its gate, the stub and the common code call the handler with data segments of the kernel, the
  direction flag clear and interrupts off, and the handler halts with a report of exactly the
  registers at the exception and the processor's error code. For the vectors 17, 21, 29 and 30,
  where the stub pushes a dummy on top of the processor's error code, the report is shifted by
  one word: the error code is printed as \<^verbatim>\<open>RIP\<close>, \<^verbatim>\<open>RIP\<close> as \<^verbatim>\<open>CS\<close>, and so on.\<close>

theorem exception_entry_reports:
  assumes "v < 32" and "gate_kind g = 0x8E"
  shows "let c' = exception_entry g v err c; r = read_regs (cpu_mem c') (gpr c' RDI) in
    sel_ds c' = 0x10 \<and> sel_es c' = 0x10 \<and> \<not> bit (cpu_rflags c') 9 \<and> \<not> bit (cpu_rflags c') 10
    \<and> r = (if double_error_code v then shifted_regs v err c else interrupted_regs v err c)
    \<and> arch_exception_handler k r s = Inl (Halted (con s @ exception_text k r))"
proof -
  let ?c = "exception_entry g v err c"
  have "unat (of_nat v :: u64) < 32" using assms(1) by (subst unat_of_nat_64) simp_all
  then have h: "arch_exception_handler k r s = Inl (Halted (con s @ exception_text k r))"
    if "r = (if double_error_code v then shifted_regs v err c else interrupted_regs v err c)" for r
    using that by (simp add: handler_report shifted_regs_def interrupted_regs_def)
  have "gate_kind g AND 0xF = 0xE" using assms(2) by simp
  then have "\<not> bit (cpu_rflags ?c) 9" by (rule entry_interrupts_off)
  then show ?thesis
    using entry_state(3,4) [of g v err c] h [OF entry_regs] unfolding Let_def entry_regs by blast
qed

theorem exception_entry_reports_witness:
  "\<exists>g c k s. gate_kind g = 0x8E \<and>
     (let c' = exception_entry g 14 2 c; r = read_regs (cpu_mem c') (gpr c' RDI) in
       reg_rip r = 0xffffffff80000042 \<and> reg_errCode r = 2 \<and> reg_rdx r = 7
       \<and> (arch_exception_handler k r s :: kerror + kstate) = Inl (Halted (con s @ exception_text k r)))
     \<and> reg_cs (read_regs (cpu_mem (exception_entry g 17 0 c)) (gpr (exception_entry g 17 0 c) RDI)) = 0xffffffff80000042"
proof -
  define g where "g = \<lparr>gate_handler = 0, gate_selector = 8, gate_ist = 0, gate_kind = 0x8E\<rparr>"
  define c where "c = \<lparr>gpr = (\<lambda>r. if r = RDX then 7 else 0xffff800000200000), cpu_rip = 0xffffffff80000042,
     cpu_rflags = 0x202, sel_cs = 8, sel_ss = 0x10, sel_ds = 0x10, sel_es = 0x10, cpu_mem = (\<lambda>_. 0)\<rparr>"
  have lt: "(14 :: nat) < 32" "(17 :: nat) < 32" and g: "gate_kind g = 0x8E" by (simp_all add: g_def)
  have d: "\<not> double_error_code 14" "double_error_code 17" "pushes_error_code 14"
    by (simp_all add: double_error_code_def pushes_error_code_def)
  define k where "k = \<lparr>cr0_val = 0x80010011, cr2_val = 0x1000, cr3_val = 0x200000, cr4_val = 0x20\<rparr>"
  note report = exception_entry_reports [where 'a = kstate, unfolded Let_def,
      THEN conjunct2, THEN conjunct2, THEN conjunct2, THEN conjunct2]
  note a = report [OF lt(1) g, of 2 c k example_pmm, THEN conjunct1, unfolded if_not_P [OF d(1)]]
    and h = report [OF lt(1) g, of 2 c k example_pmm, THEN conjunct2]
    and b = report [OF lt(2) g, of 0 c k example_pmm, THEN conjunct1, unfolded if_P [OF d(2)]]
  have "reg_rip (interrupted_regs 14 2 c) = 0xffffffff80000042" "reg_errCode (interrupted_regs 14 2 c) = 2"
    "reg_rdx (interrupted_regs 14 2 c) = 7" "reg_cs (shifted_regs 17 0 c) = 0xffffffff80000042"
    by (simp_all add: interrupted_regs_def shifted_regs_def d(3) c_def)
  then show ?thesis
    unfolding Let_def
    by (intro exI [of _ g] exI [of _ c] exI [of _ k] exI [of _ example_pmm]) (simp only: a b g h [unfolded a] simp_thms)
qed

section \<open>The way back\<close>

lemma regs_frame:
  assumes "\<not> double_error_code v" and "read_regs m a = interrupted_regs v err c"
  shows "stack_words m a (frame_words v err c)"
proof -
  consider "v \<in> {8, 10, 11, 12, 13, 14}" "pushes_error_code v"
    | "v \<notin> {8, 10, 11, 12, 13, 14}" "\<not> pushes_error_code v"
    using assms(1) unfolding pushes_error_code_def double_error_code_def by blast
  then show ?thesis
    using assms(2)
    by cases (simp_all only: frame_words_def if_True if_False,
      simp_all add: read_regs_def interrupted_regs_def add.assoc)
qed

definition pop_order :: "reg list" where
  "pop_order = [R15, R14, R13, R12, R11, R10, R9, R8, RDI, RSI, RBP, RBX, RDX, RCX, RAX]"

definition errcode_word :: "nat \<Rightarrow> u64 \<Rightarrow> u64" where
  "errcode_word v err = (if pushes_error_code v then err else 0)"

lemma frame_words_good:
  assumes "\<not> double_error_code v"
  shows "frame_words v err c = ucast (sel_ds c) # map (gpr c) pop_order @ of_nat v # errcode_word v err
     # [cpu_rip c, ucast (sel_cs c), cpu_rflags c, gpr c RSP, ucast (sel_ss c)]"
proof -
  consider "v \<in> {8, 10, 11, 12, 13, 14}" "pushes_error_code v"
    | "v \<notin> {8, 10, 11, 12, 13, 14}" "\<not> pushes_error_code v"
    using assms unfolding pushes_error_code_def double_error_code_def by blast
  then show ?thesis
    by cases (simp_all only: frame_words_def errcode_word_def if_True if_False, simp_all add: pop_order_def)
qed

lemma selector_word: "(ucast (ucast w :: u64) :: u16) = w" for w :: u16
  by (rule bit_word_eqI) (simp add: bit_ucast_iff)

lemma exit_restores:
  assumes "on_stack c1 (ucast (sel_ds c) # map (gpr c) pop_order @ w # e
     # [cpu_rip c, ucast (sel_cs c), cpu_rflags c, gpr c RSP, ucast (sel_ss c)])"
  shows "let c2 = exec exception_common_exit c1 in
    gpr c2 = gpr c \<and> cpu_rip c2 = cpu_rip c \<and> cpu_rflags c2 = cpu_rflags c \<and> sel_cs c2 = sel_cs c
    \<and> sel_ss c2 = sel_ss c \<and> sel_ds c2 = sel_ds c \<and> sel_es c2 = sel_ds c"
proof -
  let ?hw = "[cpu_rip c, ucast (sel_cs c), cpu_rflags c, gpr c RSP, ucast (sel_ss c)]"
  define c2 where "c2 = exec [Pop_reg RAX, Mov_ds_ax, Mov_es_ax] c1"
  have "on_stack c2 (map (gpr c) pop_order @ w # e # ?hw)" and ds: "sel_ds c2 = sel_ds c" "sel_es c2 = sel_ds c"
    using assms by (simp_all add: c2_def on_stack_def drop_top_def top_word_def selector_word)
  moreover have "distinct pop_order" "RSP \<notin> set pop_order" by (simp_all add: pop_order_def)
  moreover define c3 where "c3 = exec (map Pop_reg pop_order) c2"
  ultimately have p: "on_stack c3 (w # e # ?hw) \<and> cpu_mem c3 = cpu_mem c2
     \<and> gpr c3 = (\<lambda>r. if r = RSP then gpr c2 RSP + 8 * of_nat (length pop_order)
          else if r \<in> set pop_order then gpr c r else gpr c2 r)
     \<and> cpu_rip c3 = cpu_rip c2 \<and> cpu_rflags c3 = cpu_rflags c2 \<and> sel_cs c3 = sel_cs c2 \<and> sel_ss c3 = sel_ss c2
     \<and> sel_ds c3 = sel_ds c2 \<and> sel_es c3 = sel_es c2"
    using exec_pops [of pop_order c2 "gpr c"] unfolding Let_def by blast
  have e: "exec exception_common_exit c1 = iretq (set_gpr RSP (gpr c3 RSP + 16) c3)"
    unfolding exception_common_exit_def exec_simps(3) c2_def [symmetric] pop_order_def [symmetric] c3_def [symmetric]
    by simp
  have stack: "stack_words (cpu_mem c3) (gpr c3 RSP + 16) ?hw"
    using conjunct1 [OF p] by (simp add: on_stack_def add.assoc)
  have r: "r = RSP \<or> r \<in> set pop_order" for r by (cases r) (simp_all add: pop_order_def)
  have ds3: "sel_ds c3 = sel_ds c" "sel_es c3 = sel_ds c" using p ds by simp_all
  have "(gpr c3)(RSP := gpr c RSP) = gpr c"
  proof
    fix x
    show "((gpr c3)(RSP := gpr c RSP)) x = gpr c x" using p r [of x] by auto
  qed
  then show ?thesis
    using stack ds3 unfolding e Let_def by (simp add: iretq_def add.assoc Let_def selector_word)
qed

text \<open>C29: round trip. If the handler returned, with \<^verbatim>\<open>struct regs\<close> and the stack pointer as it found
  them, the common code would resume the interrupted program: every register, the stack pointer,
  the flags and the segments have their values again (\<^verbatim>\<open>ES\<close> gets the value of \<^verbatim>\<open>DS\<close>), for the
  vectors whose stubs agree with the processor about the error code.\<close>

theorem exception_return_restores:
  assumes "\<not> double_error_code v"
    and "gpr c1 RSP = gpr (exception_entry g v err c) RSP"
    and "read_regs (cpu_mem c1) (gpr c1 RSP)
      = read_regs (cpu_mem (exception_entry g v err c)) (gpr (exception_entry g v err c) RDI)"
  shows "let c2 = exec exception_common_exit c1 in
    gpr c2 = gpr c \<and> cpu_rip c2 = cpu_rip c \<and> cpu_rflags c2 = cpu_rflags c \<and> sel_cs c2 = sel_cs c
    \<and> sel_ss c2 = sel_ss c \<and> sel_ds c2 = sel_ds c \<and> sel_es c2 = sel_ds c"
proof -
  have "read_regs (cpu_mem c1) (gpr c1 RSP) = interrupted_regs v err c"
    using assms(1,3) entry_regs [of g v err c] by simp
  then have "stack_words (cpu_mem c1) (gpr c1 RSP) (frame_words v err c)"
    using assms(1) by (intro regs_frame)
  then have "on_stack c1 (ucast (sel_ds c) # map (gpr c) pop_order @ of_nat v # errcode_word v err
     # [cpu_rip c, ucast (sel_cs c), cpu_rflags c, gpr c RSP, ucast (sel_ss c)])"
    using assms(1) by (simp add: on_stack_def frame_words_good)
  then show ?thesis by (rule exit_restores)
qed

theorem exception_return_restores_witness:
  "\<exists>g v err c c2. gpr c RDX = 7 \<and> cpu_rip c = 0xffffffff80000042
     \<and> c2 = exec exception_common_exit (exception_entry g v err c)
     \<and> gpr c2 RDX = 7 \<and> cpu_rip c2 = 0xffffffff80000042"
proof -
  define c where "c = \<lparr>gpr = (\<lambda>r. if r = RDX then 7 else 0xffff800000200000), cpu_rip = 0xffffffff80000042,
     cpu_rflags = 0x202, sel_cs = 8, sel_ss = 0x10, sel_ds = 0x10, sel_es = 0x10, cpu_mem = (\<lambda>_. 0)\<rparr>"
  define g where "g = \<lparr>gate_handler = 0, gate_selector = 8, gate_ist = 0, gate_kind = 0x8E\<rparr>"
  have d: "\<not> double_error_code 14" by (simp add: double_error_code_def)
  have "read_regs (cpu_mem (exception_entry g 14 2 c)) (gpr (exception_entry g 14 2 c) RSP)
      = read_regs (cpu_mem (exception_entry g 14 2 c)) (gpr (exception_entry g 14 2 c) RDI)"
    by (simp add: entry_state(2))
  note r = exception_return_restores [OF d refl this, unfolded Let_def]
  have "gpr c RDX = 7" "cpu_rip c = 0xffffffff80000042" by (simp_all add: c_def)
  moreover have "gpr (exec exception_common_exit (exception_entry g 14 2 c)) RDX = 7"
    "cpu_rip (exec exception_common_exit (exception_entry g 14 2 c)) = 0xffffffff80000042"
    using r calculation by simp_all
  ultimately show ?thesis by blast
qed

end
