(* ===== verification/Kernel.thy ===== *)
theory Kernel
  imports Vmm_Spec Heap_Props Descriptors Exceptions Serial
begin

text \<open>
  The entry point \<^verbatim>\<open>_start\<close> of \<^verbatim>\<open>symphony/kernel.c\<close>, composed of the other components: the
  state of the kernel, the machine with its descriptor tables, and the port accesses of the
  serial driver.
\<close>

section \<open>Start\<close>

definition KERNEL_VER_STRING :: string where "KERNEL_VER_STRING = ''v0.0.0''"

definition kprintf :: "string \<Rightarrow> vaarg list \<Rightarrow> kstate \<Rightarrow> kerror + kstate" where
  "kprintf fmt as s =
     (case debug_printf fmt as of
        Inl e \<Rightarrow> Inl (Undefined e)
      | Inr (out, _) \<Rightarrow> Inr (s\<lparr>con := con s @ out\<rparr>))"

definition kprint :: "string \<Rightarrow> kstate \<Rightarrow> kstate" where
  "kprint str s = s\<lparr>con := con s @ fst (debug_print str)\<rparr>"

definition print_firmware :: "limine \<Rightarrow> kstate \<Rightarrow> kstate" where
  "print_firmware L s =
     (let fw = boot_proto_firmware_type L in
      if fw = BOOT_PROTO_FW_X86BIOS then kprint ''x86 BIOS\<newline>'' s
      else if fw = BOOT_PROTO_FW_UEFI32 then kprint ''32-bit UEFI\<newline>'' s
      else if fw = BOOT_PROTO_FW_UEFI64 then kprint ''64-bit UEFI\<newline>'' s
      else kprint ''Unknown firmware\<newline>'' s)"

definition print_memmap_entry :: "limine \<Rightarrow> u64 \<Rightarrow> kstate \<Rightarrow> kerror + kstate" where
  "print_memmap_entry L i s =
     bindE (boot_proto_memmap_entry_get L i s) (\<lambda>(entry, s).
       klog LOGLEVEL_INFO ''memmap entry: %#llx->%#llx %s\<newline>''
         [VaLong (entry_base entry), VaLong (entry_base entry + entry_length entry),
          VaStr (Some (boot_proto_memmap_type_to_str (entry_type entry)))] s)"

definition print_boot_info :: "limine \<Rightarrow> kstate \<Rightarrow> kerror + kstate" where
  "print_boot_info L s =
     bindE (klog LOGLEVEL_INFO ''Fetching Limine-compliant bootloader info...\<newline>'' [] s) (\<lambda>s.
     bindE (klog LOGLEVEL_INFO ''Bootloader name: %s\<newline>'' [VaStr (boot_proto_bl_name L)] s) (\<lambda>s.
     bindE (klog LOGLEVEL_INFO ''Bootloader version: %s\<newline>'' [VaStr (boot_proto_bl_version L)] s) (\<lambda>s.
     bindE (klog LOGLEVEL_INFO ''Finished fetching bootloader info.\<newline>'' [] s) (\<lambda>s.
     bindE (klog LOGLEVEL_INFO ''System firmware: '' [] s) (\<lambda>s.
     let s = print_firmware L s in
     bindE (klog LOGLEVEL_INFO ''HHDM offset: %#llx\<newline>'' [VaLong (boot_proto_hhdm_offset L)] s) (\<lambda>s.
     bindE (klog LOGLEVEL_INFO ''Kernel physical base: %#llx\<newline>'' [VaLong (boot_proto_kernel_physical_base L)] s) (\<lambda>s.
     bindE (klog LOGLEVEL_INFO ''Kernel virtual base: %#llx\<newline>'' [VaLong (boot_proto_kernel_virtual_base L)] s) (\<lambda>s.
     forE 0 (boot_proto_memmap_entry_count L) (print_memmap_entry L) s))))))))"

text \<open>
  A stage that returns a status: a panic when it is not 0. The result \<^term>\<open>Inr\<close> says that the
  kernel reached its last statement, \<^verbatim>\<open>arch_halt\<close>, in that state.
\<close>

definition stage :: "cint \<Rightarrow> string \<Rightarrow> kstate \<Rightarrow> kerror + kstate" where
  "stage status message s = (if status \<noteq> 0 then kpanic message [] s else Inr s)"

definition kernel_start ::
    "limine \<Rightarrow> image \<Rightarrow> machine \<Rightarrow> io_event list \<Rightarrow> kstate \<Rightarrow> kerror + (machine \<times> io_event list \<times> kstate)" where
  "kernel_start L img m t s =
     bindE (arch_init_very_early img 0 m) (\<lambda>(status, m).
     if status \<noteq> 0 then Inl (Halted (con s)) else
     let (_, t) = serial_init t in
     bindE (kprintf (''Symphony '' @ KERNEL_VER_STRING @ '' is starting...\<newline>'') [] s) (\<lambda>s.
     bindE (if \<not> boot_proto_bl_supported L then kpanic ''Bootloader not supported!\<newline>'' [] s else Inr s) (\<lambda>s.
     bindE (print_boot_info L s) (\<lambda>s.
     bindE (pmm_init L s) (\<lambda>(status, s).
     bindE (stage status ''PMM initialization failed!\<newline>'' s) (\<lambda>s.
     let (status, m) = arch_init_early img 0 m in
     bindE (stage status ''Early arch initialization failed!\<newline>'' s) (\<lambda>s.
     bindE (vmm_init L s) (\<lambda>(status, s).
     bindE (stage status ''VMM initialization failed!\<newline>'' s) (\<lambda>s.
     bindE (kheap_init L s) (\<lambda>(status, s).
     bindE (stage status ''Kernel heap initialization failed\<newline>'' s) (\<lambda>s.
     let (status, m) = arch_init_late 0 m in
     bindE (stage status ''Late arch initialization failed!\<newline>'' s) (\<lambda>s.
     bindE (klog LOGLEVEL_INFO ''Init done\<newline>'' [] s) (\<lambda>s.
     Inr (m, t, s))))))))))))))"

section \<open>What the start prints\<close>

lemma klog_render:
  assumes "\<forall>d \<in> set ds. directive_ok d" and "fmt = concat (map show_directive ds)" and "render ds as = Inr (out, n)"
  shows "klog level fmt as s = Inr (s\<lparr>con := con s @ log_prefix level @ out\<rparr>)"
proof -
  have "debug_vprintf fmt as = Inr (out, n)"
    using vprintf_loop_render [OF assms(1), of "[]" as "[]" 0] assms(2,3) by (simp add: debug_vprintf_def)
  then show ?thesis by (simp add: klog_def debug_log_def)
qed

definition c_str :: "string option \<Rightarrow> string" where
  "c_str p = (case p of None \<Rightarrow> ''(null)'' | Some str \<Rightarrow> str)"

lemma render_c_str:
  "render (Conv [] 0 [] (CHR ''s'') # ds) (VaStr p # as) =
     bindE (render ds as) (\<lambda>(out, n). Inr (c_str p @ out, of_nat (length (c_str p)) + n))"
  by (simp add: get_value_def print_value_def debug_print_def c_str_def split: option.splits)

lemma klog_str:
  assumes "CHR ''%'' \<notin> set pre"
  shows "klog level (pre @ ''%s\<newline>'') [VaStr p] s = Inr (s\<lparr>con := con s @ log_prefix level @ pre @ c_str p @ ''\<newline>''\<rparr>)"
proof (rule klog_render)
  show "\<forall>d \<in> set (lits pre @ [Conv [] 0 [] (CHR ''s''), Lit (CHR ''\<newline>'')]). directive_ok d"
    using lits_ok [OF assms] by auto
  show "pre @ ''%s\<newline>'' = concat (map show_directive (lits pre @ [Conv [] 0 [] (CHR ''s''), Lit (CHR ''\<newline>'')]))"
    by (simp add: show_lits)
  show "render (lits pre @ [Conv [] 0 [] (CHR ''s''), Lit (CHR ''\<newline>'')]) [VaStr p] =
      Inr (pre @ c_str p @ ''\<newline>'', of_nat (length pre) + (of_nat (length (c_str p)) + 1))"
    unfolding render_lits render_c_str by simp
qed

lemma klog_hex:
  assumes "CHR ''%'' \<notin> set pre"
  shows "klog level (pre @ ''%#llx\<newline>'') [VaLong w] s = Inr (s\<lparr>con := con s @ log_prefix level @ pre @ hex w @ ''\<newline>''\<rparr>)"
proof (rule klog_render)
  let ?ds = "lits pre @ [Conv ''#'' 0 ''ll'' (CHR ''x''), Lit (CHR ''\<newline>'')]"
  show "\<forall>d \<in> set ?ds. directive_ok d" using lits_ok [OF assms] by auto
  show "pre @ ''%#llx\<newline>'' = concat (map show_directive ?ds)" by (simp add: show_lits)
  show "render ?ds [VaLong w] = Inr (pre @ hex w @ ''\<newline>'', of_nat (length pre) + (of_nat (length (hex w) - 2) + 1))"
    unfolding render_lits render_hex by simp
qed

definition entry_line :: "boot_proto_memmap_entry \<Rightarrow> string" where
  "entry_line e = ''[ INFO  ] memmap entry: '' @ hex (entry_base e) @ ''->'' @ hex (entry_base e + entry_length e) @ '' ''
     @ boot_proto_memmap_type_to_str (entry_type e) @ ''\<newline>''"

lemma print_entry:
  assumes "i < boot_proto_memmap_entry_count L"
  shows "print_memmap_entry L i s = Inr (s\<lparr>con := con s @ entry_line (memmap_entry L (unat i))\<rparr>)"
proof -
  let ?h = "Conv ''#'' 0 ''ll'' (CHR ''x'')" and ?e = "memmap_entry L (unat i)"
  let ?ds = "lits ''memmap entry: '' @ ?h # lits ''->'' @ ?h # lits '' '' @ Conv [] 0 [] (CHR ''s'') # lits ''\<newline>'' @ []"
  have "\<forall>d \<in> set ?ds. directive_ok d" by (auto dest: lits_ok [rule_format, rotated])
  moreover have "''memmap entry: %#llx->%#llx %s\<newline>'' = concat (map show_directive ?ds)" by (simp add: show_lits)
  moreover have "\<exists>n. render ?ds [VaLong a, VaLong b, VaStr (Some str)] =
      Inr (''memmap entry: '' @ hex a @ ''->'' @ hex b @ '' '' @ str @ ''\<newline>'', n)" for a b str
    unfolding render_lits render_hex render_c_str by (simp add: c_str_def)
  ultimately have "klog LOGLEVEL_INFO ''memmap entry: %#llx->%#llx %s\<newline>'' [VaLong a, VaLong b, VaStr (Some str)] s =
      Inr (s\<lparr>con := con s @ log_prefix LOGLEVEL_INFO @ ''memmap entry: '' @ hex a @ ''->'' @ hex b @ '' '' @ str @ ''\<newline>''\<rparr>)"
    for a b str s
    using klog_render [of ?ds] by blast
  then show ?thesis
    using assms by (simp add: print_memmap_entry_def memmap_entry_get entry_line_def)
qed


lemma print_entries:
  assumes "entry_count L < 2 ^ 64"
  shows "forE 0 (boot_proto_memmap_entry_count L) (print_memmap_entry L) s =
    Inr (s\<lparr>con := con s @ concat (map (\<lambda>i. entry_line (memmap_entry L i)) [0..<entry_count L])\<rparr>)"
proof -
  let ?line = "\<lambda>i. entry_line (memmap_entry L i)" and ?n = "boot_proto_memmap_entry_count L"
  have "\<exists>s'. forE 0 ?n (print_memmap_entry L) s = Inr s' \<and> s' = s\<lparr>con := con s @ concat (map ?line [0..<unat ?n])\<rparr>"
    by (rule forE_total_rule [where P = "\<lambda>k s'. s' = s\<lparr>con := con s @ concat (map ?line [0..<k])\<rparr>"])
      (simp_all add: print_entry)
  then show ?thesis by (simp add: unat_entry_count [OF assms])
qed

definition firmware_name :: "limine \<Rightarrow> string" where
  "firmware_name L =
     (if lim_firmware_type L = LIMINE_FIRMWARE_TYPE_X86BIOS L then ''x86 BIOS''
      else if lim_firmware_type L = LIMINE_FIRMWARE_TYPE_UEFI32 L then ''32-bit UEFI''
      else ''64-bit UEFI'')"

lemma print_firmware_text: "print_firmware L s = s\<lparr>con := con s @ firmware_name L @ ''\<newline>''\<rparr>"
  by (auto simp: print_firmware_def firmware_name_def boot_proto_firmware_type_def kprint_def debug_print_def Let_def
      BOOT_PROTO_FW_X86BIOS_def BOOT_PROTO_FW_UEFI32_def BOOT_PROTO_FW_UEFI64_def)

definition boot_info_text :: "limine \<Rightarrow> string" where
  "boot_info_text L =
     ''[ INFO  ] Fetching Limine-compliant bootloader info...\<newline>''
     @ ''[ INFO  ] Bootloader name: '' @ c_str (lim_name L) @ ''\<newline>''
     @ ''[ INFO  ] Bootloader version: '' @ c_str (lim_version L) @ ''\<newline>''
     @ ''[ INFO  ] Finished fetching bootloader info.\<newline>''
     @ ''[ INFO  ] System firmware: '' @ firmware_name L @ ''\<newline>''
     @ ''[ INFO  ] HHDM offset: '' @ hex (lim_hhdm_offset L) @ ''\<newline>''
     @ ''[ INFO  ] Kernel physical base: '' @ hex (lim_physical_base L) @ ''\<newline>''
     @ ''[ INFO  ] Kernel virtual base: '' @ hex (lim_virtual_base L) @ ''\<newline>''
     @ concat (map (\<lambda>i. entry_line (memmap_entry L i)) [0..<entry_count L])"

lemma print_boot_info_text:
  assumes "entry_count L < 2 ^ 64"
  shows "print_boot_info L s = Inr (s\<lparr>con := con s @ boot_info_text L\<rparr>)"
proof -
  have str: "klog LOGLEVEL_INFO ''Bootloader name: %s\<newline>'' [VaStr p] s =
        Inr (s\<lparr>con := con s @ ''[ INFO  ] Bootloader name: '' @ c_str p @ ''\<newline>''\<rparr>)"
      "klog LOGLEVEL_INFO ''Bootloader version: %s\<newline>'' [VaStr p] s =
        Inr (s\<lparr>con := con s @ ''[ INFO  ] Bootloader version: '' @ c_str p @ ''\<newline>''\<rparr>)" for p s
    using klog_str [of "''Bootloader name: ''" LOGLEVEL_INFO p s] klog_str [of "''Bootloader version: ''" LOGLEVEL_INFO p s]
    by simp_all
  have num: "klog LOGLEVEL_INFO ''HHDM offset: %#llx\<newline>'' [VaLong w] s =
        Inr (s\<lparr>con := con s @ ''[ INFO  ] HHDM offset: '' @ hex w @ ''\<newline>''\<rparr>)"
      "klog LOGLEVEL_INFO ''Kernel physical base: %#llx\<newline>'' [VaLong w] s =
        Inr (s\<lparr>con := con s @ ''[ INFO  ] Kernel physical base: '' @ hex w @ ''\<newline>''\<rparr>)"
      "klog LOGLEVEL_INFO ''Kernel virtual base: %#llx\<newline>'' [VaLong w] s =
        Inr (s\<lparr>con := con s @ ''[ INFO  ] Kernel virtual base: '' @ hex w @ ''\<newline>''\<rparr>)" for w s
    using klog_hex [of "''HHDM offset: ''" LOGLEVEL_INFO w s] klog_hex [of "''Kernel physical base: ''" LOGLEVEL_INFO w s]
      klog_hex [of "''Kernel virtual base: ''" LOGLEVEL_INFO w s] by simp_all
  show ?thesis
    by (simp add: print_boot_info_def klog_literal str num print_firmware_text print_entries [OF assms] boot_info_text_def
        boot_proto_bl_name_def boot_proto_bl_version_def boot_proto_hhdm_offset_def boot_proto_kernel_physical_base_def
        boot_proto_kernel_virtual_base_def Let_def)
qed

section \<open>The start\<close>

text \<open>Many disjoint runs of pages: after a few pages have gone, one run is still whole.\<close>

lemma run_remains:
  assumes F: "F' \<subseteq> F" "finite F" "card F \<le> card F' + d" and B: "d < card B"
    and runs: "\<And>b. b \<in> B \<Longrightarrow> {b..<b + 16} \<subseteq> F"
    and apart: "\<And>b c. b \<in> B \<Longrightarrow> c \<in> B \<Longrightarrow> b \<noteq> c \<Longrightarrow> {b..<b + 16} \<inter> {c..<c + (16 :: nat)} = {}"
  shows "\<exists>b. {b..<b + 16} \<subseteq> F'"
proof (rule ccontr)
  assume none: "\<not> ?thesis"
  have "\<exists>x. x \<in> {b..<b + 16} \<and> x \<notin> F'" for b using none by blast
  then obtain f where f: "\<And>b. f b \<in> {b..<b + 16}" "\<And>b. f b \<notin> F'" by metis
  have "inj_on f B"
  proof (rule inj_onI)
    fix b c assume "b \<in> B" "c \<in> B" "f b = f c"
    then show "b = c" using apart [of b c] f(1) [of b] f(1) [of c] by (metis IntI empty_iff)
  qed
  moreover have "f ` B \<subseteq> F - F'" using f runs by blast
  ultimately have "card B \<le> card (F - F')" using F(2) by (intro card_inj_on_le) auto
  also have "\<dots> = card F - card F'" using F(1,2) by (intro card_Diff_subset) (auto dest: finite_subset)
  finally show False using F(3) B by simp
qed

lemma kprintf_literal: "CHR ''%'' \<notin> set fmt \<Longrightarrow> kprintf fmt [] s = Inr (s\<lparr>con := con s @ fmt\<rparr>)"
  by (simp add: kprintf_def debug_printf_def debug_vprintf_literal)

definition boot_text :: "limine \<Rightarrow> string" where
  "boot_text L = ''Symphony v0.0.0 is starting...\<newline>'' @ boot_info_text L
     @ ''[ INFO  ] PMM initialized\<newline>'' @ vmm_log @ ''[ INFO  ] Init done\<newline>''"

text \<open>Memory for a boot: a machine the page-frame allocator can start on, with more disjoint runs of
  16 free pages than the kernel's page tables take pages.\<close>

definition boot_memory :: "limine \<Rightarrow> nat \<Rightarrow> nat \<Rightarrow> nat set \<Rightarrow> bool" where
  "boot_memory L k i B \<longleftrightarrow> pmm_bootable L k i \<and> small_map L \<and> page_of L 0 \<notin> initial_pages L k i
     \<and> kernel_demand L < card B
     \<and> (\<forall>b \<in> B. {b..<b + 16} \<subseteq> initial_pages L k i)
     \<and> (\<forall>b \<in> B. \<forall>c \<in> B. b \<noteq> c \<longrightarrow> {b..<b + 16} \<inter> {c..<c + 16} = {})"

lemma boot_managers:
  assumes "boot_memory L k i B"
  shows "\<exists>s0 s1 s2 r q D. pmm_init L s = Inr (0, s0) \<and> con s0 = con s @ ''[ INFO  ] PMM initialized\<newline>''
    \<and> vmm_init L s0 = Inr (0, s1) \<and> con s1 = con s0 @ vmm_log
    \<and> kheap_init L s1 = Inr (0, s2) \<and> con s2 = con s1
    \<and> kernelPT s2 = page_addr L r \<and> cr3 s2 = of_nat (r * 4096)
    \<and> vm_ok L (initial_pages L k i) D r s2 \<and> translate L r s2 = kernel_view L
    \<and> heap_ok L (initial_pages L k i) {q..<q + 16} [Block (page_addr L q) 65504 True] s2
    \<and> {q..<q + 16} \<inter> dom D = {}"
proof -
  let ?M = "initial_pages L k i"
  have a: "pmm_bootable L k i" "small_map L" "page_of L 0 \<notin> ?M" "kernel_demand L < card B"
    "\<And>b. b \<in> B \<Longrightarrow> {b..<b + 16} \<subseteq> ?M"
    "\<And>b c. b \<in> B \<Longrightarrow> c \<in> B \<Longrightarrow> b \<noteq> c \<Longrightarrow> {b..<b + 16} \<inter> {c..<c + 16} = {}"
    using assms unfolding boot_memory_def by blast+
  obtain s0 where s0: "pmm_init L s = Inr (0, s0)" "free_pages s0 = ?M" "pmm_ready L ?M s0" "npages s0 \<le> 2 ^ 51"
      "con s0 = con s @ ''[ INFO  ] PMM initialized\<newline>''"
    using pmm_init_bootable [OF a(1), of s] by blast
  have fin: "finite ?M" unfolding s0(2) [symmetric] by (simp add: free_pages_def)
  have "B \<subseteq> ?M" using a(5) by force
  then have "card B \<le> card ?M" using fin by (intro card_mono)
  then have enough: "\<not> card (free_pages s0) < kernel_demand L" using a(4) by (simp add: s0(2))
  obtain s1 r D where s1: "vmm_init L s0 = Inr (0, s1)" "con s1 = con s0 @ vmm_log" "kernelPT s1 = page_addr L r"
      "cr3 s1 = of_nat (r * 4096)" "vm_ok L ?M D r s1" "\<forall>va. translate L r s1 va = kernel_view L va"
      "free_pages s1 = free_pages s0 - dom D" "card (free_pages s0) \<le> card (free_pages s1) + kernel_demand L"
    using vmm_init_spec [OF s0(3,4) a(2)] enough by (cases "vmm_init L s0") auto
  have ready1: "pmm_ready L ?M s1" "npages s1 \<le> 2 ^ 51" using s1(5) by (simp_all add: vm_ok_def)
  have "\<exists>b. {b..<b + 16} \<subseteq> free_pages s1"
    using s1(7,8) unfolding s0(2) by (intro run_remains [OF _ fin _ a(4,5,6)]) auto
  then have "\<not> (\<forall>b. \<not> {b..<b + 16} \<subseteq> free_pages s1)" by blast
  then obtain s2 q where s2: "kheap_init L s1 = Inr (0, s2)" "{q..<q + 16} \<subseteq> free_pages s1"
      "free_pages s2 = free_pages s1 - {q..<q + 16}"
      "heap_ok L ?M {q..<q + 16} [Block (page_addr L q) 65504 True] s2" "con s2 = con s1"
      "kernelPT s2 = kernelPT s1" "cr3 s2 = cr3 s1"
      "\<And>x. page_of L x \<notin> {q..<q + 16} \<Longrightarrow> \<not> in_rng (bitmap s1) (unat (bitmapSize s1)) x \<Longrightarrow> mem s2 x = mem s1 x"
    using kheap_init_spec [OF ready1 a(3)] by (cases "kheap_init L s1") auto
  have apart: "{q..<q + 16} \<inter> dom D = {}" using s2(2) s1(5) by (auto simp: vm_ok_def)
  have "mem s2 x = mem s1 x" if "page_of L x \<in> dom D" for x
    using that apart s1(5) ready1(1) by (intro s2(8)) (auto simp: vm_ok_def pmm_ready_def)
  then have ag: "agree D (slots L (mem s1)) (slots L (mem s2))" by (rule slots_agree)
  have t1: "tree (slots L (mem s1)) D r" using s1(5) by (simp add: vm_ok_def)
  have t2: "tree (slots L (mem s2)) D r" by (rule tree_agree [OF t1 ag])
  have "translate L r s2 va = translate L r s1 va" for va
    unfolding translate_def vpath_split
    using tree_root [OF t1] by (intro mmu_agree [OF t1 ag]) (simp_all add: vidx_lt)
  then have tr: "translate L r s2 = kernel_view L" using s1(6) by (simp add: fun_eq_iff)
  have "vm_ok L ?M D r s2" using t2 s1(5) s2(3,4) by (auto simp: vm_ok_def heap_ok_def)
  then show ?thesis using s0(1,5) s1(1-4) s2(1,4-7) apart tr by metis
qed

lemma kernel_starts:
  assumes "boot_memory L k i B" and "lim_supported L"
    and "gdts m = [g0]" and "gdtrs m = [r0]" and "length (idt m) = 256" and "return_to img \<noteq> after_far img"
  shows "\<exists>m' s' g r q D. kernel_start L img m t s = Inr (m', snd (serial_init t), s')
     \<and> con s' = con s @ boot_text L
     \<and> gdts m' = [g] \<and> cpu_gdtr m' = \<lparr>gdtr_size = 55, gdtr_offset = gdt_base img\<rparr>
     \<and> cpu_idtr m' = \<lparr>idtr_size = 4095, idtr_offset = idt_base img\<rparr>
     \<and> (\<forall>v < 32. gate_at (concat (map gate_bytes (idt m'))) v =
          \<lparr>gate_handler = isr img v, gate_selector = 0x08, gate_ist = 0, gate_kind = 0x8E\<rparr>)
     \<and> cr3 s' = of_nat (r * 4096) \<and> kernelPT s' = page_addr L r
     \<and> vm_ok L (initial_pages L k i) D r s' \<and> translate L r s' = kernel_view L
     \<and> heap_ok L (initial_pages L k i) {q..<q + 16} [Block (page_addr L q) 65504 True] s'
     \<and> {q..<q + 16} \<inter> dom D = {}"
proof -
  obtain m1 g where m1: "arch_init_very_early img 0 m = Inr (0, m1)" "gdts m1 = [g]" "idt m1 = idt m"
      "cpu_gdtr m1 = \<lparr>gdtr_size = 55, gdtr_offset = gdt_base img\<rparr>"
    using load_gdt_spec [OF assms(3,4,6)] by blast
  obtain m2 where m2: "arch_interrupt_init img m1 = (0, m2)" "gdts m2 = gdts m1" "cpu_gdtr m2 = cpu_gdtr m1"
      "cpu_idtr m2 = \<lparr>idtr_size = 4095, idtr_offset = idt_base img\<rparr>"
      "\<forall>v < 32. gate_at (concat (map gate_bytes (idt m2))) v =
          \<lparr>gate_handler = isr img v, gate_selector = 0x08, gate_ist = 0, gate_kind = 0x8E\<rparr>"
    using interrupt_init_spec [of m1 img] assms(5) m1(3) by auto
  define s0 where "s0 = s\<lparr>con := con s @ ''Symphony v0.0.0 is starting...\<newline>''\<rparr>"
  define s1 where "s1 = s0\<lparr>con := con s0 @ boot_info_text L\<rparr>"
  obtain s2 s3 s4 r q D where
      a: "pmm_init L s1 = Inr (0, s2)" "con s2 = con s1 @ ''[ INFO  ] PMM initialized\<newline>''"
      "vmm_init L s2 = Inr (0, s3)" "con s3 = con s2 @ vmm_log" "kheap_init L s3 = Inr (0, s4)" "con s4 = con s3"
      and b: "kernelPT s4 = page_addr L r" "cr3 s4 = of_nat (r * 4096)"
      "vm_ok L (initial_pages L k i) D r s4" "translate L r s4 = kernel_view L"
      "heap_ok L (initial_pages L k i) {q..<q + 16} [Block (page_addr L q) 65504 True] s4"
      "{q..<q + 16} \<inter> dom D = {}"
    using boot_managers [OF assms(1), of s1] by blast
  define s' where "s' = s4\<lparr>con := con s4 @ ''[ INFO  ] Init done\<newline>''\<rparr>"
  have count: "entry_count L < 2 ^ 64" using assms(1) by (simp add: boot_memory_def small_map_def)
  have "serial_init t = (0, snd (serial_init t))" by (simp add: serial_init_def Let_def)
  then obtain t' where t': "serial_init t = (0, t')" by blast
  have hello: "kprintf (''Symphony '' @ KERNEL_VER_STRING @ '' is starting...\<newline>'') [] s = Inr s0"
    by (simp add: kprintf_literal KERNEL_VER_STRING_def s0_def)
  have info: "print_boot_info L s0 = Inr s1" by (simp add: print_boot_info_text [OF count] s1_def)
  have bye: "klog LOGLEVEL_INFO ''Init done\<newline>'' [] s4 = Inr s'" by (simp add: klog_literal s'_def)
  have "kernel_start L img m t s = Inr (m2, t', s')"
    by (simp add: kernel_start_def m1(1) t' hello boot_proto_bl_supported_def assms(2) info a(1,3,5) stage_def
        arch_init_early_def m2(1) arch_init_late_def bye del: append.simps)
  moreover have "con s' = con s @ boot_text L"
    using a(2,4,6) by (simp add: s'_def s1_def s0_def boot_text_def)
  moreover have "vm_ok L (initial_pages L k i) D r s' \<and> translate L r s' = kernel_view L"
    using b(3,4) by (simp add: s'_def vm_ok_def pmm_ready_def pmm_wf_def free_pages_def page_used_def npages_def translate_def [abs_def])
  moreover have "heap_ok L (initial_pages L k i) {q..<q + 16} [Block (page_addr L q) 65504 True] s'"
    using b(5) by (simp add: s'_def heap_ok_def heap_list_def pmm_ready_def pmm_wf_def free_pages_def page_used_def npages_def)
  ultimately show ?thesis
    using b(1,2,6) m1(2,4) m2(2-5) t'
    by (intro exI [of _ m2] exI [of _ s'] exI [of _ g] exI [of _ r] exI [of _ q] exI [of _ D]) (simp add: s'_def)
qed

text \<open>C1: the boot, end to end. On a supported bootloader, with enough memory, the kernel starts
  through to its last statement. On the way it has loaded its descriptor tables, configured the
  serial line, and printed exactly the boot log: the version, what the bootloader says, the
  memory map entry by entry, and the success messages. At the end the processor runs in the
  address space that maps the memory map and the kernel; its tables are intact; the heap is one
  free block of 65504 bytes in 16 pages that no page table uses.\<close>

theorem kernel_boots:
  assumes "boot_memory L k i B" and "lim_supported L"
    and "gdts m = [g0]" and "gdtrs m = [r0]" and "length (idt m) = 256" and "return_to img \<noteq> after_far img"
  shows "\<exists>m' s' g r q D. kernel_start L img m t s = Inr (m', snd (serial_init t), s')
     \<and> con s' = con s @ boot_text L
     \<and> gdts m' = [g] \<and> cpu_gdtr m' = \<lparr>gdtr_size = 55, gdtr_offset = gdt_base img\<rparr>
     \<and> cpu_idtr m' = \<lparr>idtr_size = 4095, idtr_offset = idt_base img\<rparr>
     \<and> (\<forall>v < 32. gate_at (concat (map gate_bytes (idt m'))) v =
          \<lparr>gate_handler = isr img v, gate_selector = 0x08, gate_ist = 0, gate_kind = 0x8E\<rparr>)
     \<and> cr3 s' = of_nat (r * 4096) \<and> kernelPT s' = page_addr L r
     \<and> vm_ok L (initial_pages L k i) D r s' \<and> translate L r s' = kernel_view L
     \<and> heap_ok L (initial_pages L k i) {q..<q + 16} [Block (page_addr L q) 65504 True] s'
     \<and> {q..<q + 16} \<inter> dom D = {}"
  by (rule kernel_starts [OF assms])

section \<open>An example boot\<close>

text \<open>The example machine with four megabytes of memory above the first.\<close>

definition boot_limine :: limine where
  "boot_limine = example_limine\<lparr>lim_entries :=
     [\<lparr>lim_base = 0x1000, lim_length = 0x9e000, lim_type = 0\<rparr>,
      \<lparr>lim_base = 0x100000, lim_length = 0x400000, lim_type = 0\<rparr>]\<rparr>"

lemma boot_usable: "usable boot_limine j \<longleftrightarrow> j = 0 \<or> j = 1"
proof -
  have n: "entry_count boot_limine = 2" by (simp add: entry_count_def boot_limine_def)
  have "entry_type (memmap_entry boot_limine 0) = 1" "entry_type (memmap_entry boot_limine 1) = 1"
    by (simp_all add: memmap_entry_def boot_limine_def example_limine_def memmap_type_def memmap_type_defs)
  moreover have "j < 2 \<longleftrightarrow> j = 0 \<or> j = 1" by auto
  ultimately show ?thesis by (auto simp: usable_def n BOOT_PROTO_MEMMAP_USABLE_def)
qed

lemma boot_entries:
  "ebase boot_limine 0 = 0x1000" "elen boot_limine 0 = 0x9e000"
  "ebase boot_limine (Suc 0) = 0x100000" "elen boot_limine (Suc 0) = 0x400000"
  "unat (boot_proto_hhdm_offset boot_limine) = 0xffff800000000000"
  by (simp_all add: ebase_def elen_def memmap_entry_def boot_limine_def example_limine_def boot_proto_hhdm_offset_def)

lemma boot_bootable: "pmm_bootable boot_limine 1 0"
proof -
  have b: "bitmap_bytes boot_limine (Suc 0) = 160" by (simp add: bitmap_bytes_def boot_entries)
  have "memmap_ok boot_limine"
    unfolding memmap_ok_def boot_usable
    by (auto simp: boot_entries) (simp_all add: entry_count_def boot_limine_def)
  moreover have "is_last_usable boot_limine 1" "is_bitmap_entry boot_limine 160 0"
    by (auto simp: is_last_usable_def is_bitmap_entry_def boot_usable skip_len_def boot_entries)
  moreover have "ucast (of_nat (skip_base boot_limine 0) + boot_proto_hhdm_offset boot_limine) \<noteq> (0 :: cint)"
    by (simp only: skip_base_def boot_entries) (simp add: boot_proto_hhdm_offset_def boot_limine_def example_limine_def)
  ultimately show ?thesis by (simp add: pmm_bootable_def b)
qed

lemma boot_initial_pages: "initial_pages boot_limine 1 0 = {2..<0x9f} \<union> {0x100..<0x500}"
proof -
  have u: "{j. usable boot_limine j} = {0, 1}" using boot_usable by auto
  have b: "bitmap_bytes boot_limine (Suc 0) = 160" by (simp add: bitmap_bytes_def boot_entries)
  show ?thesis
    by (auto simp: initial_pages_def usable_pages_def entry_pages_def u b bitmap_pages_def
        skip_base_def boot_entries)
qed

lemma boot_small: "small_map boot_limine" "kernel_demand boot_limine = 25"
proof -
  have n: "entry_count boot_limine = 2" by (simp add: entry_count_def boot_limine_def)
  have e: "skip_page_0 (memmap_entry boot_limine 0) = \<lparr>entry_base = 0x1000, entry_length = 0x9e000, entry_type = 1\<rparr>"
    "skip_page_0 (memmap_entry boot_limine 1) = \<lparr>entry_base = 0x100000, entry_length = 0x400000, entry_type = 1\<rparr>"
    by (simp_all add: memmap_entry_def boot_limine_def example_limine_def memmap_type_def memmap_type_defs skip_page_0_def)
  have k: "boot_proto_kernel_size boot_limine = 0x20000"
    by (simp add: boot_proto_kernel_size_def boot_limine_def example_limine_def)
  have less_2: "(\<forall>i < 2. P i) \<longleftrightarrow> P 0 \<and> P (1 :: nat)" for P by (auto simp: less_2_cases_iff)
  have sum2: "(\<Sum>j<2. f j) = f 0 + f 1" for f :: "nat \<Rightarrow> nat" by (simp add: numeral_2_eq_2)
  show "small_map boot_limine" unfolding small_map_def n k less_2 e by simp
  show "kernel_demand boot_limine = 25"
    unfolding kernel_demand_def table_demand_def n k sum2 e by (simp add: range_pages_def)
qed

lemma boot_enough: "boot_memory boot_limine 1 0 ((\<lambda>j. 0x100 + 16 * j) ` {..<26})"
proof -
  have "page_of boot_limine 0 = 0x80000000 * 16"
    by (simp add: page_of_def boot_proto_hhdm_offset_def boot_limine_def example_limine_def)
  then have "page_of boot_limine 0 \<notin> initial_pages boot_limine 1 0" unfolding boot_initial_pages by simp
  moreover have "card ((\<lambda>j::nat. 0x100 + 16 * j) ` {..<26}) = 26" by (subst card_image) (auto intro: inj_onI)
  ultimately show ?thesis
    using boot_bootable boot_small unfolding boot_memory_def boot_initial_pages by auto
qed

lemma boot_example:
  "lim_supported boot_limine" "gdts reset_machine = [zero_gdt]"
  "gdtrs reset_machine = [\<lparr>gdtr_size = 0, gdtr_offset = 0\<rparr>]" "length (idt reset_machine) = 256"
  "return_to example_image \<noteq> after_far example_image"
  by (simp_all add: reset_machine_def example_image_def boot_limine_def example_limine_def)

theorem kernel_boots_witness:
  "\<exists>m' t' s'. kernel_start boot_limine example_image reset_machine [] example_pmm = Inr (m', t', s')
     \<and> sent (uart_of t') = [] \<and> cpu_gdtr m' = \<lparr>gdtr_size = 55, gdtr_offset = 0xffffffff80008000\<rparr>
     \<and> take 31 (drop (length (con example_pmm)) (con s')) = ''Symphony v0.0.0 is starting...\<newline>''"
proof -
  have e: "gdt_base example_image = 0xffffffff80008000" by (simp add: example_image_def)
  from kernel_boots [OF boot_enough boot_example, of "[]" example_pmm] obtain m' s' where
      k: "kernel_start boot_limine example_image reset_machine [] example_pmm = Inr (m', snd (serial_init []), s')"
      "con s' = con example_pmm @ boot_text boot_limine"
      "cpu_gdtr m' = \<lparr>gdtr_size = 55, gdtr_offset = gdt_base example_image\<rparr>" by blast
  have "sent (uart_of (snd (serial_init []))) = []"
    using serial_init_uart [of "[]"] by (auto simp: uart_of_def uart_reset_def)
  then show ?thesis using k e
    by (intro exI [of _ m'] exI [of _ "snd (serial_init [])"] exI [of _ s']) (simp add: boot_text_def)
qed

end
