(* ===== verification/Ownership.thy ===== *)
theory Ownership
  imports Heap_Props Vmm_Spec
begin

text \<open>
  Who owns which pages. Every part of the kernel works on pages of its own: the heap on its
  pages, an address space on its tables, a client on the frames it was given. A step of one part
  changes memory only in its own pages, in pages that were free, and in the allocator's bitmap;
  all other parts then keep their invariants and contents.
\<close>

section \<open>Steps that keep the pages of others\<close>

text \<open>From \<open>s\<close> to \<open>s'\<close>, memory of managed pages changes in \<open>P\<close> only, and no page outside \<open>P\<close>
  becomes free.\<close>

definition keeps :: "limine \<Rightarrow> nat set \<Rightarrow> nat set \<Rightarrow> kstate \<Rightarrow> kstate \<Rightarrow> bool" where
  "keeps L M P s s' \<longleftrightarrow> pmm_ready L M s' \<and> npages s' \<le> 2 ^ 51 \<and> free_pages s' \<subseteq> free_pages s \<union> P
     \<and> (\<forall>x. page_of L x \<in> M - P \<longrightarrow> mem s' x = mem s x)"

lemma keepsI:
  assumes "pmm_ready L M s" and "pmm_ready L M s'" and "npages s' \<le> 2 ^ 51"
    and "free_pages s' \<subseteq> free_pages s \<union> P"
    and "\<And>x. page_of L x \<notin> P \<Longrightarrow> \<not> in_rng (bitmap s) (unat (bitmapSize s)) x \<Longrightarrow> mem s' x = mem s x"
  shows "keeps L M P s s'"
proof -
  have "mem s' x = mem s x" if "page_of L x \<in> M - P" for x
    using that assms(1) by (intro assms(5)) (auto simp: pmm_ready_def)
  then show ?thesis using assms(2-4) by (simp add: keeps_def)
qed

lemma keeps_mem: "keeps L M P s s' \<Longrightarrow> page_of L x \<in> M \<Longrightarrow> page_of L x \<notin> P \<Longrightarrow> mem s' x = mem s x"
  by (simp add: keeps_def)

lemma keeps_free: "keeps L M P s s' \<Longrightarrow> Q \<inter> P = {} \<Longrightarrow> Q \<inter> free_pages s = {} \<Longrightarrow> Q \<inter> free_pages s' = {}"
  by (auto simp: keeps_def)

lemma vm_keeps:
  assumes "vm_ok L M D r s" and "keeps L M P s s'" and "dom D \<inter> P = {}"
  shows "vm_ok L M D r s'" and "translate L r s' = translate L r s"
proof -
  have t: "tree (slots L (mem s)) D r" using assms(1) by (simp add: vm_ok_def)
  have "mem s' x = mem s x" if "page_of L x \<in> dom D" for x
    using assms(1,3) that by (intro keeps_mem [OF assms(2)]) (auto simp: vm_ok_def)
  then have g: "agree D (slots L (mem s)) (slots L (mem s'))" by (rule slots_agree)
  have "dom D \<inter> free_pages s' = {}" using keeps_free [OF assms(2,3)] assms(1) by (simp add: vm_ok_def)
  then show "vm_ok L M D r s'"
    using tree_agree [OF t g] assms(1,2) by (simp add: vm_ok_def keeps_def)
  show "translate L r s' = translate L r s"
    unfolding translate_def vpath_split using tree_root [OF t]
    by (intro ext mmu_agree [OF t g]) (simp_all add: vidx_lt)
qed

lemma heap_keeps:
  assumes "heap_ok L M H bs s" and "keeps L M P s s'" and "H \<inter> P = {}"
    and "blockListStart s' = blockListStart s" and "blockListEnd s' = blockListEnd s"
  shows "heap_ok L M H bs s'"
proof -
  have hl: "heap_list L H bs s" using assms(1) by (simp add: heap_ok_def)
  have "mem s' x = mem s x" if "x \<in> heads bs" for x
    using heads_pages [OF hl that] assms(1,3) by (intro keeps_mem [OF assms(2)]) (auto simp: heap_ok_def)
  then have "heap_list L H bs s'" by (rule heap_list_frame [OF hl _ assms(4,5)])
  moreover have "H \<inter> free_pages s' = {}" using keeps_free [OF assms(2,3)] assms(1) by (simp add: heap_ok_def)
  ultimately show ?thesis using assms(1,2) by (simp add: heap_ok_def keeps_def)
qed

section \<open>The blocks of a heap\<close>

text \<open>The headers in memory determine the list of blocks.\<close>

lemma chain_unique:
  "chain h p bs 0 \<Longrightarrow> chain h p cs 0 \<Longrightarrow> first bs 0 = first cs 0 \<Longrightarrow> \<forall>b \<in> set bs \<union> set cs. start b \<noteq> 0
    \<Longrightarrow> bs = cs"
proof (induction bs arbitrary: p cs)
  case Nil
  then show ?case by (cases cs) auto
next
  case (Cons b bs)
  then obtain c ds where cs: "cs = c # ds" by (cases cs) auto
  have "start b = start c" using Cons.prems(3) cs by simp
  moreover from this have "capacity b = capacity c" "available b = available c" "first bs 0 = first ds 0"
    using Cons.prems(1,2) cs by simp_all
  moreover from this calculation have "bs = ds"
    using Cons.prems(1,2,4) cs by (intro Cons.IH [of "start b"]) simp_all
  ultimately show ?case by (cases b; cases c) (simp add: cs)
qed

lemma block_start_nonzero:
  assumes "heap_list L H bs s" and "b \<in> set bs"
  shows "start b \<noteq> 0"
proof -
  have "start b \<in> extent b" by (simp add: extent_def in_rng_def)
  then have "page_of L (start b) \<in> H" by (rule block_pages [OF assms])
  then show ?thesis using assms(1) by (auto simp: heap_list_def)
qed

lemma heap_unique:
  assumes "heap_list L H bs s" and "heap_list L H' cs s"
  shows "bs = cs"
  using assms block_start_nonzero [OF assms(1)] block_start_nonzero [OF assms(2)]
  by (intro chain_unique [of "hdr s" 0]) (auto simp: heap_list_def)

text \<open>The block of a live object.\<close>

lemma stores_block:
  assumes "kheap_objects.stores L M s \<sigma>" and "heap_ok L M H bl s" and "\<sigma> p = Some bs"
  shows "\<exists>k. Block (p - header_size) k False \<in> in_use bl \<and> length bs \<le> unat k"
proof -
  let ?sz = "\<lambda>q. map_option length (\<sigma> q)"
  have "objects L M s ?sz" using assms(1) by (simp add: kheap_objects.stores_def)
  then obtain H' cl where h: "heap_ok L M H' cl s" "dom ?sz = (\<lambda>b. start b + header_size) ` in_use cl"
      "\<forall>b \<in> in_use cl. \<forall>n. ?sz (start b + header_size) = Some n \<longrightarrow> n \<le> unat (capacity b)"
    unfolding objects_def by blast
  have "cl = bl" using h(1) assms(2) heap_unique by (simp add: heap_ok_def) blast
  moreover have "?sz p = Some (length bs)" using assms(3) by simp
  ultimately show ?thesis using object_block [OF h(2,3)] by blast
qed

lemma payload_page:
  assumes "heap_ok L M H bl s" and "b \<in> in_use bl" and "x \<in> payload b"
  shows "page_of L x \<in> H"
proof -
  have hl: "heap_list L H bl s" using assms(1) by (simp add: heap_ok_def)
  have bin: "b \<in> set bl" using assms(2) by (simp add: in_use_def)
  then have "block_ok L H b" using hl by (auto simp: heap_list_def)
  from payload_in_extent(1) [OF block_ok_size [OF this]] show ?thesis
    using block_pages [OF hl bin] assms(3) by blast
qed

lemma object_page:
  assumes "kheap_objects.stores L M s \<sigma>" and "heap_ok L M H bl s" and "\<sigma> p = Some bs" and "i < length bs"
  shows "page_of L (p + of_nat i) \<in> H"
proof -
  obtain k where k: "Block (p - header_size) k False \<in> in_use bl" "length bs \<le> unat k"
    using stores_block [OF assms(1-3)] by blast
  then show ?thesis using payload_page [OF assms(2)] object_byte_payload [OF assms(4)] by blast
qed

lemma stores_keeps:
  assumes st: "kheap_objects.stores L M s \<sigma>" and ok: "heap_ok L M H bl s" and k: "keeps L M P s s'"
    and "H \<inter> P = {}" and same: "blockListStart s' = blockListStart s" "blockListEnd s' = blockListEnd s"
  shows "kheap_objects.stores L M s' \<sigma>"
proof -
  let ?sz = "\<lambda>q. map_option length (\<sigma> q)"
  have "objects L M s ?sz" using st by (simp add: kheap_objects.stores_def)
  then obtain H' cl where h: "heap_ok L M H' cl s" "dom ?sz = (\<lambda>b. start b + header_size) ` in_use cl"
      "\<forall>b \<in> in_use cl. \<forall>n. ?sz (start b + header_size) = Some n \<longrightarrow> n \<le> unat (capacity b)"
    unfolding objects_def by blast
  have "cl = bl" using h(1) ok heap_unique by (simp add: heap_ok_def) blast
  then have "objects L M s' ?sz"
    using heap_keeps [OF ok k assms(4) same] h(2,3) unfolding objects_def by blast
  then show ?thesis
  proof (rule kheap_objects.storesI)
    fix q bs i assume q: "\<sigma> q = Some bs" "i < length bs"
    have "page_of L (q + of_nat i) \<in> H" by (rule object_page [OF st ok q])
    then have "object_byte s' q i = object_byte s q i"
      using ok assms(4) by (auto simp: object_byte_def heap_ok_def intro!: keeps_mem [OF k])
    then show "object_byte s' q i = bs ! i" using kheap_objects.stores_get [OF st q] by simp
  qed simp
qed

section \<open>The steps of each part\<close>

lemma keeps_vm:
  assumes "vm_ok L M D r s" and "vm_ext L M r D s D' s'"
  shows "keeps L M (dom D \<union> free_pages s) s s'"
proof (rule keepsI)
  note f = vm_ext_fields [OF assms(2)]
  show "pmm_ready L M s" using assms(1) by (simp add: vm_ok_def)
  show "pmm_ready L M s'" "npages s' \<le> 2 ^ 51" using f(1) by (simp_all add: vm_ok_def)
  show "free_pages s' \<subseteq> free_pages s \<union> (dom D \<union> free_pages s)" using f(7) by blast
qed (rule vm_ext_frame [OF assms(2)])

lemma keeps_new_space:
  assumes ready: "pmm_ready L M s" and np: "npages s \<le> 2 ^ 51" and eq: "vmm_new_pt L s = Inr (t, s')"
  shows "\<exists>r \<in> free_pages s. t = page_addr L r \<and> vm_ok L M [r \<mapsto> 3] r s' \<and> translate L r s' = (\<lambda>_. None)
    \<and> free_pages s' = free_pages s - {r} \<and> keeps L M (free_pages s) s s' \<and> s' = s\<lparr>mem := mem s'\<rparr>"
proof -
  have "arch_vmm_new_pt L s = Inr (t, s')" using eq by (simp add: vmm_new_pt_def)
  then obtain q where q: "q \<in> free_pages s" "t = page_addr L q" "q < 2 ^ 51" "pmm_ready L M s'"
      "free_pages s' = free_pages s - {q}"
      "\<forall>x. page_of L x \<noteq> q \<longrightarrow> \<not> in_rng (bitmap s) (unat (bitmapSize s)) x \<longrightarrow> mem s' x = mem s x"
    using new_pt_spec [OF ready np] by auto
  obtain r where r: "r \<in> free_pages s" "t = page_addr L r" "r < 2 ^ 51" "s' = s\<lparr>mem := mem s'\<rparr>"
      "vm_ok L M [r \<mapsto> 3] r s'" "\<forall>va. translate L r s' va = None" "free_pages s' = free_pages s - {r}"
    using fresh_space [OF ready np] eq by auto
  have "keeps L M (free_pages s) s s'"
    by (rule keepsI [OF ready q(4)]) (use q r(5) in \<open>auto simp: vm_ok_def\<close>)
  then show ?thesis using r by auto
qed

lemma keeps_frames:
  assumes ready: "pmm_ready L M s" and np: "npages s \<le> 2 ^ 51" and small: "small_request pages"
    and eq: "pmm_alloc pages s = Inr (a, s')"
  shows "keeps L M {} s s' \<and> s' = s\<lparr>mem := mem s'\<rparr> \<and> frames a pages \<subseteq> free_pages s \<and> page_aligned a
    \<and> free_pages s' = free_pages s - frames a pages"
proof -
  have law: "frames a pages \<subseteq> free_pages s" "page_aligned a" "free_pages s' = free_pages s - frames a pages"
      "pmm_ready L M s'"
    using pmm_alloc_law [OF ready small eq] by simp_all
  obtain p where now: "bitmap_now s (\<lambda>q. (p \<le> q \<and> q < p + nat (sint pages)) \<or> page_used s q) s'"
    using pmm_alloc_spec [of pages s] eq small ready by (auto simp: small_request_def pmm_ready_def)
  note f = bitmap_now_fields [OF now]
  have "keeps L M {} s s'"
    by (rule keepsI [OF ready law(4)]) (use f(4) np law(3) bitmap_now_frame [OF now] in auto)
  then show ?thesis using law f(5) by blast
qed

lemma keeps_released:
  assumes "pmm_ready L M s" and "npages s \<le> 2 ^ 51" and "released L B s s'" and "B \<subseteq> M"
  shows "keeps L M B s s'"
proof (rule keepsI [OF assms(1) released_ready [OF assms(1,3,4)]])
  show "npages s' \<le> 2 ^ 51" "free_pages s' \<subseteq> free_pages s \<union> B"
    using released_fields [OF assms(3)] assms(2) by simp_all
  show "mem s' x = mem s x" if "page_of L x \<notin> B" "\<not> in_rng (bitmap s) (unat (bitmapSize s)) x" for x
    using released_mem [OF assms(3) that(2)] that(1) by simp
qed

lemma free_releases:
  assumes "pmm_ready L M s" and "small_request pages" and "page_aligned a" and "frames a pages \<subseteq> M"
    and "pmm_free L a pages s = Inr (e, s')"
  shows "released L (frames a pages) s s'"
proof -
  let ?p = "unat a div 4096"
  have a: "a = of_nat (?p * 4096)" by (rule page_aligned_of_nat [OF assms(3)])
  have fr: "frames a pages = {?p..<?p + nat (sint pages)}" by (simp add: frames_def)
  obtain s1 where s1: "pmm_free L (of_nat (?p * 4096)) pages s = Inr (0, s1)" "s1 = s\<lparr>mem := mem s1\<rparr>"
      "free_pages s1 = free_pages s \<union> {?p..<?p + nat (sint pages)}"
      and m: "\<forall>x. mem s1 x = (if page_of L x \<in> {?p..<?p + nat (sint pages)} then 0xff
            else if in_rng (bitmap s) (unat (bitmapSize s)) x then mem s1 x else mem s x)"
    using pmm_free_spec [of s pages ?p L] assms(1,2) pmm_ready_range [OF assms(1,2), of ?p] assms(4)
    unfolding fr by (auto simp: pmm_ready_def small_request_def)
  have "s1 = s'" using s1(1) assms(5) a by simp
  moreover have "mem s1 x = (if page_of L x \<in> frames a pages then 0xff else mem s x)"
    if "\<not> in_rng (bitmap s) (unat (bitmapSize s)) x" for x
    using spec [OF m, of x] that unfolding fr
    by (cases "page_of L x \<in> {?p..<?p + nat (sint pages)}") auto
  ultimately show ?thesis using s1(2,3) unfolding released_def fr by blast
qed

text \<open>The heap: it works in its pages and in free pages, and may take free pages over.\<close>

lemma keeps_undisturbed:
  assumes "heap_ok L M H bl s" and "heap_ok L M H' bl' s'" and "undisturbed L P B s s'"
    and "free_pages s' \<subseteq> free_pages s"
  shows "keeps L M P s s'"
  using assms by (intro keepsI) (auto simp: heap_ok_def undisturbed_def)

lemma kmalloc_part:
  assumes ok: "heap_ok L M H bl s" and req: "heap_request n" and eq: "kmalloc L n s = Some (Inr (p, s'))"
  shows "\<exists>H' bl' k. heap_ok L M H' bl' s' \<and> H' \<subseteq> H \<union> free_pages s \<and> keeps L M (H \<union> free_pages s) s s'
    \<and> Block (p - header_size) k False \<in> in_use bl' \<and> unat n \<le> unat k"
proof -
  obtain k H' bl' where k: "heap_ok L M H' bl' s'" "H' \<subseteq> H \<union> free_pages s" "free_pages s' = free_pages s - H'"
      "unat n \<le> unat k" "in_use bl' = insert (Block (p - header_size) k False) (in_use bl)"
      "undisturbed L (H \<union> free_pages s) (in_use bl) s s'"
    using kmalloc_spec [OF ok req] eq by auto
  have "keeps L M (H \<union> free_pages s) s s'" using k(3) by (intro keeps_undisturbed [OF ok k(1,6)]) blast
  then show ?thesis using k(1,2,4,5) by blast
qed

lemma heap_write_part:
  assumes ok: "heap_ok L M H bl s" and ok': "heap_ok L M H bl s'" and "free_pages s' = free_pages s"
    and "\<And>x. page_of L x \<notin> H \<Longrightarrow> mem s' x = mem s x"
  shows "keeps L M H s s'"
  using assms by (intro keepsI) (auto simp: heap_ok_def)

lemma keeps_trans:
  assumes "keeps L M P s s1" and "keeps L M Q s1 s2"
  shows "keeps L M (P \<union> Q) s s2"
  using assms by (auto simp: keeps_def)

lemma keeps_mono: "keeps L M P s s' \<Longrightarrow> P \<subseteq> Q \<Longrightarrow> keeps L M Q s s'"
  by (auto simp: keeps_def)

lemma kzalloc_part:
  assumes ok: "heap_ok L M H bl s" and req: "heap_request n" and eq: "kzalloc L n s = Some (Inr (p, s'))"
  shows "\<exists>H' bl'. heap_ok L M H' bl' s' \<and> H' \<subseteq> H \<union> free_pages s \<and> keeps L M (H \<union> free_pages s) s s'"
proof -
  obtain s1 where s1: "kmalloc L n s = Some (Inr (p, s1))" "s' = fill p 0 n s1"
    using eq by (auto simp: kzalloc_def bindE_Inr_iff)
  obtain H' bl' k where k: "heap_ok L M H' bl' s1" "H' \<subseteq> H \<union> free_pages s" "keeps L M (H \<union> free_pages s) s s1"
      "Block (p - header_size) k False \<in> in_use bl'" "unat n \<le> unat k"
    using kmalloc_part [OF ok req s1(1)] by blast
  note f = object_fill [OF k(1,4,5), where c = 0, simplified, folded s1(2)]
  have "keeps L M H' s1 s'"
  proof (rule heap_write_part [OF k(1) f(1,2)])
    fix x assume x: "page_of L x \<notin> H'"
    have "\<not> in_rng p (unat n) x"
    proof
      assume "in_rng p (unat n) x"
      then have "x \<in> payload (Block (p - header_size) k False)"
        using k(5) by (simp add: payload_def in_rng_def)
      then show False using x payload_page [OF k(1,4)] by blast
    qed
    then show "mem s' x = mem s1 x" by (simp add: s1(2) fill_def memset_apply)
  qed
  then have "keeps L M (H \<union> free_pages s \<union> H') s s'" by (rule keeps_trans [OF k(3)])
  then show ?thesis using f(1) k(2) by (auto simp: sup.absorb1)
qed

lemma heap_step_part:
  assumes st: "kheap_objects.stores L M s \<sigma>" and ok: "heap_ok L M H bl s" and step: "heap_step L (s, \<sigma>) (s', \<sigma>')"
  shows "\<exists>H' bl'. heap_ok L M H' bl' s' \<and> H' \<subseteq> H \<union> free_pages s \<and> keeps L M (H \<union> free_pages s) s s'"
  using step
proof cases
  case (step_kmalloc n p)
  then show ?thesis using kmalloc_part [OF ok] by blast
next
  case (step_kzalloc n p)
  then show ?thesis using kzalloc_part [OF ok] by blast
next
  case (step_kfree p bs)
  obtain k where k: "Block (p - header_size) k False \<in> in_use bl" using stores_block [OF st ok step_kfree(2)] by blast
  obtain bl' B where s': "heap_ok L M H bl' s'" "free_pages s' = free_pages s" "undisturbed L H B s s'"
    using kfree_spec [OF ok k] step_kfree(3) by auto
  have "keeps L M H s s'" using s'(2) by (intro keeps_undisturbed [OF ok s'(1,3)]) simp
  then have "keeps L M (H \<union> free_pages s) s s'" by (rule keeps_mono) simp
  then show ?thesis using s'(1) by blast
next
  case (step_store p bs i v)
  obtain k where k: "Block (p - header_size) k False \<in> in_use bl" "length bs \<le> unat k"
    using stores_block [OF st ok step_store(3)] by blast
  have x: "p + of_nat i \<in> payload (Block (p - header_size) k False)"
    by (rule object_byte_payload [OF step_store(4) k(2)])
  have s': "s' = s\<lparr>mem := (mem s)(p + of_nat i := v)\<rparr>" using step_store(1) by (simp add: store_byte_def)
  have ok': "heap_ok L M H bl s'" unfolding s' by (rule object_write(1) [OF ok k(1) x])
  have inM: "page_of L (p + of_nat i) \<in> M" using ok payload_page [OF ok k(1) x] by (auto simp: heap_ok_def)
  have ready: "pmm_ready L M s" using ok by (simp add: heap_ok_def)
  have fp: "free_pages s' = free_pages s"
    unfolding s' by (rule pmm_ready_mem(2) [OF ready]) (use inM in auto)
  have "keeps L M H s s'"
    by (rule heap_write_part [OF ok ok' fp]) (use payload_page [OF ok k(1) x] in \<open>auto simp: s'\<close>)
  then have "keeps L M (H \<union> free_pages s) s s'" by (rule keeps_mono) simp
  then show ?thesis using ok' by blast
next
  case (step_pages pages a)
  have r: "pmm_ready L M s" "npages s \<le> 2 ^ 51" using ok by (simp_all add: heap_ok_def)
  note k = keeps_frames [OF r step_pages(2,3)]
  obtain m where m: "s' = s\<lparr>mem := m\<rparr>" using k by blast
  have kk: "keeps L M {} s s'" using k by blast
  have "heap_ok L M H bl s'" by (rule heap_keeps [OF ok kk]) (simp_all add: m)
  moreover have "keeps L M (H \<union> free_pages s) s s'" by (rule keeps_mono [OF kk]) simp
  ultimately show ?thesis by blast
qed

section \<open>What the heap does not touch\<close>

text \<open>The processor's page-table register and the kernel's page table.\<close>

definition same_cr3 :: "kstate \<Rightarrow> kstate \<Rightarrow> bool" where
  "same_cr3 s s' \<longleftrightarrow> cr3 s' = cr3 s \<and> kernelPT s' = kernelPT s"

lemma cr3_setters [simp]:
  "cr3 (set_size a v s) = cr3 s" "cr3 (set_free a b s) = cr3 s" "cr3 (set_next a v s) = cr3 s"
  "cr3 (set_prev a v s) = cr3 s" "cr3 (fill a c n s) = cr3 s"
  "kernelPT (set_size a v s) = kernelPT s" "kernelPT (set_free a b s) = kernelPT s"
  "kernelPT (set_next a v s) = kernelPT s" "kernelPT (set_prev a v s) = kernelPT s"
  "kernelPT (fill a c n s) = kernelPT s"
  by (simp_all add: set_size_def set_free_def set_next_def set_prev_def fill_def)

lemma pmm_alloc_cr3:
  assumes "pmm_alloc pages s = Inr (a, s')"
  shows "same_cr3 s s'"
proof -
  have set: "same_cr3 s s2" if "same_cr3 s s1" "pmm_bitmap_set k s1 = Inr s2" for k s1 s2
    using that by (auto simp: pmm_bitmap_set_def bindE_Inr_iff kassert_Inr_iff same_cr3_def Let_def)
  obtain p where p: "forE p (p + scast pages) pmm_bitmap_set s = Inr s'"
    using assms by (auto simp: pmm_alloc_def bindE_Inr_iff)
  show ?thesis
  proof (cases "p < p + scast pages")
    case True
    have "case forE p (p + scast pages) pmm_bitmap_set s of Inl e \<Rightarrow> True | Inr s' \<Rightarrow> same_cr3 s s'"
    proof (rule forE_rule [where P = "\<lambda>_. same_cr3 s"])
      show "p \<le> p + scast pages" using True by simp
      show "same_cr3 s s" by (simp add: same_cr3_def)
    qed (auto split: sum.splits intro: set)
    then show ?thesis by (simp add: p)
  next
    case False
    then show ?thesis using p by (simp add: same_cr3_def)
  qed
qed

lemma create_block_cr3: "same_cr3 s (kheap_create_block bh sz s)"
  by (simp add: same_cr3_def kheap_create_block_def Let_def if_distrib [of cr3] if_distrib [of kernelPT]
      cong: if_cong)

lemma kmalloc_scan_cr3:
  assumes "kmalloc_scan sz bh s = Some (Some (p, s'))"
  shows "same_cr3 s s'"
proof -
  have "Some (p, s') = Some (p, s') \<longrightarrow> same_cr3 s s'"
    using assms
  proof (rule kmalloc_scan.raw_induct [where P = "\<lambda>sz bh s r. r = Some (p, s') \<longrightarrow> same_cr3 s s'", rotated])
    fix f sz bh s r
    assume "\<And>sz bh s r. f sz bh s = Some r \<Longrightarrow> r = Some (p, s') \<longrightarrow> same_cr3 s s'"
      and "(if bh = 0 then Some None
        else if \<not> blk_free (hdr s bh) \<or> blk_size (hdr s bh) < sz then f sz (blk_next (hdr s bh)) s
        else if blk_size (hdr s bh) = sz \<or> sz < blk_size (hdr s bh) \<and> blk_size (hdr s bh) \<le> sz + header_size
        then Some (Some (bh + header_size, set_free bh False s))
        else if sz + header_size < blk_size (hdr s bh)
        then Some (Some (bh + header_size, set_free bh False (kheap_create_block bh sz s)))
        else f sz (blk_next (hdr s bh)) s) = Some r"
    then show "r = Some (p, s') \<longrightarrow> same_cr3 s s'"
      using create_block_cr3 [of s bh sz] by (auto simp: same_cr3_def split: if_splits)
  qed
  then show ?thesis by simp
qed

lemma kheap_extend_cr3: "kheap_extend L sz s = Inr s' \<Longrightarrow> same_cr3 s s'"
  using pmm_alloc_cr3 by (fastforce simp: kheap_extend_def bindE_Inr_iff Let_def same_cr3_def)

lemma kmalloc_cr3:
  assumes "kmalloc L sz s = Some (Inr (p, s'))"
  shows "same_cr3 s s'"
proof -
  have "Inr (p, s') = (Inr (p, s') :: kerror + (u64 \<times> kstate)) \<longrightarrow> same_cr3 s s'"
    using assms
  proof (rule kmalloc.raw_induct [where P = "\<lambda>L sz s r. r = Inr (p, s') \<longrightarrow> same_cr3 s s'", rotated])
    fix f L sz s r
    assume IH: "\<And>L sz s r. f L sz s = Some r \<Longrightarrow> r = Inr (p, s') \<longrightarrow> same_cr3 s s'"
      and eq: "(let sz = kmalloc_size sz in Option.bind (kmalloc_scan sz (blockListStart s) s) (\<lambda>found.
          case found of None \<Rightarrow> (case kheap_extend L sz s of Inl e \<Rightarrow> Some (Inl e) | Inr s \<Rightarrow> f L sz s)
          | Some r \<Rightarrow> Some (Inr r))) = Some r"
    show "r = Inr (p, s') \<longrightarrow> same_cr3 s s'"
    proof
      assume r: "r = Inr (p, s')"
      obtain found where f: "kmalloc_scan (kmalloc_size sz) (blockListStart s) s = Some found"
          "(case found of None \<Rightarrow> (case kheap_extend L (kmalloc_size sz) s of Inl e \<Rightarrow> Some (Inl e)
              | Inr s \<Rightarrow> f L (kmalloc_size sz) s) | Some r \<Rightarrow> Some (Inr r)) = Some r"
        using eq by (auto simp: Let_def bind_eq_Some_conv)
      show "same_cr3 s s'"
      proof (cases found)
        case (Some q)
        then show ?thesis using f r kmalloc_scan_cr3 by auto
      next
        case None
        then obtain s1 where "kheap_extend L (kmalloc_size sz) s = Inr s1" "f L (kmalloc_size sz) s1 = Some r"
          using f(2) r by (auto split: sum.splits)
        then have "same_cr3 s s1" "same_cr3 s1 s'" using kheap_extend_cr3 IH r by blast+
        then show ?thesis by (simp add: same_cr3_def)
      qed
    qed
  qed
  then show ?thesis by simp
qed

lemma klog_fields:
  assumes "klog level fmt as s = Inr s'"
  shows "mem s' = mem s" "bitmap s' = bitmap s" "bitmapSize s' = bitmapSize s" "cr3 s' = cr3 s"
    "blockListStart s' = blockListStart s" "blockListEnd s' = blockListEnd s" "kernelPT s' = kernelPT s"
  using assms by (auto simp: klog_def split: sum.splits)

lemma merge_cr3: "same_cr3 s (merge_next bh s)" "same_cr3 s (merge_prev bh s)"
  by (simp_all add: same_cr3_def merge_next_def merge_prev_def Let_def if_distrib [of cr3] if_distrib [of kernelPT]
      cong: if_cong)

lemma kfree_cr3:
  assumes "kfree p s = Inr s'"
  shows "same_cr3 s s'"
  using assms merge_cr3
  by (auto simp: kfree_def Let_def same_cr3_def klog_fields split: if_splits)

lemma heap_step_cr3:
  assumes "heap_step L (s, \<sigma>) (s', \<sigma>')"
  shows "same_cr3 s s'"
  using assms
proof cases
  case (step_kzalloc n p)
  then show ?thesis using kmalloc_cr3 [of L n s p] by (force simp: kzalloc_def bindE_Inr_iff same_cr3_def)
next
  case (step_kmalloc n p)
  then show ?thesis by (blast intro: kmalloc_cr3)
next
  case (step_kfree p bs)
  then show ?thesis by (blast intro: kfree_cr3)
next
  case (step_store p bs i v)
  then show ?thesis by (simp add: store_byte_def same_cr3_def)
next
  case (step_pages pages a)
  then show ?thesis by (blast intro: pmm_alloc_cr3)
qed

end
