(* ===== verification/Kernel_System.thy ===== *)
theory Kernel_System
  imports Kernel Ownership Interrupt_Entry
begin

text \<open>
  The managers of the kernel together, after the boot: every interleaving of heap operations,
  page-frame allocations and releases by other clients, writes into such frames, and operations
  on address spaces (the kernel's and others, created and destroyed on the way). The state of
  the kernel is observed through what its clients rely on: the bytes of their objects, the bytes
  of their frames, and the mappings they asked for.
\<close>

section \<open>The clients' view\<close>

text \<open>
  Beside the kernel's state: the objects of the heap with their bytes; the live allocations of
  page frames and the bytes in them; and for every address space (by the page of its root) the
  translations it started with and the operations done on it since.
\<close>

record world =
  kst :: kstate
  objs :: "u64 \<Rightarrow> u8 list option"
  live :: "(u64 \<times> cint) list"
  owned :: "u64 \<Rightarrow> u8 option"
  spaces :: "nat \<Rightarrow> (page_map \<times> vm_op list) option"

text \<open>The addresses whose translation an operation changes.\<close>

primrec touches_page :: "vm_op \<Rightarrow> u64 \<Rightarrow> bool" where
  "touches_page (Op_map pa va flags) x \<longleftrightarrow> vpage x = vpage va"
| "touches_page (Op_unmap va) x \<longleftrightarrow> vpage x = vpage va"
| "touches_page (Op_flags va flags) x \<longleftrightarrow> vpage x = vpage va"
| "touches_page (Op_range pa va sz flags) x \<longleftrightarrow> range_index va x < range_pages sz"

lemma map_step_other: "map_step op T T' \<Longrightarrow> \<not> touches_page op va \<Longrightarrow> T' va = T va"
  by (induction rule: map_step.induct) (simp_all add: remap_def range_view_def)

lemma map_steps_snoc: "map_steps ops T T' \<Longrightarrow> map_step op T' T'' \<Longrightarrow> map_steps (ops @ [op]) T T''"
  by (induction rule: map_steps.induct) (auto intro: map_steps.intros)

text \<open>
  An address space in which the kernel can run: it translates every page the kernel was booted
  with (its image and the direct map, through which all memory is accessed) as the boot left it.
  \<^verbatim>\<open>vmm_new_pt\<close> gives an empty one, in which the first access after a switch would fault.
\<close>

definition maps_kernel :: "limine \<Rightarrow> nat \<Rightarrow> kstate \<Rightarrow> bool" where
  "maps_kernel L r s \<longleftrightarrow> (\<forall>va. kernel_view L va \<noteq> None \<longrightarrow> translate L r s va = kernel_view L va)"

text \<open>
  The steps. A client releases frames it was given, writes only into frames it was given, and
  maps nothing over the kernel's own pages in the kernel's address space or in the one the
  processor runs in. It switches only to an address space that maps the kernel. One may be
  destroyed when the processor does not run in it and every frame that is mapped for user code
  was allocated as a single page, since \<^verbatim>\<open>vmm_destroy_pt\<close> releases those frames too.
\<close>

inductive sys_step :: "limine \<Rightarrow> nat \<Rightarrow> world \<Rightarrow> world \<Rightarrow> bool" for L :: limine and k :: nat where
  use_heap: "heap_step L (kst w, objs w) (s', \<sigma>') \<Longrightarrow> sys_step L k w (w\<lparr>kst := s', objs := \<sigma>'\<rparr>)"
| get_frames: "small_request pages \<Longrightarrow> pmm_alloc pages (kst w) = Inr (a, s') \<Longrightarrow>
    sys_step L k w (w\<lparr>kst := s', live := (a, pages) # live w,
      owned := (\<lambda>x. if page_of L x \<in> frames a pages then Some (mem s' x) else owned w x)\<rparr>)"
| put_frames: "live w = xs @ (a, pages) # ys \<Longrightarrow> pmm_free L a pages (kst w) = Inr (e, s') \<Longrightarrow>
    sys_step L k w (w\<lparr>kst := s', live := xs @ ys,
      owned := (\<lambda>x. if page_of L x \<in> frames a pages then None else owned w x)\<rparr>)"
| write_frame: "owned w x \<noteq> None \<Longrightarrow>
    sys_step L k w (w\<lparr>kst := (kst w)\<lparr>mem := (mem (kst w))(x := v)\<rparr>, owned := (owned w)(x \<mapsto> v)\<rparr>)"
| new_space: "vmm_new_pt L (kst w) = Inr (t, s') \<Longrightarrow>
    sys_step L k w (w\<lparr>kst := s', spaces := (spaces w)(page_of L t \<mapsto> (\<lambda>_. None, []))\<rparr>)"
| use_space: "spaces w r = Some (T, ops) \<Longrightarrow> op_ok op \<Longrightarrow>
    (r = k \<or> cr3 (kst w) = of_nat (r * 4096) \<Longrightarrow> \<forall>va. touches_page op va \<longrightarrow> kernel_view L va = None) \<Longrightarrow>
    vm_exec L (page_addr L r) op (kst w) = Inr s' \<Longrightarrow>
    sys_step L k w (w\<lparr>kst := s', spaces := (spaces w)(r \<mapsto> (T, ops @ [op]))\<rparr>)"
| switch_space: "spaces w r \<noteq> None \<Longrightarrow> maps_kernel L r (kst w) \<Longrightarrow>
    sys_step L k w (w\<lparr>kst := vmm_switch L (page_addr L r) (kst w)\<rparr>)"
| drop_space: "spaces w r \<noteq> None \<Longrightarrow> r \<noteq> k \<Longrightarrow> cr3 (kst w) \<noteq> of_nat (r * 4096) \<Longrightarrow>
    \<forall>q \<in> user_frames L r (kst w). (of_nat (q * 4096), 1) \<in> set (live w) \<Longrightarrow>
    vmm_destroy_pt L (page_addr L r) (kst w) = Inr s' \<Longrightarrow>
    sys_step L k w (w\<lparr>kst := s', spaces := (spaces w)(r := None),
      live := filter (\<lambda>(a, n). frames a n \<inter> user_frames L r (kst w) = {}) (live w),
      owned := (\<lambda>x. if page_of L x \<in> user_frames L r (kst w) then None else owned w x)\<rparr>)"
| print_log: "klog level fmt as (kst w) = Inr s' \<Longrightarrow> sys_step L k w (w\<lparr>kst := s'\<rparr>)"

text \<open>The kernel after its boot: no objects, no frames given away, one address space.\<close>

definition started :: "limine \<Rightarrow> nat \<Rightarrow> kstate \<Rightarrow> world" where
  "started L k s = \<lparr>kst = s, objs = (\<lambda>_. None), live = [], owned = (\<lambda>_. None), spaces = [k \<mapsto> (kernel_view L, [])]\<rparr>"

inductive sys_reachable :: "limine \<Rightarrow> nat \<Rightarrow> kstate \<Rightarrow> world \<Rightarrow> bool"
  for L :: limine and k :: nat and s0 :: kstate where
  sys_start: "sys_reachable L k s0 (started L k s0)"
| sys_more: "sys_reachable L k s0 w \<Longrightarrow> sys_step L k w w' \<Longrightarrow> sys_reachable L k s0 w'"

section \<open>The invariant\<close>

definition heap_part :: "limine \<Rightarrow> nat set \<Rightarrow> nat set \<Rightarrow> kstate \<Rightarrow> (u64 \<Rightarrow> u8 list option) \<Rightarrow> bool" where
  "heap_part L M H s \<sigma> \<longleftrightarrow> (\<exists>bl. heap_ok L M H bl s) \<and> kheap_objects.stores L M s \<sigma>"

definition space_part ::
    "limine \<Rightarrow> nat set \<Rightarrow> (nat \<Rightarrow> nat option) \<Rightarrow> nat \<Rightarrow> kstate \<Rightarrow> page_map \<times> vm_op list \<Rightarrow> bool" where
  "space_part L M D r s e \<longleftrightarrow> vm_ok L M D r s \<and> map_steps (snd e) (fst e) (translate L r s)"

definition frame_part ::
    "limine \<Rightarrow> nat set \<Rightarrow> kstate \<Rightarrow> (u64 \<times> cint) list \<Rightarrow> (u64 \<Rightarrow> u8 option) \<Rightarrow> bool" where
  "frame_part L M s xs g \<longleftrightarrow> blocks_of frames xs \<subseteq> M - free_pages s \<and> apart frames xs
     \<and> (\<forall>(a, n) \<in> set xs. page_aligned a \<and> small_request n)
     \<and> (\<forall>x. g x = (if page_of L x \<in> blocks_of frames xs then Some (mem s x) else None))"

definition kernel_part :: "limine \<Rightarrow> nat \<Rightarrow> kstate \<Rightarrow> (nat \<Rightarrow> (page_map \<times> vm_op list) option) \<Rightarrow> bool" where
  "kernel_part L k s S \<longleftrightarrow> S k \<noteq> None \<and> maps_kernel L k s
     \<and> (\<exists>r. S r \<noteq> None \<and> cr3 s = of_nat (r * 4096) \<and> maps_kernel L r s)"

text \<open>No page has two owners.\<close>

definition one_owner :: "nat set \<Rightarrow> nat set \<Rightarrow> (nat \<Rightarrow> nat \<Rightarrow> nat option) \<Rightarrow> nat set \<Rightarrow> bool" where
  "one_owner H B \<D> R \<longleftrightarrow> H \<inter> B = {} \<and> (\<forall>r \<in> R. dom (\<D> r) \<inter> (H \<union> B) = {})
     \<and> (\<forall>r \<in> R. \<forall>r' \<in> R. r \<noteq> r' \<longrightarrow> dom (\<D> r) \<inter> dom (\<D> r') = {})"

definition sys_ok :: "limine \<Rightarrow> nat set \<Rightarrow> nat \<Rightarrow> nat set \<Rightarrow> (nat \<Rightarrow> nat \<Rightarrow> nat option) \<Rightarrow> world \<Rightarrow> bool" where
  "sys_ok L M k H \<D> w \<longleftrightarrow> heap_part L M H (kst w) (objs w)
     \<and> (\<forall>r e. spaces w r = Some e \<longrightarrow> space_part L M (\<D> r) r (kst w) e)
     \<and> frame_part L M (kst w) (live w) (owned w)
     \<and> one_owner H (blocks_of frames (live w)) \<D> (dom (spaces w))
     \<and> kernel_part L k (kst w) (spaces w)"

section \<open>Parts that are not touched\<close>

lemma heap_part_keeps:
  assumes "heap_part L M H s \<sigma>" and "keeps L M P s s'" and "H \<inter> P = {}"
    and "blockListStart s' = blockListStart s" and "blockListEnd s' = blockListEnd s"
  shows "heap_part L M H s' \<sigma>"
  using assms heap_keeps [OF _ assms(2-5)] stores_keeps [OF _ _ assms(2-5)] by (auto simp: heap_part_def)

lemma space_part_keeps:
  assumes "space_part L M D r s e" and "keeps L M P s s'" and "dom D \<inter> P = {}"
  shows "space_part L M D r s' e" and "translate L r s' = translate L r s"
  using assms vm_keeps [OF _ assms(2,3)] by (auto simp: space_part_def)

lemma frame_part_keeps:
  assumes "frame_part L M s xs g" and "keeps L M P s s'" and "blocks_of frames xs \<inter> P = {}"
  shows "frame_part L M s' xs g"
proof -
  have "blocks_of frames xs \<inter> free_pages s' = {}"
    using assms(1) keeps_free [OF assms(2,3)] by (auto simp: frame_part_def)
  moreover have "mem s' x = mem s x" if "page_of L x \<in> blocks_of frames xs" for x
    using assms(1,3) that by (intro keeps_mem [OF assms(2)]) (auto simp: frame_part_def)
  ultimately show ?thesis using assms(1) by (auto simp: frame_part_def)
qed

lemma maps_kernel_same: "translate L r s' = translate L r s \<Longrightarrow> maps_kernel L r s' \<longleftrightarrow> maps_kernel L r s"
  by (simp add: maps_kernel_def)

lemma kernel_part_same:
  assumes kp: "kernel_part L k s S" and same: "\<And>r. S r \<noteq> None \<Longrightarrow> translate L r s' = translate L r s"
    and cr3: "cr3 s' = cr3 s" and up: "dom S \<subseteq> dom S'"
  shows "kernel_part L k s' S'"
proof -
  have m: "S' r \<noteq> None \<and> (maps_kernel L r s' \<longleftrightarrow> maps_kernel L r s)" if "S r \<noteq> None" for r
    using up that maps_kernel_same [OF same [OF that]] unfolding dom_def by blast
  then show ?thesis using kp unfolding kernel_part_def cr3 by blast
qed

lemma heap_part_pmm: "heap_part L M H s \<sigma> \<Longrightarrow> pmm_ready L M s \<and> npages s \<le> 2 ^ 51 \<and> H \<inter> free_pages s = {}
    \<and> H \<subseteq> M \<and> page_of L 0 \<notin> M"
  by (auto simp: heap_part_def heap_ok_def)

section \<open>The steps keep the invariant\<close>

lemma sys_okD:
  assumes "sys_ok L M k H \<D> w"
  shows "heap_part L M H (kst w) (objs w)" "frame_part L M (kst w) (live w) (owned w)"
    "kernel_part L k (kst w) (spaces w)" "spaces w r = Some e \<Longrightarrow> space_part L M (\<D> r) r (kst w) e"
    "H \<inter> blocks_of frames (live w) = {}" "r \<in> dom (spaces w) \<Longrightarrow> dom (\<D> r) \<inter> (H \<union> blocks_of frames (live w)) = {}"
    "r \<in> dom (spaces w) \<Longrightarrow> r' \<in> dom (spaces w) \<Longrightarrow> r \<noteq> r' \<Longrightarrow> dom (\<D> r) \<inter> dom (\<D> r') = {}"
    "pmm_ready L M (kst w)" "npages (kst w) \<le> 2 ^ 51" "H \<subseteq> M" "H \<inter> free_pages (kst w) = {}" "page_of L 0 \<notin> M"
    "blocks_of frames (live w) \<inter> free_pages (kst w) = {}"
    "r \<in> dom (spaces w) \<Longrightarrow> dom (\<D> r) \<subseteq> M \<and> dom (\<D> r) \<inter> free_pages (kst w) = {}"
proof -
  show h: "heap_part L M H (kst w) (objs w)" "frame_part L M (kst w) (live w) (owned w)"
    "kernel_part L k (kst w) (spaces w)" and s: "\<And>r e. spaces w r = Some e \<Longrightarrow> space_part L M (\<D> r) r (kst w) e"
    using assms unfolding sys_ok_def by blast+
  show "H \<inter> blocks_of frames (live w) = {}" "r \<in> dom (spaces w) \<Longrightarrow> dom (\<D> r) \<inter> (H \<union> blocks_of frames (live w)) = {}"
    "r \<in> dom (spaces w) \<Longrightarrow> r' \<in> dom (spaces w) \<Longrightarrow> r \<noteq> r' \<Longrightarrow> dom (\<D> r) \<inter> dom (\<D> r') = {}"
    using assms unfolding sys_ok_def one_owner_def by blast+
  show "pmm_ready L M (kst w)" "npages (kst w) \<le> 2 ^ 51" "H \<subseteq> M" "H \<inter> free_pages (kst w) = {}" "page_of L 0 \<notin> M"
    using heap_part_pmm [OF h(1)] by simp_all
  show "blocks_of frames (live w) \<inter> free_pages (kst w) = {}" using h(2) by (auto simp: frame_part_def)
  show "dom (\<D> r) \<subseteq> M \<and> dom (\<D> r) \<inter> free_pages (kst w) = {}" if r: "r \<in> dom (spaces w)"
  proof -
    obtain e where "spaces w r = Some e" using r by blast
    from s [OF this] show ?thesis unfolding space_part_def vm_ok_def by blast
  qed
qed

text \<open>A step that touches no address space.\<close>

lemma spaces_keep:
  assumes ok: "sys_ok L M k H \<D> w" and kp: "keeps L M P (kst w) s'" and cr3: "cr3 s' = cr3 (kst w)"
    and P: "\<And>r. r \<in> dom (spaces w) \<Longrightarrow> dom (\<D> r) \<inter> P = {}"
  shows "\<forall>r e. spaces w r = Some e \<longrightarrow> space_part L M (\<D> r) r s' e" and "kernel_part L k s' (spaces w)"
proof -
  note d = sys_okD [OF ok]
  show "\<forall>r e. spaces w r = Some e \<longrightarrow> space_part L M (\<D> r) r s' e"
    using space_part_keeps(1) [OF d(4) kp P] by auto
  have "translate L r s' = translate L r (kst w)" if sr: "spaces w r \<noteq> None" for r
  proof -
    obtain e where e: "spaces w r = Some e" using sr by blast
    show ?thesis by (rule space_part_keeps(2) [OF d(4) [OF e] kp P]) (use e in auto)
  qed
  then show "kernel_part L k s' (spaces w)" by (rule kernel_part_same [OF d(3) _ cr3]) simp_all
qed

lemma sys_use_heap:
  assumes ok: "sys_ok L M k H \<D> w" and step: "heap_step L (kst w, objs w) (s', \<sigma>')"
  shows "\<exists>H'. sys_ok L M k H' \<D> (w\<lparr>kst := s', objs := \<sigma>'\<rparr>)"
proof -
  note d = sys_okD [OF ok]
  obtain bl where bl: "heap_ok L M H bl (kst w)" and st: "kheap_objects.stores L M (kst w) (objs w)"
    using d(1) by (auto simp: heap_part_def)
  obtain H' bl' where h: "heap_ok L M H' bl' s'" "H' \<subseteq> H \<union> free_pages (kst w)"
      "keeps L M (H \<union> free_pages (kst w)) (kst w) s'"
    using heap_step_part [OF st bl step] by blast
  have st': "kheap_objects.stores L M s' \<sigma>'" using heap_step_stores [OF step] st by simp
  have cr3: "cr3 s' = cr3 (kst w)" using heap_step_cr3 [OF step] by (simp add: same_cr3_def)
  have P: "dom (\<D> r) \<inter> (H \<union> free_pages (kst w)) = {}" if "r \<in> dom (spaces w)" for r
    using d(6,14) [OF that] by blast
  have B: "blocks_of frames (live w) \<inter> (H \<union> free_pages (kst w)) = {}" using d(5,13) by blast
  have "one_owner H' (blocks_of frames (live w)) \<D> (dom (spaces w))"
    unfolding one_owner_def using h(2) B P d(6,7) by (intro conjI ballI impI; blast)
  then have "sys_ok L M k H' \<D> (w\<lparr>kst := s', objs := \<sigma>'\<rparr>)"
    using spaces_keep [OF ok h(3) cr3 P] frame_part_keeps [OF d(2) h(3) B] h(1) st'
    by (auto simp: sys_ok_def heap_part_def)
  then show ?thesis by blast
qed

lemma sys_get_frames:
  assumes ok: "sys_ok L M k H \<D> w" and small: "small_request pages" and eq: "pmm_alloc pages (kst w) = Inr (a, s')"
  shows "sys_ok L M k H \<D> (w\<lparr>kst := s', live := (a, pages) # live w,
      owned := (\<lambda>x. if page_of L x \<in> frames a pages then Some (mem s' x) else owned w x)\<rparr>)"
proof -
  note d = sys_okD [OF ok]
  note f = keeps_frames [OF d(8,9) small eq]
  have kp: "keeps L M {} (kst w) s'" and fr: "frames a pages \<subseteq> free_pages (kst w)" "page_aligned a"
      "free_pages s' = free_pages (kst w) - frames a pages" using f by blast+
  obtain m where m: "s' = (kst w)\<lparr>mem := m\<rparr>" using f by blast
  have fM: "frames a pages \<subseteq> M" using fr(1) d(8) by (auto simp: pmm_ready_def)
  have h: "heap_part L M H s' (objs w)" by (rule heap_part_keeps [OF d(1) kp]) (simp_all add: m)
  have "frame_part L M s' (live w) (owned w)" by (rule frame_part_keeps [OF d(2) kp]) simp
  then have "frame_part L M s' ((a, pages) # live w)
      (\<lambda>x. if page_of L x \<in> frames a pages then Some (mem s' x) else owned w x)"
    using fr fM d(13) small unfolding frame_part_def by auto
  moreover have "one_owner H (frames a pages \<union> blocks_of frames (live w)) \<D> (dom (spaces w))"
    unfolding one_owner_def using fr(1) d(5,6,7,11,14) by (intro conjI ballI impI; blast)
  moreover have "cr3 s' = cr3 (kst w)" by (simp add: m)
  ultimately show ?thesis using h spaces_keep [OF ok kp] by (simp add: sys_ok_def)
qed

text \<open>Frames leave the hands of clients.\<close>

lemma blocks_filter: "blocks_of block (filter Q xs) \<subseteq> blocks_of block xs"
  by (induction block xs rule: blocks_of.induct) auto

lemma apart_filter: "apart block xs \<Longrightarrow> apart block (filter Q xs)"
proof (induction block xs rule: apart.induct)
  case (2 block a n xs)
  then show ?case using blocks_filter [of block Q xs] by auto
qed simp

lemma apart_same:
  "apart block xs \<Longrightarrow> (a, n) \<in> set xs \<Longrightarrow> (b, m) \<in> set xs \<Longrightarrow> q \<in> block a n \<Longrightarrow> q \<in> block b m
    \<Longrightarrow> (a, n) = (b, m)"
proof (induction block xs rule: apart.induct)
  case (2 block c l xs)
  then show ?case using block_in_blocks_of [of a n xs block] block_in_blocks_of [of b m xs block] by auto
qed simp

lemma blocks_member: "q \<in> blocks_of block xs \<longleftrightarrow> (\<exists>(a, n) \<in> set xs. q \<in> block a n)"
  by (induction block xs rule: blocks_of.induct) auto

lemma frame_part_less:
  assumes f: "frame_part L M s xs g" and kp: "keeps L M P s s'" and ys: "set ys \<subseteq> set xs" "apart frames ys"
    and F: "blocks_of frames ys = blocks_of frames xs - F" and P: "blocks_of frames ys \<inter> P = {}"
  shows "frame_part L M s' ys (\<lambda>x. if page_of L x \<in> F then None else g x)"
proof -
  have B: "blocks_of frames ys \<subseteq> M - free_pages s" using f F by (auto simp: frame_part_def)
  have "blocks_of frames ys \<inter> free_pages s' = {}" by (rule keeps_free [OF kp P]) (use B in blast)
  moreover have "mem s' x = mem s x" if "page_of L x \<in> blocks_of frames ys" for x
    using that B P by (intro keeps_mem [OF kp]) auto
  ultimately show ?thesis using f F B ys unfolding frame_part_def by auto
qed

lemma sys_put_frames:
  assumes ok: "sys_ok L M k H \<D> w" and lw: "live w = xs @ (a, pages) # ys"
    and eq: "pmm_free L a pages (kst w) = Inr (e, s')"
  shows "sys_ok L M k H \<D> (w\<lparr>kst := s', live := xs @ ys,
      owned := (\<lambda>x. if page_of L x \<in> frames a pages then None else owned w x)\<rparr>)"
proof -
  note d = sys_okD [OF ok]
  have ap: "apart frames (xs @ (a, pages) # ys)" "page_aligned a" "small_request pages"
      "blocks_of frames (live w) \<subseteq> M"
    using d(2) lw by (auto simp: frame_part_def)
  let ?F = "frames a pages"
  have sub: "?F \<subseteq> blocks_of frames (live w)" unfolding lw by (simp add: Un_upper1 sup.coboundedI2)
  have rel: "released L ?F (kst w) s'"
    using sub ap(4) by (intro free_releases [OF d(8) ap(3,2) _ eq]) blast
  have kp: "keeps L M ?F (kst w) s'" using sub ap(4) by (intro keeps_released [OF d(8,9) rel]) blast
  obtain m where m: "s' = (kst w)\<lparr>mem := m\<rparr>" using released_fields(5) [OF rel] by blast
  have h: "heap_part L M H s' (objs w)"
    by (rule heap_part_keeps [OF d(1) kp]) (use d(5) sub in \<open>auto simp: m\<close>)
  have ap': "apart frames (xs @ ys)" "blocks_of frames (xs @ ys) = blocks_of frames (live w) - ?F"
      "blocks_of frames (xs @ ys) \<inter> ?F = {}"
    using ap(1) by (auto simp: apart_append lw)
  have "frame_part L M s' (xs @ ys) (\<lambda>x. if page_of L x \<in> ?F then None else owned w x)"
    by (rule frame_part_less [OF d(2) kp _ ap']) (auto simp: lw)
  moreover have "one_owner H (blocks_of frames (xs @ ys)) \<D> (dom (spaces w))"
    unfolding one_owner_def ap'(2) using d(5,6,7) by (intro conjI ballI impI; blast)
  moreover have "cr3 s' = cr3 (kst w)" by (simp add: m)
  moreover have "dom (\<D> r) \<inter> ?F = {}" if "r \<in> dom (spaces w)" for r using d(6) [OF that] sub by blast
  ultimately show ?thesis using h spaces_keep [OF ok kp] by (simp add: sys_ok_def)
qed

lemma sys_write_frame:
  assumes ok: "sys_ok L M k H \<D> w" and x: "owned w x \<noteq> None"
  shows "sys_ok L M k H \<D> (w\<lparr>kst := (kst w)\<lparr>mem := (mem (kst w))(x := v)\<rparr>, owned := (owned w)(x \<mapsto> v)\<rparr>)"
proof -
  note d = sys_okD [OF ok]
  let ?s = "(kst w)\<lparr>mem := (mem (kst w))(x := v)\<rparr>" and ?B = "blocks_of frames (live w)"
  have g: "owned w y = (if page_of L y \<in> ?B then Some (mem (kst w) y) else None)" for y
    using d(2) by (simp add: frame_part_def)
  have xB: "page_of L x \<in> ?B" "?B \<subseteq> M" using x g [of x] d(2) by (auto simp: frame_part_def split: if_splits)
  have out: "((mem (kst w))(x := v)) y = mem (kst w) y" if "page_of L y \<notin> M" for y using that xB by auto
  note same = pmm_ready_mem [OF d(8) out]
  have kp: "keeps L M {page_of L x} (kst w) ?s"
    by (rule keepsI [OF d(8) same(1)]) (use d(9) same(2) in \<open>auto simp: npages_def\<close>)
  have h: "heap_part L M H ?s (objs w)"
    by (rule heap_part_keeps [OF d(1) kp]) (use d(5) xB in auto)
  have "?B \<subseteq> M - free_pages (kst w)" using d(2) unfolding frame_part_def by blast
  then have "?B \<subseteq> M - free_pages ?s" by (subst same(2))
  moreover have "apart frames (live w)" "\<forall>(a, n) \<in> set (live w). page_aligned a \<and> small_request n"
    using d(2) by (simp_all add: frame_part_def)
  ultimately have "frame_part L M ?s (live w) ((owned w)(x \<mapsto> v))"
    using g xB(1) unfolding frame_part_def by (intro conjI allI) (simp_all add: g)
  moreover have "dom (\<D> r) \<inter> {page_of L x} = {}" if "r \<in> dom (spaces w)" for r using d(6) [OF that] xB by blast
  moreover have "one_owner H ?B \<D> (dom (spaces w))" using ok by (simp add: sys_ok_def)
  ultimately show ?thesis using h spaces_keep [OF ok kp] by (simp add: sys_ok_def)
qed

text \<open>Address spaces.\<close>

lemma one_owner_space:
  assumes "one_owner H B \<D> R" and "dom E \<inter> (H \<union> B) = {}"
    and "\<And>q. q \<in> R \<Longrightarrow> q \<noteq> r \<Longrightarrow> dom (\<D> q) \<inter> dom E = {}"
  shows "one_owner H B (\<D>(r := E)) (insert r R)"
proof -
  have old: "H \<inter> B = {}" "\<And>q. q \<in> R \<Longrightarrow> dom (\<D> q) \<inter> (H \<union> B) = {}"
      "\<And>q q'. q \<in> R \<Longrightarrow> q' \<in> R \<Longrightarrow> q \<noteq> q' \<Longrightarrow> dom (\<D> q) \<inter> dom (\<D> q') = {}"
    using assms(1) unfolding one_owner_def by blast+
  show ?thesis
    unfolding one_owner_def
  proof (intro conjI ballI impI)
    show "H \<inter> B = {}" by (rule old(1))
    show "dom ((\<D>(r := E)) q) \<inter> (H \<union> B) = {}" if "q \<in> insert r R" for q
      using that old(2) assms(2) by (cases "q = r") simp_all
    show "dom ((\<D>(r := E)) q) \<inter> dom ((\<D>(r := E)) q') = {}"
      if "q \<in> insert r R" "q' \<in> insert r R" "q \<noteq> q'" for q q'
      using that old(3) [of q q'] assms(3) [of q] assms(3) [of q'] by (cases "q = r"; cases "q' = r") auto
  qed
qed

lemma sys_new_space:
  assumes ok: "sys_ok L M k H \<D> w" and eq: "vmm_new_pt L (kst w) = Inr (t, s')"
  shows "\<exists>\<D>'. sys_ok L M k H \<D>' (w\<lparr>kst := s', spaces := (spaces w)(page_of L t \<mapsto> (\<lambda>_. None, []))\<rparr>)"
proof -
  note d = sys_okD [OF ok]
  have owners: "one_owner H (blocks_of frames (live w)) \<D> (dom (spaces w))" using ok by (simp add: sys_ok_def)
  obtain r where r: "r \<in> free_pages (kst w)" "t = page_addr L r" "vm_ok L M [r \<mapsto> 3] r s'"
      "translate L r s' = (\<lambda>_. None)" "free_pages s' = free_pages (kst w) - {r}"
      and kp: "keeps L M (free_pages (kst w)) (kst w) s'" and m: "\<exists>m. s' = (kst w)\<lparr>mem := m\<rparr>"
    using keeps_new_space [OF d(8,9) eq] by blast
  obtain m where m: "s' = (kst w)\<lparr>mem := m\<rparr>" using m by blast
  have "r < 2 ^ 51" using vm_ok_page(3) [OF r(3), of r 3] by simp
  then have t: "page_of L t = r" unfolding r(2) by (intro page_of_page_addr) simp
  have new: "r \<notin> dom (spaces w)"
  proof
    assume rd: "r \<in> dom (spaces w)"
    then obtain e where "spaces w r = Some e" by blast
    then have "space_part L M (\<D> r) r (kst w) e" by (rule d(4))
    then have "r \<in> dom (\<D> r)" using tree_root by (auto simp: space_part_def vm_ok_def)
    then show False using d(14) [OF rd] r(1) by blast
  qed
  let ?D = "\<D>(r := [r \<mapsto> 3])" and ?S = "(spaces w)(r \<mapsto> (\<lambda>_. None, []))"
  have P: "dom (\<D> q) \<inter> free_pages (kst w) = {}" if "q \<in> dom (spaces w)" for q using d(14) [OF that] by blast
  have h: "heap_part L M H s' (objs w)" by (rule heap_part_keeps [OF d(1) kp d(11)]) (simp_all add: m)
  have f: "frame_part L M s' (live w) (owned w)" by (rule frame_part_keeps [OF d(2) kp d(13)])
  have cr3: "cr3 s' = cr3 (kst w)" by (simp add: m)
  note sp = spaces_keep [OF ok kp cr3 P]
  have "space_part L M [r \<mapsto> 3] r s' (\<lambda>_. None, [])"
    using r(3,4) no_step by (simp add: space_part_def)
  then have "\<forall>q e. ?S q = Some e \<longrightarrow> space_part L M (?D q) q s' e" using sp(1) by simp
  moreover have "kernel_part L k s' ?S" by (rule kernel_part_same [OF sp(2)]) auto
  moreover have "one_owner H (blocks_of frames (live w)) ?D (insert r (dom (spaces w)))"
    by (rule one_owner_space [OF owners]) (use r(1) d(11,13) P in \<open>force+\<close>)
  ultimately show ?thesis using h f unfolding t by (intro exI [of _ ?D]) (simp add: sys_ok_def)
qed

lemma sys_use_space:
  assumes ok: "sys_ok L M k H \<D> w" and sr: "spaces w r = Some (T, ops)" and op: "op_ok op"
    and kernel: "r = k \<or> cr3 (kst w) = of_nat (r * 4096) \<Longrightarrow> \<forall>va. touches_page op va \<longrightarrow> kernel_view L va = None"
    and eq: "vm_exec L (page_addr L r) op (kst w) = Inr s'"
  shows "\<exists>\<D>'. sys_ok L M k H \<D>' (w\<lparr>kst := s', spaces := (spaces w)(r \<mapsto> (T, ops @ [op]))\<rparr>)"
proof -
  note d = sys_okD [OF ok]
  have owners: "one_owner H (blocks_of frames (live w)) \<D> (dom (spaces w))" using ok by (simp add: sys_ok_def)
  have sp: "vm_ok L M (\<D> r) r (kst w)" "map_steps ops T (translate L r (kst w))"
    using d(4) [OF sr] by (simp_all add: space_part_def)
  obtain D' where D': "vm_ext L M r (\<D> r) (kst w) D' s'" "map_step op (translate L r (kst w)) (translate L r s')"
    using vm_exec_step [OF sp(1) op] eq by auto
  note e = vm_ext_fields [OF D'(1)]
  obtain m where m: "s' = (kst w)\<lparr>mem := m\<rparr>" using e(9) by blast
  have rd: "r \<in> dom (spaces w)" using sr by blast
  let ?P = "dom (\<D> r) \<union> free_pages (kst w)" and ?D = "\<D>(r := D')" and ?S = "(spaces w)(r \<mapsto> (T, ops @ [op]))"
  have kp: "keeps L M ?P (kst w) s'" by (rule keeps_vm [OF sp(1) D'(1)])
  have P: "dom (\<D> q) \<inter> ?P = {}" if "q \<in> dom (spaces w)" "q \<noteq> r" for q
    using d(7) [OF that(1) rd that(2)] d(14) [OF that(1)] by blast
  have h: "heap_part L M H s' (objs w)"
    by (rule heap_part_keeps [OF d(1) kp]) (use d(6) [OF rd] d(11) in \<open>auto simp: m\<close>)
  have f: "frame_part L M s' (live w) (owned w)"
    by (rule frame_part_keeps [OF d(2) kp]) (use d(6) [OF rd] d(13) in blast)
  have "space_part L M D' r s' (T, ops @ [op])"
    using e(1) map_steps_snoc [OF sp(2) D'(2)] by (simp add: space_part_def)
  moreover have "space_part L M (\<D> q) q s' e" if "spaces w q = Some e" "q \<noteq> r" for q e
    by (rule space_part_keeps(1) [OF d(4) [OF that(1)] kp P]) (use that in auto)
  ultimately have all: "\<forall>q e. ?S q = Some e \<longrightarrow> space_part L M (?D q) q s' e" by simp
  have maps: "maps_kernel L q s'" if q: "spaces w q \<noteq> None" "maps_kernel L q (kst w)"
      and guard: "q = r \<Longrightarrow> r = k \<or> cr3 (kst w) = of_nat (r * 4096)" for q
  proof (cases "q = r")
    case True
    have "translate L r s' va = kernel_view L va" if kv: "kernel_view L va \<noteq> None" for va :: u64
    proof -
      have "\<not> touches_page op va" using spec [OF kernel [OF guard [OF True]], of va] kv by simp
      from map_step_other [OF D'(2) this] show ?thesis using q(2) kv by (simp add: True maps_kernel_def)
    qed
    then show ?thesis by (simp add: True maps_kernel_def)
  next
    case False
    obtain e where e: "spaces w q = Some e" using q(1) by blast
    then have "translate L q s' = translate L q (kst w)"
      using False by (intro space_part_keeps(2) [OF d(4) [OF e] kp P]) auto
    then show ?thesis using q(2) maps_kernel_same by blast
  qed
  have cr3: "cr3 s' = cr3 (kst w)" by (simp add: m)
  obtain q where q: "spaces w q \<noteq> None" "cr3 (kst w) = of_nat (q * 4096)" "maps_kernel L q (kst w)"
    using d(3) unfolding kernel_part_def by blast
  have "maps_kernel L k s'" using d(3) unfolding kernel_part_def by (intro maps) auto
  moreover have "maps_kernel L q s'" by (rule maps [OF q(1,3)]) (use q(2) in simp)
  moreover have "?S k \<noteq> None" "?S q \<noteq> None" using d(3) q(1) by (auto simp: kernel_part_def)
  ultimately have "kernel_part L k s' ?S" unfolding kernel_part_def cr3 using q(2) by blast
  moreover have "one_owner H (blocks_of frames (live w)) ?D (insert r (dom (spaces w)))"
    by (rule one_owner_space [OF owners]) (use e(8) d(6) [OF rd] d(11,13) P in \<open>blast+\<close>)
  ultimately show ?thesis using h f all by (intro exI [of _ ?D]) (simp add: sys_ok_def)
qed


lemma keeps_quiet:
  assumes "pmm_ready L M s" and "npages s \<le> 2 ^ 51"
    and same: "mem s' = mem s" "bitmap s' = bitmap s" "bitmapSize s' = bitmapSize s"
  shows "keeps L M {} s s'"
proof (rule keepsI [OF assms(1)])
  note o = pmm_ready_other [of s' s, OF same(2,3)]
  show "pmm_ready L M s'" "free_pages s' \<subseteq> free_pages s \<union> {}" using o assms(1) same(1) by simp_all
  show "npages s' \<le> 2 ^ 51" using assms(2) same(3) by (simp add: npages_def)
qed (simp add: same(1))

text \<open>A step that changes no memory, and leaves the processor in an address space that maps the kernel.\<close>

lemma sys_quiet:
  assumes ok: "sys_ok L M k H \<D> w"
    and same: "mem s' = mem (kst w)" "bitmap s' = bitmap (kst w)" "bitmapSize s' = bitmapSize (kst w)"
      "blockListStart s' = blockListStart (kst w)" "blockListEnd s' = blockListEnd (kst w)"
    and cr3: "\<exists>r. spaces w r \<noteq> None \<and> cr3 s' = of_nat (r * 4096) \<and> maps_kernel L r (kst w)"
  shows "sys_ok L M k H \<D> (w\<lparr>kst := s'\<rparr>)"
proof -
  note d = sys_okD [OF ok]
  have kp: "keeps L M {} (kst w) s'" by (rule keeps_quiet [OF d(8,9) same(1-3)])
  have h: "heap_part L M H s' (objs w)" by (rule heap_part_keeps [OF d(1) kp _ same(4,5)]) simp
  have f: "frame_part L M s' (live w) (owned w)" by (rule frame_part_keeps [OF d(2) kp]) simp
  have "space_part L M (\<D> r) r s' e" if "spaces w r = Some e" for r e
    by (rule space_part_keeps(1) [OF d(4) [OF that] kp]) simp
  moreover have "maps_kernel L r s' \<longleftrightarrow> maps_kernel L r (kst w)" if sr: "spaces w r \<noteq> None" for r
  proof -
    obtain e where e: "spaces w r = Some e" using sr by blast
    show ?thesis by (rule maps_kernel_same, rule space_part_keeps(2) [OF d(4) [OF e] kp]) simp
  qed
  then have "kernel_part L k s' (spaces w)" using d(3) cr3 unfolding kernel_part_def by blast
  ultimately show ?thesis using h f ok by (simp add: sys_ok_def)
qed

lemma cr3_page: "page_addr L r - boot_proto_hhdm_offset L = of_nat (r * 4096)"
  by (simp add: page_addr_def)

lemma sys_switch_space:
  assumes ok: "sys_ok L M k H \<D> w" and r: "spaces w r \<noteq> None" "maps_kernel L r (kst w)"
  shows "sys_ok L M k H \<D> (w\<lparr>kst := vmm_switch L (page_addr L r) (kst w)\<rparr>)"
proof (rule sys_quiet [OF ok])
  show "\<exists>q. spaces w q \<noteq> None \<and> cr3 (vmm_switch L (page_addr L r) (kst w)) = of_nat (q * 4096)
      \<and> maps_kernel L q (kst w)"
    using r by (intro exI [of _ r]) (simp add: vmm_switch_def arch_vmm_switch_def cr3_page del: of_nat_mult)
qed (simp_all add: vmm_switch_def arch_vmm_switch_def)

lemma sys_print_log:
  assumes ok: "sys_ok L M k H \<D> w" and eq: "klog level fmt as (kst w) = Inr s'"
  shows "sys_ok L M k H \<D> (w\<lparr>kst := s'\<rparr>)"
proof -
  note f = klog_fields [OF eq]
  have "\<exists>r. spaces w r \<noteq> None \<and> cr3 s' = of_nat (r * 4096) \<and> maps_kernel L r (kst w)"
    using sys_okD(3) [OF ok] unfolding f(4) kernel_part_def by blast
  then show ?thesis by (rule sys_quiet [OF ok f(1-3,5,6)])
qed

text \<open>Destroying an address space: its tables and the frames mapped for user code become free.\<close>

lemma single_frame: "frames (of_nat (q * 4096)) 1 = {q}" if "q < 2 ^ 52"
proof -
  have "q * 4096 < 2 ^ 64" using that by simp
  then have "unat (of_nat (q * 4096) :: u64) = q * 4096" by (rule unat_of_nat_64)
  then show ?thesis by (auto simp: frames_def simp del: of_nat_mult)
qed

lemma blocks_without:
  assumes ap: "apart frames xs" and F: "\<And>q. q \<in> F \<Longrightarrow> (of_nat (q * 4096), 1) \<in> set xs \<and> q < 2 ^ 52"
  shows "blocks_of frames (filter (\<lambda>(a, n). frames a n \<inter> F = {}) xs) = blocks_of frames xs - F"
proof (intro set_eqI iffI)
  fix q assume "q \<in> blocks_of frames (filter (\<lambda>(a, n). frames a n \<inter> F = {}) xs)"
  then obtain a n where a: "(a, n) \<in> set xs" "frames a n \<inter> F = {}" "q \<in> frames a n"
    unfolding blocks_member by auto
  have "q \<in> blocks_of frames xs" unfolding blocks_member using a(1,3) by (intro bexI [of _ "(a, n)"]) simp_all
  then show "q \<in> blocks_of frames xs - F" using a(2,3) by blast
next
  fix q assume q: "q \<in> blocks_of frames xs - F"
  then have "\<exists>(a, n) \<in> set xs. q \<in> frames a n" by (simp add: blocks_member)
  then obtain a n where a: "(a, n) \<in> set xs" "q \<in> frames a n" by auto
  have "frames a n \<inter> F = {}"
  proof (rule ccontr)
    assume "frames a n \<inter> F \<noteq> {}"
    then obtain p where p: "p \<in> frames a n" "p \<in> F" by blast
    have one: "frames (of_nat (p * 4096)) 1 = {p}" using F [OF p(2)] by (intro single_frame) simp
    have "(a, n) = (of_nat (p * 4096), 1)"
      using F [OF p(2)] one by (intro apart_same [OF ap a(1) _ p(1)]) simp_all
    then have "q = p" using a(2) one by (metis prod.inject singletonD)
    then show False using q p(2) by simp
  qed
  then show "q \<in> blocks_of frames (filter (\<lambda>(a, n). frames a n \<inter> F = {}) xs)"
    unfolding blocks_member using a by (intro bexI [of _ "(a, n)"]) simp_all
qed


lemma page_addr_nonzero:
  assumes "page_of L 0 \<notin> M" and "p \<in> M" and "p < 2 ^ 52"
  shows "page_addr L p \<noteq> 0"
proof
  assume "page_addr L p = 0"
  then have "page_of L 0 = p" using page_of_page_addr [OF assms(3), of L] by simp
  then show False using assms(1,2) by simp
qed

lemma one_owner_less: "one_owner H B \<D> R \<Longrightarrow> B' \<subseteq> B \<Longrightarrow> R' \<subseteq> R \<Longrightarrow> one_owner H B' \<D> R'"
  unfolding one_owner_def by (intro conjI ballI impI; blast)

lemma mmu_lt: "mmu f p is = Some (q, v) \<Longrightarrow> p < 2 ^ 52 \<Longrightarrow> q < 2 ^ 52"
proof (induction f p "is" arbitrary: v rule: mmu.induct)
  case (2 f p i "is")
  let ?e = "decode_pte (f (512 * p + i))"
  have "unat (addr ?e) < 2 ^ 52" using unsigned_less [of "addr ?e", where ?'a = nat] by simp
  moreover obtain v' where "mmu f (unat (addr ?e)) is = Some (q, v')" "present ?e \<and> (is \<noteq> [] \<longrightarrow> \<not> pageSize ?e)"
    using 2(2) by (auto simp: Let_def split: if_splits)
  ultimately show ?case using 2(1) by blast
qed simp

lemma user_frames_lt: "q \<in> user_frames L r s \<Longrightarrow> r < 2 ^ 52 \<Longrightarrow> q < 2 ^ 52"
  unfolding user_frames_def translate_def by (auto dest: mmu_lt simp del: mmu.simps)

lemma sys_drop_space:
  assumes ok: "sys_ok L M k H \<D> w" and M: "M \<subseteq> {..<2 ^ 39}" and r: "spaces w r \<noteq> None" "r \<noteq> k"
    and cr3: "cr3 (kst w) \<noteq> of_nat (r * 4096)"
    and user: "\<forall>q \<in> user_frames L r (kst w). (of_nat (q * 4096), 1) \<in> set (live w)"
    and eq: "vmm_destroy_pt L (page_addr L r) (kst w) = Inr s'"
  shows "sys_ok L M k H \<D> (w\<lparr>kst := s', spaces := (spaces w)(r := None),
      live := filter (\<lambda>(a, n). frames a n \<inter> user_frames L r (kst w) = {}) (live w),
      owned := (\<lambda>x. if page_of L x \<in> user_frames L r (kst w) then None else owned w x)\<rparr>)"
proof -
  note d = sys_okD [OF ok]
  let ?F = "user_frames L r (kst w)" and ?T = "user_tables L r (kst w)" and ?B = "blocks_of frames (live w)"
  let ?ys = "filter (\<lambda>(a, n). frames a n \<inter> ?F = {}) (live w)" and ?S = "(spaces w)(r := None)"
  obtain e where e: "spaces w r = Some e" using r(1) by blast
  have rd: "r \<in> dom (spaces w)" using e by blast
  have vm: "vm_ok L M (\<D> r) r (kst w)" using d(4) [OF e] by (simp add: space_part_def)
  have f: "apart frames (live w)" "?B \<subseteq> M" using d(2) by (auto simp: frame_part_def)
  have "tree (slots L (mem (kst w))) (\<D> r) r" using vm by (simp add: vm_ok_def)
  then have "\<D> r r = Some 3" by (rule tree_root)
  then have "r < 2 ^ 52" using vm_ok_page(4) [OF vm] by blast
  then have lt: "q < 2 ^ 52" if "q \<in> ?F" for q using user_frames_lt that by blast
  have FB: "?F \<subseteq> ?B"
  proof
    fix q assume q: "q \<in> ?F"
    then have "(of_nat (q * 4096), 1) \<in> set (live w)" using user by blast
    then show "q \<in> ?B" unfolding blocks_member by (intro bexI) (simp_all add: single_frame [OF lt [OF q]] del: of_nat_mult)
  qed
  have ys: "blocks_of frames ?ys = ?B - ?F" by (rule blocks_without [OF f(1)]) (use user lt in blast)
  have "page_addr L p \<noteq> 0" if "p \<in> dom (\<D> r)" for p
    using that vm_ok_page [OF vm] by (intro page_addr_nonzero [OF d(12)]) auto
  moreover have "?F \<subseteq> M - dom (\<D> r)" using FB f(2) d(6) [OF rd] by blast
  ultimately obtain s1 where s1: "vmm_destroy_pt L (page_addr L r) (kst w) = Inr s1"
      "released L (?T \<union> ?F) (kst w) s1" "?T \<subseteq> dom (\<D> r)"
    using destroy_spec [OF vm M] unfolding vmm_destroy_pt_def by blast
  have rel: "released L (?T \<union> ?F) (kst w) s'" using s1(1,2) eq by simp
  obtain m where m: "s' = (kst w)\<lparr>mem := m\<rparr>" using released_fields(5) [OF rel] by blast
  have DM: "dom (\<D> r) \<subseteq> M" using vm by (simp add: vm_ok_def)
  have kp: "keeps L M (?T \<union> ?F) (kst w) s'"
    by (rule keeps_released [OF d(8,9) rel]) (use s1(3) DM FB f(2) in blast)
  have "H \<inter> (?T \<union> ?F) = {}" using s1(3) FB d(5) d(6) [OF rd] by blast
  then have h: "heap_part L M H s' (objs w)" by (rule heap_part_keeps [OF d(1) kp]) (simp_all add: m)
  have fr: "frame_part L M s' ?ys (\<lambda>x. if page_of L x \<in> ?F then None else owned w x)"
    by (rule frame_part_less [OF d(2) kp _ apart_filter [OF f(1)] ys]) (use ys s1(3) d(6) [OF rd] in auto)
  have P: "dom (\<D> q) \<inter> (?T \<union> ?F) = {}" if "q \<in> dom (spaces w)" "q \<noteq> r" for q
    using d(7) [OF that(1) rd that(2)] d(6) [OF that(1)] s1(3) FB by blast
  have sp: "space_part L M (\<D> q) q s' e'" if "?S q = Some e'" for q e'
    using that by (intro space_part_keeps(1) [OF d(4) kp P]) (auto split: if_splits)
  have maps: "?S q \<noteq> None \<and> maps_kernel L q s'" if q: "spaces w q \<noteq> None" "maps_kernel L q (kst w)" "q \<noteq> r" for q
  proof -
    obtain e' where e': "spaces w q = Some e'" using q(1) by blast
    have "translate L q s' = translate L q (kst w)"
      using e' q(3) by (intro space_part_keeps(2) [OF d(4) [OF e'] kp P]) auto
    then have "maps_kernel L q s'" using q(2) maps_kernel_same by blast
    then show ?thesis using q(1,3) by simp
  qed
  obtain q where q: "spaces w q \<noteq> None" "cr3 (kst w) = of_nat (q * 4096)" "maps_kernel L q (kst w)"
    using d(3) unfolding kernel_part_def by blast
  have "q \<noteq> r" using q(2) cr3 by blast
  note active = maps [OF q(1,3) this]
  have "spaces w k \<noteq> None" "maps_kernel L k (kst w)" using d(3) unfolding kernel_part_def by blast+
  from maps [OF this] have "?S k \<noteq> None \<and> maps_kernel L k s'" using r(2) by blast
  moreover have "cr3 s' = of_nat (q * 4096)" using q(2) by (simp add: m)
  ultimately have "kernel_part L k s' ?S" using active unfolding kernel_part_def by blast
  moreover have "one_owner H (?B - ?F) \<D> (dom ?S)"
    by (rule one_owner_less [where B = ?B and R = "dom (spaces w)"]) (use ok in \<open>auto simp: sys_ok_def\<close>)
  ultimately show ?thesis using h fr sp by (simp add: sys_ok_def ys)
qed


text \<open>Every step, and every history.\<close>

lemma sys_step_ok:
  assumes "sys_step L k w w'" and ok: "sys_ok L M k H \<D> w" and M: "M \<subseteq> {..<2 ^ 39}"
  shows "\<exists>H' \<D>'. sys_ok L M k H' \<D>' w'"
  using assms(1)
proof cases
  case use_heap
  then show ?thesis using sys_use_heap [OF ok] by blast
next
  case get_frames
  then show ?thesis using sys_get_frames [OF ok] by blast
next
  case put_frames
  then show ?thesis using sys_put_frames [OF ok] by blast
next
  case write_frame
  then show ?thesis using sys_write_frame [OF ok] by blast
next
  case new_space
  then show ?thesis using sys_new_space [OF ok] by blast
next
  case use_space
  then show ?thesis using sys_use_space [OF ok] by blast
next
  case switch_space
  then show ?thesis using sys_switch_space [OF ok] by blast
next
  case drop_space
  then show ?thesis using sys_drop_space [OF ok M] by blast
next
  case print_log
  then show ?thesis using sys_print_log [OF ok] by blast
qed

lemma sys_reachable_ok:
  assumes "sys_reachable L k s0 w" and "sys_ok L M k H \<D> (started L k s0)" and M: "M \<subseteq> {..<2 ^ 39}"
  shows "\<exists>H' \<D>'. sys_ok L M k H' \<D>' w"
  using assms(1)
proof induction
  case sys_start
  then show ?case using assms(2) by blast
next
  case (sys_more w w')
  then show ?case using sys_step_ok [OF _ _ M] by blast
qed

section \<open>The boot establishes the invariant\<close>

lemma started_ok:
  assumes vm: "vm_ok L M D k s" and tr: "translate L k s = kernel_view L" and cr3: "cr3 s = of_nat (k * 4096)"
    and heap: "heap_ok L M H bl s" "in_use bl = {}" and apart: "H \<inter> dom D = {}"
  shows "sys_ok L M k H (\<lambda>_. D) (started L k s)"
proof -
  have "objects L M s (\<lambda>_. None)" using heap unfolding objects_def by (intro exI [of _ H] exI [of _ bl]) simp
  then have "kheap_objects.stores L M s (\<lambda>_. None)" by (rule kheap_objects.storesI) simp_all
  then have "heap_part L M H s (\<lambda>_. None)" using heap(1) by (auto simp: heap_part_def)
  moreover have "space_part L M D k s (kernel_view L, [])" using vm tr no_step by (simp add: space_part_def)
  moreover have "frame_part L M s [] (\<lambda>_. None)" by (simp add: frame_part_def)
  moreover have "one_owner H {} (\<lambda>_. D) {k}" using apart by (auto simp: one_owner_def)
  moreover have "kernel_part L k s [k \<mapsto> (kernel_view L, [])]"
    unfolding kernel_part_def using tr cr3 by (intro conjI exI [of _ k]) (simp_all add: maps_kernel_def)
  ultimately show ?thesis by (simp add: sys_ok_def started_def)
qed

lemma bootable_pages:
  assumes "pmm_bootable L k i"
  shows "initial_pages L k i \<subseteq> {..<2 ^ 39}"
proof -
  have b: "memmap_ok L" "is_last_usable L k" "0 < bitmap_bytes L k" "bitmap_bytes L k < 2 ^ 32"
      "is_bitmap_entry L (bitmap_bytes L k) i" "ucast (of_nat (skip_base L i) + boot_proto_hhdm_offset L) \<noteq> (0 :: cint)"
    using assms by (simp_all add: pmm_bootable_def)
  obtain s' where s': "pmm_ready L (free_pages s') s'" "npages s' = 8 * bitmap_bytes L k"
      "free_pages s' = initial_pages L k i"
    using pmm_init_ok [OF b(1,2) refl b(3-6), of undefined] unfolding initial_pages_def by blast
  have "8 * bitmap_bytes L k \<le> 2 ^ 39" using b(4) by simp
  then show ?thesis using s' by (auto simp: pmm_ready_def)
qed


section \<open>Every history of the kernel\<close>

text \<open>The properties of a state that satisfies the invariant.\<close>

lemma objects_safe:
  assumes "heap_part L M H s \<sigma>" and "\<sigma> p = Some bs"
  shows "read_bytes (mem s) p (length bs) = bs" and "\<exists>s'. kfree p s = Inr s'"
    and "j < length bs \<Longrightarrow> page_of L (p + of_nat j) \<in> H"
proof -
  obtain bl where bl: "heap_ok L M H bl s" and st: "kheap_objects.stores L M s \<sigma>"
    using assms(1) by (auto simp: heap_part_def)
  show "read_bytes (mem s) p (length bs) = bs"
    using st assms(2) by (simp add: kheap_objects.stores_def contents_read_bytes)
  show "\<exists>s'. kfree p s = Inr s'" using kheap_objects.stores_release [OF st assms(2)] by blast
  show "page_of L (p + of_nat j) \<in> H" if "j < length bs" by (rule object_page [OF st bl assms(2) that])
qed

lemma live_released:
  assumes ready: "pmm_ready L M s" and f: "frame_part L M s xs g" and a: "(a, n) \<in> set xs"
  shows "\<exists>s'. pmm_free L a n s = Inr (0, s')"
proof -
  have an: "page_aligned a" "small_request n" "frames a n \<subseteq> M"
    using f a block_in_blocks_of [OF a, of frames] by (auto simp: frame_part_def)
  have eq: "a = of_nat (unat a div 4096 * 4096)" by (rule page_aligned_of_nat [OF an(1)])
  have "\<exists>s'. pmm_free L (of_nat (unat a div 4096 * 4096)) n s = Inr (0, s')"
    using pmm_free_spec [of s n "unat a div 4096" L] ready an(2) pmm_ready_range [OF ready an(2), of "unat a div 4096"] an(3)
    by (auto simp: pmm_ready_def small_request_def frames_def simp del: of_nat_mult)
  then show ?thesis using eq by simp
qed

text \<open>The image of the kernel is mapped outside the direct map of the usable memory.\<close>

definition image_apart :: "limine \<Rightarrow> bool" where
  "image_apart L \<longleftrightarrow> (\<forall>p \<in> usable_pages L.
     \<not> range_index (boot_proto_kernel_virtual_base L) (page_addr L p) < range_pages (boot_proto_kernel_size L))"

lemma usable_mapped:
  assumes L: "direct_map_ok L" and p: "p \<in> usable_pages L - {0}"
  shows "p < 2 ^ 36" and "\<exists>j < entry_count L. p \<in> mapped_pages L j"
proof -
  obtain j where j: "j < entry_count L" "p \<in> entry_pages L j" using p by (auto simp: usable_pages_def usable_def)
  let ?e = "memmap_entry L j" and ?s = "skip_page_0 (memmap_entry L j)"
  have len: "unat (entry_base ?s) + unat (entry_length ?s) \<le> 2 ^ 48"
    using L j(1) by (simp add: direct_map_ok_def Let_def)
  have fits: "unat (entry_base ?s) div 4096 + (unat (entry_length ?s) + 4095) div 4096 \<le> 2 ^ 36"
    using len by simp
  have in_entry: "unat (entry_base ?e) div 4096 \<le> p" "p < (unat (entry_base ?e) + unat (entry_length ?e)) div 4096"
    using j(2) by (simp_all add: entry_pages_def ebase_def elen_def)
  have "unat (entry_base ?s) div 4096 \<le> p \<and> p < unat (entry_base ?s) div 4096 + (unat (entry_length ?s) + 4095) div 4096"
  proof (cases "entry_base ?e = 0")
    case True
    have big: "2 \<le> unat (entry_length ?e) div 4096" using in_entry(2) p True by auto
    then have "4096 \<le> unat (entry_length ?e)" by simp
    moreover from this have ge: "PAGE_SIZE \<le> entry_length ?e" by (simp add: word_le_nat_alt PAGE_SIZE_def)
    moreover have "unat (entry_length ?e - PAGE_SIZE) = unat (entry_length ?e) - 4096"
      using unat_sub [OF ge] by (simp add: PAGE_SIZE_def)
    moreover have "unat PAGE_SIZE = 4096" by (simp add: PAGE_SIZE_def)
    ultimately have s: "unat (entry_base ?s) = 4096" "unat (entry_length ?s) = unat (entry_length ?e) - 4096"
      using True by (simp_all add: skip_page_0_def)
    show ?thesis unfolding s using in_entry(2) big p True by auto
  next
    case False
    then have s: "?s = ?e" by (simp add: skip_page_0_def)
    have "(a + l) div 4096 \<le> a div 4096 + (l + 4095) div 4096" for a l :: nat
    proof -
      have "(a + l) div 4096 = (a mod 4096 + l + a div 4096 * 4096) div 4096" by simp
      also have "\<dots> = (a mod 4096 + l) div 4096 + a div 4096" by (simp only: div_mult_self1 zero_neq_numeral not_False_eq_True)
      also have "\<dots> \<le> (l + 4095) div 4096 + a div 4096"
      proof -
        have "a mod 4096 < 4096" by simp
        then have "a mod 4096 + l \<le> l + 4095" by linarith
        then show ?thesis by (intro add_right_mono div_le_mono)
      qed
      finally show ?thesis by simp
    qed
    then show ?thesis unfolding s using in_entry by (meson order_less_le_trans)
  qed
  then have in_map: "p \<in> mapped_pages L j" and lt: "p < unat (entry_base ?s) div 4096 + (unat (entry_length ?s) + 4095) div 4096"
    by (simp_all add: mapped_pages_def range_pages_def Let_def)
  show "p < 2 ^ 36" using lt fits by linarith
  show "\<exists>j < entry_count L. p \<in> mapped_pages L j" using j(1) in_map by blast
qed

text \<open>An address space that maps the kernel shows all usable memory at its place in the direct map.\<close>

lemma maps_kernel_direct:
  assumes m: "maps_kernel L r s" and L: "direct_map_ok L" "image_apart L" and x: "page_of L x \<in> usable_pages L - {0}"
  shows "translate L r s x = Some (page_of L x, True, False, True)"
proof -
  let ?p = "page_of L x" and ?h = "boot_proto_hhdm_offset L"
  note p = usable_mapped [OF L(1) x]
  have al: "unat ?h mod 4096 = 0" using L(1) by (simp add: direct_map_ok_def)
  have u: "unat (of_nat (?p * 4096) :: u64) = ?p * 4096" using p(1) by (intro unat_of_nat_64) simp
  have "vpage (x - ?h + ?h) = (?p + unat ?h div 4096) mod 2 ^ 36"
    by (simp only: vpage_direct [OF al] page_of_def)
  moreover have "vpage (page_addr L ?p) = (?p + unat ?h div 4096) mod 2 ^ 36"
    unfolding page_addr_def vpage_direct [OF al] u by simp
  ultimately have "vpath x = vpath (page_addr L ?p)" by (simp add: vpath_vpage)
  then have same: "translate L r s x = translate L r s (page_addr L ?p)" by (simp add: translate_def)
  have "\<not> range_index (boot_proto_kernel_virtual_base L) (page_addr L ?p) < range_pages (boot_proto_kernel_size L)"
    using L(2) x by (simp add: image_apart_def)
  then have v: "kernel_view L (page_addr L ?p) = Some (?p, True, False, True)"
    using memmap_view_direct [OF L(1) p(1), of "entry_count L"] p(2) by (simp add: kernel_view_def range_view_def)
  then have "kernel_view L (page_addr L ?p) \<noteq> None" by simp
  then show ?thesis using m v unfolding same maps_kernel_def by metis
qed

text \<open>What the processor sees in the space it runs in.\<close>

lemma active_space:
  assumes ok: "sys_ok L M k H \<D> w" and M: "M \<subseteq> {..<2 ^ 39}" and x: "canonical x"
  shows "kernel_view L x \<noteq> None
      \<Longrightarrow> cpu_translate L (kst w) x = map_option (\<lambda>(q, v). (q mod 2 ^ 40, v)) (kernel_view L x)"
    and "direct_map_ok L \<Longrightarrow> image_apart L \<Longrightarrow> page_of L x \<in> usable_pages L - {0}
      \<Longrightarrow> cpu_translate L (kst w) x = Some (page_of L x, True, False, True)"
proof -
  obtain r where r: "spaces w r \<noteq> None" "cr3 (kst w) = of_nat (r * 4096)" "maps_kernel L r (kst w)"
    using sys_okD(3) [OF ok] unfolding kernel_part_def by blast
  then obtain e where "spaces w r = Some e" by blast
  then have "vm_ok L M (\<D> r) r (kst w)" using sys_okD(4) [OF ok] by (simp add: space_part_def)
  then have t: "tree (slots L (mem (kst w))) (\<D> r) r" and "dom (\<D> r) \<subseteq> {..<2 ^ 39}"
    using M unfolding vm_ok_def by blast+
  then have D: "dom (\<D> r) \<subseteq> {..<2 ^ 40}" by fastforce
  have cpu: "cpu_translate L (kst w) x = map_option (\<lambda>(q, v). (q mod 2 ^ 40, v)) (translate L r (kst w) x)"
    using cpu_translate_space [OF t D r(2), of x] x by simp
  show "cpu_translate L (kst w) x = map_option (\<lambda>(q, v). (q mod 2 ^ 40, v)) (kernel_view L x)"
    if "kernel_view L x \<noteq> None"
    using r(3) that unfolding cpu maps_kernel_def by metis
  show "cpu_translate L (kst w) x = Some (page_of L x, True, False, True)"
    if L: "direct_map_ok L" "image_apart L" and u: "page_of L x \<in> usable_pages L - {0}"
  proof -
    have "page_of L x < 2 ^ 36" by (rule usable_mapped(1) [OF L(1) u])
    then show ?thesis unfolding cpu maps_kernel_direct [OF r(3) L u] by simp
  qed
qed

text \<open>C2: safety of every history of the kernel. After a boot, whatever sequence of steps the
  clients of the three memory managers take together -- heap allocations, releases and stores,
  page-frame allocations and releases and stores into the frames, address spaces created,
  changed, switched to (if they map the kernel; a new one does not) and destroyed, log lines
  printed -- no part harms another: every object
  holds the bytes its owner wrote and can be released; every owned frame holds the bytes its
  owner wrote, its frames can be released, and no byte of an object lies in it; both lie in usable
  memory; every address
  space translates as the operations on it say; the kernel's own mappings are never changed; the
  processor runs in an address space that exists, in which its own walk from \<^verbatim>\<open>cr3\<close> finds every page
  the kernel was booted with and every byte of usable memory, writable, at its place in the direct
  map, so that all these accesses reach the memory they mean; and every heap request returns.\<close>

theorem kernel_history_safe:
  assumes "boot_memory L n i B" and "lim_supported L" and "direct_map_ok L" and "image_apart L"
    and "gdts m = [g0]" and "gdtrs m = [r0]" and "length (idt m) = 256" and "return_to img \<noteq> after_far img"
    and "kernel_start L img m t s = Inr (m', t', s0)" and "kernelPT s0 = page_addr L k" and "k < 2 ^ 52"
    and "sys_reachable L k s0 w"
  shows "(\<forall>p bs. objs w p = Some bs \<longrightarrow> read_bytes (mem (kst w)) p (length bs) = bs
        \<and> (\<exists>s'. kfree p (kst w) = Inr s') \<and> (\<forall>j < length bs. owned w (p + of_nat j) = None
          \<and> page_of L (p + of_nat j) \<in> usable_pages L - {0}))
    \<and> (\<forall>x v. owned w x = Some v \<longrightarrow> mem (kst w) x = v \<and> page_of L x \<in> usable_pages L - {0})
    \<and> (\<forall>(a, pages) \<in> set (live w). \<exists>s'. pmm_free L a pages (kst w) = Inr (0, s'))
    \<and> (\<forall>r T ops. spaces w r = Some (T, ops) \<longrightarrow> map_steps ops T (translate L r (kst w)))
    \<and> maps_kernel L k (kst w)
    \<and> (\<exists>r. spaces w r \<noteq> None \<and> cr3 (kst w) = of_nat (r * 4096) \<and> maps_kernel L r (kst w))
    \<and> (\<forall>x. canonical x \<longrightarrow> kernel_view L x \<noteq> None
        \<longrightarrow> cpu_translate L (kst w) x = map_option (\<lambda>(q, rights). (q mod 2 ^ 40, rights)) (kernel_view L x))
    \<and> (\<forall>x. canonical x \<longrightarrow> page_of L x \<in> usable_pages L - {0}
        \<longrightarrow> cpu_translate L (kst w) x = Some (page_of L x, True, False, True))
    \<and> (\<forall>sz. heap_request sz \<longrightarrow> kmalloc L sz (kst w) \<noteq> None)"
proof -
  let ?M = "initial_pages L n i"
  obtain r q D where b: "cr3 s0 = of_nat (r * 4096)" "kernelPT s0 = page_addr L r" "vm_ok L ?M D r s0"
        "translate L r s0 = kernel_view L" "heap_ok L ?M {q..<q + 16} [Block (page_addr L q) 65504 True] s0"
        "{q..<q + 16} \<inter> dom D = {}"
    using kernel_starts [OF assms(1,2,5-8), of t s] assms(9) by auto
  have "tree (slots L (mem s0)) D r" using b(3) by (simp add: vm_ok_def)
  then have "D r = Some 3" by (rule tree_root)
  then have "r < 2 ^ 52" using vm_ok_page(4) [OF b(3)] by blast
  then have k: "r = k" using b(2) assms(10,11) page_of_page_addr by metis
  have "in_use [Block (page_addr L q) 65504 True] = {}" by (simp add: in_use_def)
  then have "sys_ok L ?M k {q..<q + 16} (\<lambda>_. D) (started L k s0)"
    using b unfolding k by (intro started_ok) auto
  moreover have M': "?M \<subseteq> {..<2 ^ 39}" using assms(1) by (intro bootable_pages) (simp add: boot_memory_def)
  ultimately obtain H \<D> where ok: "sys_ok L ?M k H \<D> w" using sys_reachable_ok [OF assms(12)] by blast
  note d = sys_okD [OF ok]
  have M: "?M \<subseteq> usable_pages L - {0}" unfolding initial_pages_def by blast
  have g: "owned w x = (if page_of L x \<in> blocks_of frames (live w) then Some (mem (kst w) x) else None)" for x
    using d(2) by (simp add: frame_part_def)
  have "read_bytes (mem (kst w)) p (length bs) = bs \<and> (\<exists>s'. kfree p (kst w) = Inr s')
      \<and> (\<forall>j < length bs. owned w (p + of_nat j) = None \<and> page_of L (p + of_nat j) \<in> usable_pages L - {0})"
    if "objs w p = Some bs" for p bs
  proof -
    note o = objects_safe [OF d(1) that]
    have HM: "H \<subseteq> usable_pages L - {0}" using d(10) M by (rule order_trans)
    have "page_of L (p + of_nat j) \<in> usable_pages L - {0}" if "j < length bs" for j using o(3) [OF that] HM by blast
    moreover have "owned w (p + of_nat j) = None" if "j < length bs" for j using o(3) [OF that] d(5) unfolding g by auto
    ultimately show ?thesis using o(1,2) by blast
  qed
  moreover have "mem (kst w) x = v \<and> page_of L x \<in> usable_pages L - {0}" if "owned w x = Some v" for x v
  proof -
    have "page_of L x \<in> blocks_of frames (live w) \<and> mem (kst w) x = v" using that g [of x] by (simp split: if_splits)
    then show ?thesis using d(2) M unfolding frame_part_def by blast
  qed
  moreover have "\<forall>(a, pages) \<in> set (live w). \<exists>s'. pmm_free L a pages (kst w) = Inr (0, s')"
    using live_released [OF d(8,2)] by blast
  moreover have "map_steps ops T (translate L r (kst w))" if "spaces w r = Some (T, ops)" for r T ops
    using d(4) [OF that] by (simp add: space_part_def)
  moreover obtain bl where "heap_ok L ?M H bl (kst w)" using d(1) by (auto simp: heap_part_def)
  then have "kmalloc L sz (kst w) \<noteq> None" if "heap_request sz" for sz using kmalloc_spec that by blast
  moreover have "maps_kernel L k (kst w)" using d(3) by (simp add: kernel_part_def)
  moreover have "\<exists>r. spaces w r \<noteq> None \<and> cr3 (kst w) = of_nat (r * 4096) \<and> maps_kernel L r (kst w)"
    using d(3) unfolding kernel_part_def by blast
  moreover have "cpu_translate L (kst w) x = map_option (\<lambda>(q, v). (q mod 2 ^ 40, v)) (kernel_view L x)"
    if "canonical x" "kernel_view L x \<noteq> None" for x
    by (rule active_space(1) [OF ok M' that])
  moreover have "cpu_translate L (kst w) x = Some (page_of L x, True, False, True)"
    if "canonical x" "page_of L x \<in> usable_pages L - {0}" for x
    by (rule active_space(2) [OF ok M' that(1) assms(3,4) that(2)])
  ultimately show ?thesis by (intro conjI allI impI) (blast | simp)+
qed


text \<open>After the boot of the example machine: an object, a store into it, and a log line.\<close>

lemma booted_kzalloc:
  assumes "heap_ok L M H [Block (page_addr L q) 65504 True] s"
  shows "\<exists>p s'. kmalloc L 100 s = Some (Inr (p, s'))"
proof -
  have "heap_request 100" by (simp add: heap_request_def)
  moreover have "first_fit (kmalloc_size 100) [Block (page_addr L q) 65504 True] \<noteq> None"
    by (simp add: kmalloc_size_def fits_def)
  ultimately show ?thesis using kmalloc_list [OF assms] by fastforce
qed

lemma boot_direct: "direct_map_ok boot_limine" "image_apart boot_limine"
proof -
  have n: "entry_count boot_limine = 2" by (simp add: entry_count_def boot_limine_def)
  have e: "skip_page_0 (memmap_entry boot_limine 0) = \<lparr>entry_base = 0x1000, entry_length = 0x9e000, entry_type = 1\<rparr>"
    "skip_page_0 (memmap_entry boot_limine 1) = \<lparr>entry_base = 0x100000, entry_length = 0x400000, entry_type = 1\<rparr>"
    by (simp_all add: memmap_entry_def boot_limine_def example_limine_def memmap_type_def memmap_type_defs skip_page_0_def)
  have k: "boot_proto_hhdm_offset boot_limine = 0xffff800000000000" "boot_proto_kernel_size boot_limine = 0x20000"
      "boot_proto_kernel_virtual_base boot_limine = 0xffffffff80000000"
    by (simp_all add: boot_proto_hhdm_offset_def boot_proto_kernel_size_def boot_proto_kernel_virtual_base_def
        boot_limine_def example_limine_def)
  have less_2: "(\<forall>i < (2 :: nat). Q i) \<longleftrightarrow> Q 0 \<and> Q 1" for Q by (auto simp: less_2_cases_iff)
  show "direct_map_ok boot_limine" unfolding direct_map_ok_def n k less_2 e by simp
  have "entry_pages boot_limine 0 = {1..<0x9f}" "entry_pages boot_limine 1 = {0x100..<0x500}"
    by (simp_all add: entry_pages_def boot_entries)
  then have "p < 0x500" if "p \<in> usable_pages boot_limine" for p
    using that unfolding usable_pages_def boot_usable by auto
  moreover have "\<not> range_index 0xffffffff80000000 (page_addr boot_limine p) < range_pages 0x20000" if "p < 0x500" for p
  proof -
    have u: "unat (of_nat (p * 4096) :: u64) = p * 4096" using that by (intro unat_of_nat_64) simp
    have "(p + 4503565267632128) mod 68719476736 = (p + 34359738368 + 65535 * 68719476736) mod 68719476736"
      by (simp add: ac_simps)
    also have "\<dots> = p + 34359738368" using that by (simp only: mod_mult_self1) simp
    finally have "vpage (page_addr boot_limine p) = p + 34359738368"
      unfolding page_addr_def using vpage_direct [of boot_limine "of_nat (p * 4096)"] that
      unfolding u k by simp
    then show ?thesis using that by (simp add: range_index_def vpage_def range_pages_def)
  qed
  ultimately show "image_apart boot_limine" unfolding image_apart_def k by blast
qed

theorem kernel_history_safe_witness:
  "\<exists>m' t' s0 k p s1 s2 s3. kernel_start boot_limine example_image reset_machine [] example_pmm = Inr (m', t', s0)
     \<and> kzalloc boot_limine 100 s0 = Some (Inr (p, s1)) \<and> s2 = store_byte p 3 7 s1
     \<and> klog LOGLEVEL_INFO ''ok'' [] s2 = Inr s3
     \<and> read_bytes (mem s3) p 100 = (replicate 100 0)[3 := 7] \<and> (\<exists>s4. kfree p s3 = Inr s4)
     \<and> translate boot_limine k s3 = kernel_view boot_limine \<and> cr3 s3 = of_nat (k * 4096)"
proof -
  note e = boot_example
  let ?L = boot_limine and ?M = "initial_pages boot_limine 1 0"
  obtain m' s0 k q D where b: "kernel_start ?L example_image reset_machine [] example_pmm = Inr (m', snd (serial_init []), s0)"
      "kernelPT s0 = page_addr ?L k" "vm_ok ?L ?M D k s0"
      "heap_ok ?L ?M {q..<q + 16} [Block (page_addr ?L q) 65504 True] s0"
    using kernel_starts [OF boot_enough e, of "[]" example_pmm] by auto
  have "tree (slots ?L (mem s0)) D k" using b(3) by (simp add: vm_ok_def)
  then have "D k = Some 3" by (rule tree_root)
  then have k: "k < 2 ^ 52" using vm_ok_page(4) [OF b(3)] by blast
  obtain p s where "kmalloc ?L 100 s0 = Some (Inr (p, s))" using booted_kzalloc [OF b(4)] by blast
  then obtain s1 where s1: "kzalloc ?L 100 s0 = Some (Inr (p, s1))" by (simp add: kzalloc_def)
  define s2 where "s2 = store_byte p 3 7 s1"
  obtain s3 where s3: "klog LOGLEVEL_INFO ''ok'' [] s2 = Inr s3" by (simp add: klog_literal)
  let ?z = "replicate (unat (100 :: u64)) (0 :: u8)"
  let ?\<sigma> = "(\<lambda>_. None)(p \<mapsto> ?z)"
  define w0 where "w0 = started ?L k s0"
  define w1 where "w1 = w0\<lparr>kst := s1, objs := ?\<sigma>\<rparr>"
  define w2 where "w2 = w1\<lparr>kst := s2, objs := ?\<sigma>(p \<mapsto> ?z[3 := 7])\<rparr>"
  define w3 where "w3 = w2\<lparr>kst := s3\<rparr>"
  note ws = w3_def w2_def w1_def w0_def started_def
  have n: "heap_request 100" by (simp add: heap_request_def)
  have "heap_step ?L (kst w0, objs w0) (s1, ?\<sigma>)" using step_kzalloc [OF n s1] by (simp add: ws)
  then have "sys_step ?L k w0 w1" unfolding w1_def by (rule use_heap)
  moreover have w1: "kst w1 = s1" "objs w1 = ?\<sigma>" by (simp_all add: ws)
  have "heap_step ?L (kst w1, objs w1) (s2, ?\<sigma>(p \<mapsto> ?z[3 := 7]))"
    unfolding s2_def w1 by (rule step_store) simp_all
  then have "sys_step ?L k w1 w2" unfolding w2_def by (rule use_heap)
  moreover have "sys_step ?L k w2 w3" unfolding w3_def by (rule print_log) (use s3 in \<open>simp add: ws\<close>)
  ultimately have "sys_reachable ?L k s0 w3" using sys_start sys_more unfolding w0_def by blast
  note safe = kernel_history_safe [OF boot_enough e(1) boot_direct e(2-) b(1,2) k this]
  have "kst w3 = s3" "objs w3 p = Some (?z[3 := 7])" "spaces w3 = [k \<mapsto> (kernel_view ?L, [])]" by (simp_all add: ws)
  moreover from this have "read_bytes (mem s3) p 100 = (replicate 100 0)[3 := 7] \<and> (\<exists>s4. kfree p s3 = Inr s4)"
    using spec [OF spec [OF safe [THEN conjunct1]], of p "?z[3 := 7]"] by simp
  moreover from calculation have "map_steps [] (kernel_view ?L) (translate ?L k s3)" "cr3 s3 = of_nat (k * 4096)"
    using safe by (auto split: if_splits)
  moreover from this(1) have "translate ?L k s3 = kernel_view ?L" by (cases rule: map_steps.cases) auto
  ultimately show ?thesis using b(1) s1 s2_def s3 by blast
qed


section \<open>An exception in the running kernel\<close>

text \<open>C3: from a fault to its report, end to end. After the boot, an exception below 32 (other than the
  four with two error codes on the stack) goes through the gate in the interrupt descriptor table
  that the boot has filled and loaded, to the stub of its vector in the kernel code segment; the
  stub and the common code pass the handler the interrupted registers; and the machine halts with
  the boot log on the console, followed by the report of exactly these registers.\<close>

theorem exception_after_boot:
  assumes "boot_memory L n i B" and "lim_supported L"
    and "gdts m = [g0]" and "gdtrs m = [r0]" and "length (idt m) = 256" and "return_to img \<noteq> after_far img"
    and "kernel_start L img m t s = Inr (m', t', s0)" and "v < 32" and "\<not> double_error_code v"
  shows "let g = gate_at (concat (map gate_bytes (idt m'))) v;
      c1 = deliver g v err c; c2 = exception_entry g v err c
    in cpu_idtr m' = \<lparr>idtr_size = 4095, idtr_offset = idt_base img\<rparr>
     \<and> cpu_rip c1 = isr img v \<and> sel_cs c1 = 0x08 \<and> \<not> bit (cpu_rflags c2) 9
     \<and> arch_exception_handler k (read_regs (cpu_mem c2) (gpr c2 RDI)) s0
        = Inl (Halted (con s @ boot_text L @ exception_text k (interrupted_regs v err c)))"
proof -
  let ?g = "gate_at (concat (map gate_bytes (idt m'))) v" and ?r = "interrupted_regs v err c"
  have boot: "con s0 = con s @ boot_text L" "cpu_idtr m' = \<lparr>idtr_size = 4095, idtr_offset = idt_base img\<rparr>"
      and g: "?g = \<lparr>gate_handler = isr img v, gate_selector = 0x08, gate_ist = 0, gate_kind = 0x8E\<rparr>"
    using kernel_starts [OF assms(1-6), of t s] assms(7,8) by auto
  have "gate_kind ?g AND 0xF = 0xE" unfolding g by simp
  then have off: "\<not> bit (cpu_rflags (exception_entry ?g v err c)) 9" by (rule entry_interrupts_off)
  have "unat (of_nat v :: u64) < 32" using assms(8) by (subst unat_of_nat_64) simp_all
  then have "arch_exception_handler k ?r s0 = Inl (Halted (con s @ boot_text L @ exception_text k ?r))"
    by (simp add: handler_report interrupted_regs_def boot(1))
  moreover have "read_regs (cpu_mem (exception_entry ?g v err c)) (gpr (exception_entry ?g v err c) RDI) = ?r"
    using entry_regs [of ?g v err c] assms(9) by simp
  moreover have "cpu_rip (deliver ?g v err c) = isr img v" "sel_cs (deliver ?g v err c) = 0x08"
    using deliver_fields(1,2) [of ?g v err c] unfolding g by simp_all
  ultimately show ?thesis using boot(2) off by (simp add: Let_def)
qed

theorem exception_after_boot_witness:
  "\<exists>m' t' s0 k c c2 r. kernel_start boot_limine example_image reset_machine [] example_pmm = Inr (m', t', s0)
     \<and> c2 = exception_entry (gate_at (concat (map gate_bytes (idt m'))) 14) 14 2 c
     \<and> r = read_regs (cpu_mem c2) (gpr c2 RDI)
     \<and> (arch_exception_handler k r s0 :: kerror + kstate)
        = Inl (Halted (con example_pmm @ boot_text boot_limine @ exception_text k (interrupted_regs 14 2 c)))"
proof -
  note e = boot_example
  obtain m' s0 where b: "kernel_start boot_limine example_image reset_machine [] example_pmm = Inr (m', snd (serial_init []), s0)"
    using kernel_starts [OF boot_enough e, of "[]" example_pmm] by auto
  have v: "(14 :: nat) < 32" "\<not> double_error_code 14" by (simp_all add: double_error_code_def)
  show ?thesis using exception_after_boot [OF boot_enough e b v] b unfolding Let_def by blast
qed

end
