(* ===== verification/Spec2Isabelle.thy ===== *)
theory Spec2Isabelle
  imports Format_Spec Pmm_Spec Vmm_Spec Heap_Props Serial Errno Halt Interrupt_Entry Kernel_System
begin

text \<open>
  A verification of Symphony, the kernel of OrchestrOS (\<^verbatim>\<open>src/symphony\<close>, \<^verbatim>\<open>src/include/symphony\<close>), for
  its x86\_64 port (and \<^verbatim>\<open>arch_halt\<close> on the others).

  \<^bold>\<open>The program.\<close> The bootloader enters \<^verbatim>\<open>_start\<close> (\<^verbatim>\<open>kernel.c\<close>). It loads the descriptor tables
  (\<^verbatim>\<open>arch/x86_64/gdt.c\<close>), opens the serial console (\<^verbatim>\<open>serial.c\<close>), logs what the bootloader says
  (\<^verbatim>\<open>boot_proto.c\<close>, \<^verbatim>\<open>debug.c\<close>), and starts the managers, each on top of the one before: the page-frame
  allocator (\<^verbatim>\<open>mm/pmm.c\<close>), interrupts (\<^verbatim>\<open>interrupt.c\<close>), the address space (\<^verbatim>\<open>mm/vmm.c\<close> over
  \<^verbatim>\<open>arch/x86_64/mm.c\<close>) and the heap (\<^verbatim>\<open>mm/kheap.c\<close>). Then it halts. Errors are assertions and panics,
  which print a message and halt.

  \<^bold>\<open>The state.\<close> \<^term>\<open>kstate\<close> (theory \<open>Kstate\<close>) has the bytes of memory, indexed by kernel virtual
  addresses; the text printed so far; and the static variables of the managers (\<^verbatim>\<open>bitmap\<close>,
  \<^verbatim>\<open>bitmapSize\<close>, \<^verbatim>\<open>kernelPT\<close>, \<^verbatim>\<open>blockListStart\<close> and so on) with \<^verbatim>\<open>cr3\<close>. Page tables, the bitmap and the
  headers of the heap are bytes of that memory, read and written little-endian, so that overlap
  and aliasing are real. The descriptor tables and the processor's registers are the record
  \<^term>\<open>machine\<close>; port I/O is a history of accesses. An operation takes the state last and returns
  the new state, or an error: \<^term>\<open>Halted\<close> with the console's text, or one of the values for
  undefined behaviour (in formatted output: a missing or mistyped argument, an overflowing width, the
  negation of the least integer). Machine integers are words of their C width, with their wrap-around; \<^verbatim>\<open>int\<close> is a
  32-bit word read with \<^term>\<open>sint\<close>.

  \<^bold>\<open>Parameters.\<close> What is not in the sources: the bootloader, its protocol header and its answers
  (record \<^term>\<open>limine\<close>); the addresses the linker and the assembler give (record \<^term>\<open>image\<close>); the
  device behind the ports (a function of the history); the control registers at an exception.
  Hypotheses on them are named predicates: \<^term>\<open>pmm_bootable\<close>, \<^term>\<open>small_map\<close> and \<^term>\<open>boot_memory\<close>
  (the memory map is in order and gives enough memory), \<^term>\<open>direct_map_ok\<close> and \<^term>\<open>image_apart\<close> (the
  direct map is aligned and in range, and the kernel image is mapped outside of it), \<^term>\<open>responsive\<close>
  (the serial line becomes ready again and again). Each has a concrete instance: \<^term>\<open>example_limine\<close>, \<^term>\<open>boot_limine\<close>,
  \<^term>\<open>slow_line\<close>.

  \<^bold>\<open>Theories and sources.\<close>
    \<^item> \<open>Prelude\<close>: loops with their rules, word and list lemmas.
    \<^item> \<open>Memory\<close> (\<^verbatim>\<open>string.c\<close>): byte and C-string functions, against lists of bytes.
    \<^item> \<open>Debug\<close>, \<open>Format_Spec\<close> (\<^verbatim>\<open>debug.c\<close>): formatted output; the format language as data with its
      meaning on integers and strings (\<^term>\<open>format_text\<close>, without the functions of the code), and
      that a written format prints its meaning; exactly which numbers print right.
    \<^item> \<open>Kstate\<close>: the state, logs, assertions and panics on it.
    \<^item> \<open>Boot_Proto\<close> (\<^verbatim>\<open>boot_proto.c\<close>): the accessors of the boot protocol.
    \<^item> \<open>Allocator\<close>: the interface of an allocator of ranges (locale \<open>range_allocator\<close>).
    \<^item> \<open>Pmm\<close>, \<open>Pmm_Init\<close>, \<open>Pmm_Spec\<close> (\<^verbatim>\<open>mm/pmm.c\<close>): the bitmap as a set of free pages, allocation,
      release and initialisation on it, the interpretation of the interface, histories.
    \<^item> \<open>Page_Table\<close>, \<open>Slots\<close>, \<open>Page_Tree\<close>, \<open>Paging\<close> (\<^verbatim>\<open>arch/x86_64/mm.c\<close>): entries, the memory as
      64-bit slots, the tree of tables, what the processor translates, and each operation on it. The
      model's walk (\<^term>\<open>translate\<close>) reads entries as the C struct; \<^term>\<open>cpu_translate\<close> is the walk of the
      processor from \<^verbatim>\<open>cr3\<close> on the raw words, and the two agree on well-formed tables.
    \<^item> \<open>Teardown\<close> (\<^verbatim>\<open>arch_vmm_destroy_pt\<close>): the four nested loops against the set of pages a tree reaches.
    \<^item> \<open>Vmm\<close>, \<open>Vmm_Spec\<close> (\<^verbatim>\<open>mm/vmm.c\<close>): ranges and \<^verbatim>\<open>vmm_init\<close>, against an abstract page map.
    \<^item> \<open>Kheap\<close>, \<open>Heap_List\<close>, \<open>Heap_Ops\<close>, \<open>Heap_Alloc\<close> (\<^verbatim>\<open>mm/kheap.c\<close>): the model; blocks as data;
      each operation on the linked headers as an operation on the list of blocks; the
      invariant \<^term>\<open>heap_ok\<close>.
    \<^item> \<open>Object_Heap\<close>, \<open>Heap_Spec\<close>, \<open>Heap_Props\<close>: the interface of a heap of objects (locale
      \<open>object_heap\<close>), its interpretation on the kernel heap, histories, the properties.
    \<^item> \<open>Serial\<close> (\<^verbatim>\<open>ports.c\<close>, \<^verbatim>\<open>serial.c\<close>, and \<^verbatim>\<open>debug_putchar\<close> on the ports): the driver against a
      model of the controller that reads the history.
    \<^item> \<open>Descriptors\<close> (\<^verbatim>\<open>gdt.c\<close>, \<^verbatim>\<open>interrupt.c\<close>, \<^verbatim>\<open>init.c\<close>): tables, gates, the processor's reading.
    \<^item> \<open>Exceptions\<close> (\<^verbatim>\<open>interrupt.c\<close>): the exception report. \<open>Errno\<close> (\<^verbatim>\<open>error.h\<close>): error pointers.
    \<^item> \<open>Halt\<close> (\<^verbatim>\<open>arch/*/halt.c\<close>): how the processor halts, on all ports. Elsewhere a call of \<^verbatim>\<open>arch_halt\<close>
      is the error \<^term>\<open>Halted\<close>, or the end of \<^term>\<open>kernel_start\<close>.
    \<^item> \<open>Interrupt_Entry\<close> (\<^verbatim>\<open>interrupt.asm\<close>): the stubs and the common entry and exit code as programs
      of a small machine, from the frame the processor pushes to the handler and back.
    \<^item> \<open>Kernel\<close> (\<^verbatim>\<open>kernel.c\<close>): \<^verbatim>\<open>_start\<close>, composed of all of these, and the boot from end to end.
    \<^item> \<open>Ownership\<close>, \<open>Kernel_System\<close>: the managers together. A step of one changes memory only in
      pages it owns or takes (\<^term>\<open>keeps\<close>); \<^term>\<open>sys_step\<close> interleaves the operations of all of them
      after the boot, and \<^term>\<open>sys_ok\<close> is the invariant of all reachable states. Memory is indexed by addresses
      in the direct map, so part of the invariant is that the active tables map the kernel
      and all usable memory there; clients may switch only to such tables. An exception
      after the boot is followed from the loaded descriptor table to its report.

  \<^bold>\<open>What is shown.\<close> For every manager: the functional behaviour of each operation on each branch;
  an invariant (\<^term>\<open>pmm_ready\<close>, \<^term>\<open>vm_ok\<close>, \<^term>\<open>heap_ok\<close>) that every operation keeps; a refinement
  of an abstract description (a set of free pages, a page map, a list of blocks); and the safety
  of every history of operations after initialisation. For the boot: with enough memory it
  reaches its end, with the state of all managers described, and every history of the running
  kernel, in which clients of all managers interleave, is safe: no part disturbs another. Calls
  that might not return (\<^verbatim>\<open>kmalloc\<close> on a damaged list, the serial line) are partial functions, and
  that they return is a theorem.

  \<^bold>\<open>Bounds and fuel.\<close> Loops over a counter that may wrap use \<^term>\<open>for_stepE\<close> with
  \<^term>\<open>stride_fuel\<close> rounds, the exact number of rounds of a loop that does not wrap;
  \<^term>\<open>Out_of_fuel\<close> is then the loop that does not end. The page-frame theorems are for up to
  \<open>2 ^ 51\<close> pages (the width of the frame field; \<open>2 ^ 40\<close> where the processor's walk is concerned,
  more than any machine of \<^term>\<open>pmm_bootable\<close> has), requests of the heap for up to \<open>2 ^ 30 - 16\<close> bytes
  (so that the number of pages is an \<^verbatim>\<open>int\<close>), \<^verbatim>\<open>pmm_free\<close> for fewer than \<open>2 ^ 19\<close> pages (beyond, the
  \<^verbatim>\<open>int\<close> product overflows).

  \<^bold>\<open>Not modelled.\<close> The initialisation stages of the aarch64 and riscv64 ports only return 0.
  The request structures of \<^verbatim>\<open>boot_proto.c\<close> are data for the bootloader, whose answers are the record
  \<^term>\<open>limine\<close>. The addresses the assembly entry points are linked at are the parameter \<^term>\<open>isr\<close>. The
  TLB and caches have no state here: \<^verbatim>\<open>invlpg\<close> has no effect. \<^verbatim>\<open>types.h\<close> declares the types the model uses as words;
  the build files are not program logic.
\<close>

end
